(* ===== verification/Prelude.thy ===== *)
theory Prelude
  imports Main "HOL-Library.Word" "HOL-Library.Signed_Division" "HOL-Library.AList"
begin

text \<open>
  Shared vocabulary of the development: Go's byte slices as lists of \<^typ>\<open>8 word\<close>, Go's error
  values as one datatype, Go's 64-bit signed arithmetic on \<^typ>\<open>int\<close>, and the generic lemmas on
  the two list operations every component of the storage stack is described with:
  \<open>segment\<close> (the slice expression \<open>xs[off:off+n]\<close>) and \<open>overwrite\<close> (the effect of \<open>copy\<close> into
  such a slice).

  Conventions used by every theory. A call \<open>ReadAt(p, off)\<close> of the source fills a prefix of \<open>p\<close>
  and returns its length and an error; it is modelled by a function that takes \<open>len(p)\<close> and the
  offset and returns that prefix and the error. Offsets that come from a caller are \<^typ>\<open>int\<close>
  (they may be negative); once a range has been validated, offsets and lengths are carried as
  \<^typ>\<open>nat\<close>. Counters that the source keeps in a \<open>uint64\<close> are \<^typ>\<open>64 word\<close>.
  A formatted error keeps its format string without the arguments.
\<close>

unbundle bit_operations_syntax

type_synonym byte = "8 word"
type_synonym bytes = "8 word list"
type_synonym u16 = "16 word"
type_synonym u32 = "32 word"
type_synonym u64 = "64 word"

subsection \<open>Go errors\<close>

text \<open>
  The sentinel errors the modelled packages compare or return, the runtime panics the source can
  raise (as values, so that a run that would panic is visible in the result), and the two ways an
  error is built from text.
\<close>

datatype go_error =
    EOF | ErrUnexpectedEOF | ErrShortWrite | ErrNoProgress | ErrClosedPipe
  | ErrReadOnly | ErrUnsupported | ErrOutOfRange | ErrWouldBlock | ErrCanceled
  | BlockCapacityError int int int
  | TranslationFault u64 u64
  | Panic string
  | Errorf string
  | Wrapped string go_error

type_synonym read_result = "bytes \<times> go_error option"
type_synonym reader_at = "nat \<Rightarrow> int \<Rightarrow> read_result"

subsection \<open>64-bit signed arithmetic\<close>

abbreviation max_int64 :: int where
  "max_int64 \<equiv> 9223372036854775807"

abbreviation min_int64 :: int where
  "min_int64 \<equiv> - 9223372036854775808"

text \<open>The value an \<open>int64\<close> (or \<open>int\<close>) operation leaves when its exact result is \<open>x\<close>.\<close>

definition i64 :: "int \<Rightarrow> int" where
  "i64 x = (x + 9223372036854775808) mod 18446744073709551616 - 9223372036854775808"

lemma i64_id: "min_int64 \<le> x \<Longrightarrow> x \<le> max_int64 \<Longrightarrow> i64 x = x"
  by (simp add: i64_def)

lemma i64_nonneg: "0 \<le> x \<Longrightarrow> x \<le> max_int64 \<Longrightarrow> i64 x = x"
  by (simp add: i64_id)

lemma i64_nat: "k \<le> nat max_int64 \<Longrightarrow> i64 (int k) = int k"
  by (rule i64_nonneg) simp_all

lemma i64_bounds: "min_int64 \<le> i64 x \<and> i64 x \<le> max_int64"
proof -
  have "0 \<le> (x + 9223372036854775808) mod 18446744073709551616"
    and "(x + 9223372036854775808) mod 18446744073709551616 < 18446744073709551616"
    by simp_all
  then show ?thesis unfolding i64_def by linarith
qed

text \<open>Go's truncating division agrees with \<open>div\<close> and \<open>mod\<close> where no operand is negative.\<close>

lemma sdiv_nonneg: "0 \<le> a \<Longrightarrow> 0 < b \<Longrightarrow> (a :: int) sdiv b = a div b"
  by (cases "a = 0") (simp_all add: signed_divide_int_def)

lemma smod_nonneg: "0 \<le> a \<Longrightarrow> 0 < b \<Longrightarrow> (a :: int) smod b = a mod b"
  by (simp add: sdiv_nonneg minus_div_mult_eq_mod flip: minus_sdiv_mult_eq_smod)

subsection \<open>Slices of lists\<close>

named_theorems seg_simps \<open>rewrite rules for segments and overwrites\<close>

definition segment :: "nat \<Rightarrow> nat \<Rightarrow> 'a list \<Rightarrow> 'a list" where
  "segment off n xs = take n (drop off xs)"

definition overwrite :: "nat \<Rightarrow> 'a list \<Rightarrow> 'a list \<Rightarrow> 'a list" where
  "overwrite off ys xs = take off xs @ ys @ drop (off + length ys) xs"

lemma length_segment [simp]: "length (segment off n xs) = min n (length xs - off)"
  by (simp add: segment_def min.commute)

lemma segment_0 [simp]: "segment off 0 xs = []"
  by (simp add: segment_def)

lemma segment_all [simp]: "segment 0 (length xs) xs = xs"
  by (simp add: segment_def)

lemma segment_ge [simp]: "length xs \<le> n \<Longrightarrow> segment 0 n xs = xs"
  by (simp add: segment_def)

lemma nth_segment [simp]:
  "i < n \<Longrightarrow> off + i < length xs \<Longrightarrow> segment off n xs ! i = xs ! (off + i)"
  by (simp add: segment_def)

lemma segment_eqI:
  assumes "length ys = n" and "off + n \<le> length xs"
    and "\<And>i. i < n \<Longrightarrow> ys ! i = xs ! (off + i)"
  shows "segment off n xs = ys"
  using assms by (intro nth_equalityI) auto

lemma segment_add: "segment off (m + n) xs = segment off m xs @ segment (off + m) n xs"
  by (simp add: segment_def take_add add.commute)

lemma segment_split:
  "k \<le> n \<Longrightarrow> segment off k xs @ segment (off + k) (n - k) xs = segment off n xs"
  using segment_add [of off k "n - k" xs] by simp

lemma segment_segment [simp]:
  "i + m \<le> n \<Longrightarrow> segment i m (segment off n xs) = segment (off + i) m xs"
  by (simp add: segment_def drop_take add.commute min_absorb1)

lemma segment_replicate [simp]: "segment i m (replicate n x) = replicate (min m (n - i)) x"
  by (simp add: segment_def)

lemma segment_append_left: "off + n \<le> length xs \<Longrightarrow> segment off n (xs @ ys) = segment off n xs"
  by (simp add: segment_def)

lemma segment_append_right:
  "length xs \<le> off \<Longrightarrow> segment off n (xs @ ys) = segment (off - length xs) n ys"
  by (simp add: segment_def)

lemma length_overwrite [simp]:
  "off + length ys \<le> length xs \<Longrightarrow> length (overwrite off ys xs) = length xs"
  by (simp add: overwrite_def)

lemma overwrite_Nil [simp]: "overwrite off [] xs = xs"
  by (simp add: overwrite_def)

lemma nth_overwrite:
  assumes "off + length ys \<le> length xs" and "i < length xs"
  shows "overwrite off ys xs ! i =
    (if off \<le> i \<and> i < off + length ys then ys ! (i - off) else xs ! i)"
  using assms by (auto simp: overwrite_def nth_append min_def)

lemma segment_overwrite_same [simp]:
  "off + length ys \<le> length xs \<Longrightarrow> n = length ys \<Longrightarrow> segment off n (overwrite off ys xs) = ys"
  by (simp add: segment_def overwrite_def)

lemma segment_overwrite_disjoint:
  assumes "off + length ys \<le> length xs" and "o' + n \<le> length xs"
    and "o' + n \<le> off \<or> off + length ys \<le> o'"
  shows "segment o' n (overwrite off ys xs) = segment o' n xs"
  using assms by (intro nth_equalityI) (auto simp: nth_overwrite)

lemma overwrite_append:
  assumes "off + length ys + length zs \<le> length xs"
  shows "overwrite (off + length ys) zs (overwrite off ys xs) = overwrite off (ys @ zs) xs"
  using assms by (simp add: overwrite_def ac_simps)

lemma overwrite_segment [simp]:
  "off + n \<le> length xs \<Longrightarrow> overwrite off (segment off n xs) xs = xs"
  by (intro nth_equalityI) (auto simp: nth_overwrite)

lemma segment_overwrite_inside:
  assumes "a \<le> off" and "off + length ys \<le> a + n" and "a + n \<le> length xs"
  shows "segment a n (overwrite off ys xs) = overwrite (off - a) ys (segment a n xs)"
  using assms by (intro nth_equalityI) (auto simp: nth_overwrite add.commute)

lemma segment_overwrite_clip:
  assumes "a + m \<le> length xs" and "off + length ys \<le> length xs"
    and "a \<le> off + length ys" and "off \<le> a + m"
  shows "segment a m (overwrite off ys xs) =
    overwrite (max off a - a)
      (segment (max off a - off) (min (off + length ys) (a + m) - max off a) ys) (segment a m xs)"
    (is "?l = ?r")
proof -
  let ?s = "segment (max off a - off) (min (off + length ys) (a + m) - max off a) ys"
  have len: "length ?s = min (off + length ys) (a + m) - max off a"
    using assms by (auto simp: min_def max_def)
  have fits: "max off a - a + length ?s \<le> length (segment a m xs)"
    using assms unfolding len by (auto simp: min_def max_def)
  have lens: "length ?l = length ?r" using assms fits by simp
  then show ?thesis
  proof (rule nth_equalityI)
  fix i assume "i < length ?l"
  then have i: "i < m" using assms by simp
  show "?l ! i = ?r ! i"
  proof (cases "off \<le> a + i \<and> a + i < off + length ys")
    case True
    then have in': "max off a - a \<le> i \<and> i < max off a - a + length ?s"
      using i len by (auto simp: min_def max_def)
    have "?r ! i = ?s ! (i - (max off a - a))"
      using in' fits i assms by (simp add: nth_overwrite)
    also have "\<dots> = ys ! (max off a - off + (i - (max off a - a)))"
      using True in' i len by (subst nth_segment) (auto simp: min_def max_def)
    also have "max off a - off + (i - (max off a - a)) = a + i - off"
      using True in' by (simp add: max_def)
    finally show ?thesis using True i assms by (simp add: nth_overwrite)
  next
    case False
    then have "\<not> (max off a - a \<le> i \<and> i < max off a - a + length ?s)"
      using len by (auto simp: min_def max_def)
    then have "?r ! i = segment a m xs ! i"
      using nth_overwrite [OF fits, of i] i assms(1) by (simp only: if_False) simp
    moreover have "?l ! i = xs ! (a + i)" using False i assms by (auto simp: nth_overwrite)
    ultimately show ?thesis using i assms(1) by simp
  qed
  qed
qed

lemmas seg_bounds [seg_simps] = length_segment nth_segment length_overwrite nth_overwrite

text \<open>
  Cutting a list into blocks of \<open>cs\<close> elements: the first index of the block of position \<open>k\<close> is
  at most \<open>k\<close>, and \<open>k\<close> is inside it.
\<close>

lemma div_block_le: "(k div cs) * cs \<le> (k :: nat)"
  by (rule div_times_less_eq_dividend)

lemma div_block_lt: "0 < cs \<Longrightarrow> k < (k div cs) * cs + (cs :: nat)"
  using dividend_less_div_times [of cs k] by (simp add: add.commute)

lemma div_block_mod: "(k div cs) * cs + k mod cs = (k :: nat)"
  by simp

lemma ivl_join:
  "a \<le> b \<Longrightarrow> b \<le> sz \<Longrightarrow>
   {int a ..< int (min sz b)} \<union> {int b ..< int (min sz (b + c))} = {int a ..< int (min sz (b + c))}"
  by auto

lemma div_eq_iff_block:
  "0 < cs \<Longrightarrow> k div cs = (i :: nat) \<longleftrightarrow> i * cs \<le> k \<and> k < i * cs + cs"
  using div_nat_eqI [of cs i k] div_times_less_eq_dividend [of k cs]
    dividend_less_div_times [of cs k]
  by (auto simp: mult.commute)

subsection \<open>Little-endian integers\<close>

text \<open>\<open>binary.LittleEndian\<close>: the value of a byte list, least significant byte first.\<close>

fun le_value :: "bytes \<Rightarrow> nat" where
  "le_value [] = 0"
| "le_value (b # bs) = unat b + 256 * le_value bs"

fun le_bytes :: "nat \<Rightarrow> nat \<Rightarrow> bytes" where
  "le_bytes 0 v = []"
| "le_bytes (Suc n) v = word_of_nat (v mod 256) # le_bytes n (v div 256)"

lemma length_le_bytes [simp]: "length (le_bytes n v) = n"
  by (induction n arbitrary: v) auto

lemma unat_byte_lt [simp]: "unat (b :: byte) < 256"
  using unsigned_less [of b] by simp

lemma le_value_bound: "le_value bs < 256 ^ length bs"
proof (induction bs)
  case Nil
  then show ?case by simp
next
  case (Cons b bs)
  have "unat b + 256 * le_value bs < 256 * (le_value bs + 1)"
    using unat_byte_lt [of b] by simp
  also have "\<dots> \<le> 256 * 256 ^ length bs"
    using Cons.IH by (intro mult_le_mono2) simp
  finally show ?case by simp
qed

lemma unat_word_of_nat_byte: "v < 256 \<Longrightarrow> unat (word_of_nat v :: byte) = v"
  by (simp add: unat_of_nat)

lemma le_value_le_bytes: "v < 256 ^ n \<Longrightarrow> le_value (le_bytes n v) = v"
proof (induction n arbitrary: v)
  case 0
  then show ?case by simp
next
  case (Suc n)
  then have "v div 256 < 256 ^ n"
    by (simp add: less_mult_imp_div_less mult.commute)
  then show ?case
    using Suc.IH [of "v div 256"] by (simp add: unat_word_of_nat_byte)
qed

lemma le_bytes_le_value: "le_bytes (length bs) (le_value bs) = bs"
proof (induction bs)
  case Nil
  then show ?case by simp
next
  case (Cons b bs)
  have "(unat b + 256 * le_value bs) mod 256 = unat b"
    and "(unat b + 256 * le_value bs) div 256 = le_value bs"
    using unat_byte_lt [of b] by simp_all
  with Cons.IH show ?case by (simp del: unat_byte_lt)
qed

subsection \<open>\<open>sort.Search\<close>\<close>

text \<open>The binary search of the standard library: the least index with \<open>f\<close>, for a monotone \<open>f\<close>.\<close>

function search_loop :: "(nat \<Rightarrow> bool) \<Rightarrow> nat \<Rightarrow> nat \<Rightarrow> nat" where
  "search_loop f i j =
     (if i < j then let h = (i + j) div 2 in if \<not> f h then search_loop f (h + 1) j else search_loop f i h
      else i)"
  by pat_completeness auto
termination
  by (relation "measure (\<lambda>(f, i, j). j - i)") auto

declare search_loop.simps [simp del]

definition sort_Search :: "nat \<Rightarrow> (nat \<Rightarrow> bool) \<Rightarrow> nat" where
  "sort_Search n f = search_loop f 0 n"

lemma search_loop_least:
  assumes mono: "\<And>k l. k \<le> l \<Longrightarrow> l < n \<Longrightarrow> f k \<Longrightarrow> f l"
    and "i \<le> j" and "j \<le> n" and "\<forall>k < i. \<not> f k" and "\<forall>k. j \<le> k \<and> k < n \<longrightarrow> f k"
  shows "search_loop f i j \<le> n \<and> (\<forall>k < search_loop f i j. \<not> f k) \<and>
    (\<forall>k. search_loop f i j \<le> k \<and> k < n \<longrightarrow> f k)"
  using assms(2-)
proof (induction "j - i" arbitrary: i j rule: less_induct)
  case less
  show ?case
  proof (cases "i < j")
    case False
    then have "search_loop f i j = i" "j = i"
      using less.prems(1) by (subst search_loop.simps, simp_all)
    with less.prems show ?thesis by simp
  next
    case True
    define h where "h = (i + j) div 2"
    have h: "i \<le> h" "h < j" using True by (auto simp: h_def)
    show ?thesis
    proof (cases "f h")
      case False
      have low: "\<forall>k < h + 1. \<not> f k"
        using mono [of _ h] h less.prems(2) False by (metis Suc_eq_plus1 less_Suc_eq_le less_le_trans)
      have eq: "search_loop f i j = search_loop f (h + 1) j"
        using True False by (subst search_loop.simps) (simp add: Let_def flip: h_def)
      have "j - (h + 1) < j - i" "h + 1 \<le> j" using h by linarith+
      from less.hyps [OF this less.prems(2) low less.prems(4)] show ?thesis unfolding eq .
    next
      case fh: True
      have high: "\<forall>k. h \<le> k \<and> k < n \<longrightarrow> f k" using mono fh by blast
      have eq: "search_loop f i j = search_loop f i h"
        using True fh by (subst search_loop.simps) (simp add: Let_def flip: h_def)
      have "h - i < j - i" "h \<le> n" using h less.prems(2) by linarith+
      from less.hyps [OF this(1) h(1) this(2) less.prems(3) high] show ?thesis unfolding eq .
    qed
  qed
qed

lemma sort_Search_least:
  assumes "\<And>k l. k \<le> l \<Longrightarrow> l < n \<Longrightarrow> f k \<Longrightarrow> f l"
  shows "sort_Search n f \<le> n \<and> (\<forall>k < sort_Search n f. \<not> f k) \<and>
    (\<forall>k. sort_Search n f \<le> k \<and> k < n \<longrightarrow> f k)"
  unfolding sort_Search_def by (rule search_loop_least [OF assms]) auto



end
