(* ===== verification/Store_Spec.thy ===== *)
theory Store_Spec
  imports Prelude
begin

text \<open>
  The contracts between the layers of the storage stack. \<open>read_store\<close> is what a client of
  \<open>io.ReaderAt\<close> with a known size relies on (\<open>src/storage/storage.go\<close>, \<open>Reader\<close>): an in-range read
  returns exactly the bytes of the store. \<open>write_store\<close> adds a writer whose successful writes
  replace exactly the addressed bytes (\<open>src/block/device.go\<close>, \<open>Writer\<close>), and \<open>atomic_store\<close> the
  promise that a refused write leaves the bytes alone. The lemmas proved here once hold for every component that
  interprets the locales.
\<close>

subsection \<open>Abstract behaviour: an array of bytes under a sequence of writes\<close>

fun apply_writes :: "bytes \<Rightarrow> (nat \<times> bytes) list \<Rightarrow> bytes" where
  "apply_writes xs [] = xs"
| "apply_writes xs ((off, p) # ws) = apply_writes (overwrite off p xs) ws"

text \<open>
  Running the writes of a client that goes on after a refusal: the list of the requests that were
  accepted, in order, and the final state.
\<close>

fun run_writes :: "('s \<Rightarrow> bytes \<Rightarrow> int \<Rightarrow> (nat \<times> go_error option) \<times> 's) \<Rightarrow>
    's \<Rightarrow> (int \<times> bytes) list \<Rightarrow> (nat \<times> bytes) list \<times> 's" where
  "run_writes w s [] = ([], s)"
| "run_writes w s ((off, p) # ws) =
     (case w s p off of
        ((_, Some e), s') \<Rightarrow> run_writes w s' ws
      | ((_, None), s') \<Rightarrow> (let (took, t) = run_writes w s' ws in ((nat off, p) # took, t)))"

lemma apply_writes_length:
  "(\<And>off p. (off, p) \<in> set ws \<Longrightarrow> off + length p \<le> length xs) \<Longrightarrow>
   length (apply_writes xs ws) = length xs"
proof (induction ws arbitrary: xs)
  case Nil
  then show ?case by simp
next
  case (Cons w ws)
  obtain off p where w: "w = (off, p)" by (cases w)
  with Cons.prems have "off + length p \<le> length xs" by simp
  then have "length (overwrite off p xs) = length xs" by simp
  with Cons.IH [of "overwrite off p xs"] Cons.prems show ?case by (simp add: w)
qed

subsection \<open>Stores that can be read\<close>

locale read_store =
  fixes inv :: "'s \<Rightarrow> bool"
    and contents :: "'s \<Rightarrow> bytes"
    and read_at :: "'s \<Rightarrow> nat \<Rightarrow> int \<Rightarrow> read_result"
  assumes read_ok: "inv s \<Longrightarrow> 0 \<le> off \<Longrightarrow> nat off + n \<le> length (contents s) \<Longrightarrow>
    read_at s n off = (segment (nat off) n (contents s), None)"
begin

lemma read_whole: "inv s \<Longrightarrow> read_at s (length (contents s)) 0 = (contents s, None)"
  by (simp add: read_ok)

text \<open>Two adjacent reads see what one read of their union sees.\<close>

lemma read_split:
  assumes "inv s" and "0 \<le> off" and "nat off + (m + n) \<le> length (contents s)"
  shows "fst (read_at s (m + n) off) = fst (read_at s m off) @ fst (read_at s n (off + int m))"
proof -
  have "nat (off + int m) = nat off + m" using assms(2) by simp
  then show ?thesis using assms by (simp add: read_ok segment_add)
qed

text \<open>A store is determined by its in-range reads: no hidden bytes.\<close>

lemma reads_determine:
  assumes "inv s" and "inv t" and "length (contents s) = length (contents t)"
    and "\<And>k. k < length (contents s) \<Longrightarrow> read_at s 1 (int k) = read_at t 1 (int k)"
  shows "contents s = contents t"
proof (rule nth_equalityI)
  show "length (contents s) = length (contents t)" by (rule assms(3))
next
  fix k assume k: "k < length (contents s)"
  have "segment k 1 (contents s) = segment k 1 (contents t)"
    using assms(4) [OF k] assms(1-3) k by (simp add: read_ok)
  then have "segment k 1 (contents s) ! 0 = segment k 1 (contents t) ! 0" by simp
  then show "contents s ! k = contents t ! k" using k assms(3) by simp
qed

end

subsection \<open>Stores that can be written\<close>

locale write_store = read_store +
  fixes write_at :: "'s \<Rightarrow> bytes \<Rightarrow> int \<Rightarrow> (nat \<times> go_error option) \<times> 's"
  assumes write_ok: "inv s \<Longrightarrow> write_at s p off = ((n, None), s') \<Longrightarrow>
      inv s' \<and> n = length p \<and> 0 \<le> off \<and> nat off + length p \<le> length (contents s) \<and>
      contents s' = overwrite (nat off) p (contents s)"
begin

lemma read_own_write:
  assumes "inv s" and "write_at s p off = ((n, None), s')"
  shows "read_at s' (length p) off = (p, None)"
  using write_ok [OF assms] by (simp add: read_ok)

lemma read_other_bytes:
  assumes "inv s" and "write_at s p off = ((n, None), s')"
    and "0 \<le> off'" and "nat off' + m \<le> length (contents s)"
    and "nat off' + m \<le> nat off \<or> nat off + length p \<le> nat off'"
  shows "read_at s' m off' = read_at s m off'"
  using write_ok [OF assms(1,2)] assms(1,3-5)
  by (simp add: read_ok segment_overwrite_disjoint)

text \<open>Two accepted writes next to each other are one write of both payloads.\<close>

lemma adjacent_writes:
  assumes "inv s" and w: "write_at s p off = ((m, None), s')"
    and w': "write_at s' q (off + int (length p)) = ((n, None), s'')"
  shows "contents s'' = overwrite (nat off) (p @ q) (contents s)"
proof -
  note a = write_ok [OF assms(1) w]
  then have b: "inv s'" by simp
  have "nat (off + int (length p)) = nat off + length p"
    using a by (simp add: nat_add_distrib)
  with a write_ok [OF b w'] show ?thesis
    by (simp add: overwrite_append)
qed

end

subsection \<open>Stores whose failed writes change nothing\<close>

locale atomic_store = write_store +
  assumes write_err: "inv s \<Longrightarrow> write_at s p off = ((n, Some e), s') \<Longrightarrow>
      inv s' \<and> contents s' = contents s"
begin

text \<open>
  Refinement: whatever sequence of writes a client issues, refused ones in between, the store holds
  what an array holds after the accepted ones, and stays readable.
\<close>

lemma run_writes_refines:
  assumes "inv s" and "run_writes write_at s ws = (took, t)"
  shows "inv t \<and> contents t = apply_writes (contents s) took \<and>
    length (contents t) = length (contents s)"
  using assms
proof (induction ws arbitrary: s took t)
  case Nil
  then show ?case by simp
next
  case (Cons w ws)
  obtain off p where w: "w = (off, p)" by (cases w)
  obtain n err s' where step: "write_at s p off = ((n, err), s')" by (metis surj_pair)
  show ?case
  proof (cases err)
    case (Some e)
    with write_err [OF Cons.prems(1)] step have s': "inv s'" "contents s' = contents s" by auto
    have "run_writes write_at s' ws = (took, t)" using step Cons.prems(2) Some by (simp add: w)
    from Cons.IH [OF s'(1) this] s'(2) show ?thesis by auto
  next
    case None
    obtain took' t' where rest: "run_writes write_at s' ws = (took', t')"
      by (metis surj_pair)
    with step None Cons.prems(2) have eq: "took = (nat off, p) # took'" "t = t'"
      by (auto simp: w)
    from step None have "write_at s p off = ((n, None), s')" by simp
    from write_ok [OF Cons.prems(1) this]
    have ok: "inv s'" "contents s' = overwrite (nat off) p (contents s)"
        "length (contents s') = length (contents s)" by simp_all
    from Cons.IH [OF ok(1) rest] ok(2,3) eq show ?thesis by (metis apply_writes.simps(2))
  qed
qed

end

subsection \<open>Stores that grow\<close>

definition resize :: "nat \<Rightarrow> bytes \<Rightarrow> bytes" where
  "resize n xs = take n xs @ replicate (n - length xs) 0"

text \<open>A write that may end behind the last byte: the gap is filled with zeros.\<close>

definition write_extend :: "nat \<Rightarrow> bytes \<Rightarrow> bytes \<Rightarrow> bytes" where
  "write_extend off p xs =
     (if p = [] then xs else overwrite off p (resize (max (length xs) (off + length p)) xs))"

lemma length_resize [simp]: "length (resize n xs) = n"
  by (simp add: resize_def)

text \<open>A byte that is zero or lies behind the end.\<close>

definition zero_at :: "nat \<Rightarrow> bytes \<Rightarrow> bool" where
  "zero_at k c \<longleftrightarrow> (k < length c \<longrightarrow> c ! k = 0)"

lemma nth_resize: "i < n \<Longrightarrow> resize n xs ! i = (if i < length xs then xs ! i else 0)"
  by (simp add: resize_def nth_append)

lemma length_write_extend:
  "length (write_extend off p xs) = (if p = [] then length xs else max (length xs) (off + length p))"
  by (simp add: write_extend_def)

lemma nth_write_extend:
  assumes "i < length (write_extend off p xs)"
  shows "write_extend off p xs ! i =
    (if off \<le> i \<and> i < off + length p then p ! (i - off) else if i < length xs then xs ! i else 0)"
proof (cases "p = []")
  case True
  with assms show ?thesis by (auto simp: write_extend_def)
next
  case False
  with assms have "i < max (length xs) (off + length p)" by (simp add: write_extend_def)
  with False show ?thesis by (simp add: write_extend_def nth_overwrite nth_resize)
qed

locale growing_store = read_store +
  fixes write_at :: "'s \<Rightarrow> bytes \<Rightarrow> int \<Rightarrow> (nat \<times> go_error option) \<times> 's"
    and truncate_to :: "'s \<Rightarrow> int \<Rightarrow> go_error option \<times> 's"
  assumes grow_ok: "inv s \<Longrightarrow> write_at s p off = ((n, None), s') \<Longrightarrow>
      inv s' \<and> n = length p \<and> 0 \<le> off \<and> contents s' = write_extend (nat off) p (contents s)"
    and truncate_ok: "inv s \<Longrightarrow> truncate_to s sz = (None, s') \<Longrightarrow>
      inv s' \<and> 0 \<le> sz \<and> contents s' = resize (nat sz) (contents s)"
begin

lemma read_after_grow:
  assumes "inv s" and "write_at s p off = ((n, None), s')" and "p \<noteq> []"
  shows "read_at s' (length p) off = (p, None)"
proof -
  note w = grow_ok [OF assms(1,2)]
  then have "nat off + length p \<le> length (contents s')"
    using assms(3) by (simp add: length_write_extend)
  moreover have "segment (nat off) (length p) (contents s') = p"
    using w assms(3) by (intro segment_eqI) (simp_all add: length_write_extend nth_write_extend)
  ultimately show ?thesis using w by (simp add: read_ok)
qed

text \<open>Writing behind the end leaves a gap of zeros.\<close>

lemma gap_reads_zero:
  assumes "inv s" and "write_at s p off = ((n, None), s')" and "p \<noteq> []"
    and "int (length (contents s)) \<le> off'" and "off' + int m \<le> off"
  shows "read_at s' m off' = (replicate m 0, None)"
proof -
  note w = grow_ok [OF assms(1,2)]
  have le: "nat off' + m \<le> length (contents s')"
    using assms(4,5) w by (simp add: length_write_extend assms(3))
  moreover have "segment (nat off') m (contents s') = replicate m 0"
  proof (rule segment_eqI [OF _ le])
    fix i assume i: "i < m"
    have "nat off' + i < nat off" "length (contents s) \<le> nat off' + i"
      using assms(4,5) i w by linarith+
    then show "replicate m 0 ! i = contents s' ! (nat off' + i)"
      using w i le by (simp add: nth_write_extend)
  qed simp
  moreover have "0 \<le> off'" using assms(4) by linarith
  ultimately show ?thesis using w by (simp add: read_ok)
qed

text \<open>
  Bytes cut off by a truncation never come back: the truncation leaves nothing but zeros from its
  end on, and a zero stays one until a write covers it.
\<close>

lemma truncate_cuts:
  assumes "inv s" and "truncate_to s a = (None, s')" and "nat a \<le> k"
  shows "zero_at k (contents s')"
  using truncate_ok [OF assms(1,2)] assms(3) by (simp add: zero_at_def)

lemma truncate_keeps_zero:
  assumes "inv s" and "truncate_to s sz = (None, s')" and "zero_at k (contents s)"
  shows "zero_at k (contents s')"
  using truncate_ok [OF assms(1,2)] assms(3) by (auto simp: zero_at_def nth_resize)

lemma write_keeps_zero:
  assumes "inv s" and "write_at s p off = ((n, None), s')" and "zero_at k (contents s)"
    and "\<not> (nat off \<le> k \<and> k < nat off + length p)"
  shows "zero_at k (contents s')"
  using grow_ok [OF assms(1,2)] assms(3,4) by (auto simp: zero_at_def nth_write_extend)

lemma zeros_read:
  assumes "inv s" and "0 \<le> off" and "nat off + n \<le> length (contents s)"
    and "\<And>k. nat off \<le> k \<Longrightarrow> k < nat off + n \<Longrightarrow> zero_at k (contents s)"
  shows "read_at s n off = (replicate n 0, None)"
proof -
  have "segment (nat off) n (contents s) = replicate n 0"
    by (rule segment_eqI [OF _ assms(3)]) (use assms(3,4) in \<open>auto simp: zero_at_def\<close>)
  then show ?thesis using read_ok [OF assms(1-3)] by simp
qed

end

end
