(* ===== verification/Block_Device.thy ===== *)
theory Block_Device
  imports Store_Spec
begin

text \<open>
  \<open>src/block/device.go\<close>: geometry, capabilities and extents of a random-access block device, the
  range check every device applies, the loop that completes short reads, and \<open>FileDevice\<close>, the
  device over a file. A device that other layers read through is the record \<open>device\<close> of the
  interface's methods; an optional interface (\<open>Extenter\<close>, \<open>Prefetcher\<close>) is an optional method.
  A file of \<open>FileDevice\<close> is a state \<open>'f\<close> with the methods \<open>'f file_methods\<close>, because writes change
  it.
\<close>

subsection \<open>Data\<close>

record geometry =
  geo_Size :: int
  geo_LogicalBlockSize :: u32
  geo_PhysicalBlockSize :: u32
  geo_MinimumTransfer :: u32
  geo_PreferredTransfer :: u32
  geo_MaximumTransfer :: u32

record capabilities =
  cap_Writable :: bool
  cap_Flush :: bool
  cap_Zero :: bool
  cap_Trim :: bool
  cap_Extents :: bool
  cap_Concurrent :: bool
  cap_Durable :: bool
  cap_Prefetch :: bool

record extent =
  ext_Offset :: int
  ext_Length :: int
  ext_Allocated :: bool

record device =
  dev_ReadAt :: reader_at
  dev_Geometry :: geometry
  dev_Capabilities :: capabilities
  dev_Extents :: "(int \<Rightarrow> int \<Rightarrow> go_error + extent list) option"
  dev_Prefetch :: "(int \<Rightarrow> int \<Rightarrow> go_error option) option"

record 'f file_methods =
  file_ReadAt :: "'f \<Rightarrow> reader_at"
  file_Size :: "'f \<Rightarrow> int"
  file_WriteAt :: "('f \<Rightarrow> bytes \<Rightarrow> int \<Rightarrow> (nat \<times> go_error option) \<times> 'f) option"
  file_Sync :: "('f \<Rightarrow> go_error option \<times> 'f) option"
  file_Extents :: "('f \<Rightarrow> int \<Rightarrow> int \<Rightarrow> go_error + extent list) option"

record file_device_options =
  opt_LogicalBlockSize :: u32
  opt_PhysicalBlockSize :: u32
  opt_Writable :: bool

record 'f file_device =
  fd_file :: 'f
  fd_geometry :: geometry
  fd_writable :: bool
  fd_flushable :: bool

abbreviation no_capabilities :: capabilities where
  "no_capabilities \<equiv> \<lparr>cap_Writable = False, cap_Flush = False, cap_Zero = False,
     cap_Trim = False, cap_Extents = False, cap_Concurrent = False, cap_Durable = False,
     cap_Prefetch = False\<rparr>"

abbreviation DefaultBlockSize :: u32 where "DefaultBlockSize \<equiv> 512"
abbreviation DefaultTransferSize :: u32 where "DefaultTransferSize \<equiv> 65536"
abbreviation DefaultMaxTransferSize :: u32 where "DefaultMaxTransferSize \<equiv> 8388608"

subsection \<open>Range checks and complete reads\<close>

definition ValidateRange :: "int \<Rightarrow> int \<Rightarrow> int \<Rightarrow> go_error option" where
  "ValidateRange sz off len =
     (if sz < 0 \<or> off < 0 \<or> len < 0 \<or> off > sz \<or> len > sz - off
      then Some ErrOutOfRange else None)"

text \<open>
  \<open>ReadFullAt\<close>: the accumulated prefix is the \<open>p[:done]\<close> of the source. A reader that makes no
  progress and reports no error ends the loop with \<open>io.ErrUnexpectedEOF\<close>.
\<close>

function ReadFullAt_loop :: "reader_at \<Rightarrow> nat \<Rightarrow> int \<Rightarrow> bytes \<Rightarrow> read_result" where
  "ReadFullAt_loop reader n off p =
     (if length p < n
      then (case reader (n - length p) (off + int (length p)) of
              (bs, Some e) \<Rightarrow>
                (p @ bs, if e = EOF \<and> length (p @ bs) = n then None else Some e)
            | (bs, None) \<Rightarrow>
                if bs = [] then (p, Some ErrUnexpectedEOF)
                else ReadFullAt_loop reader n off (p @ bs))
      else (p, None))"
  by pat_completeness auto
termination
  by (relation "measure (\<lambda>(reader, n, off, p). n - length p)")
    (auto simp flip: length_greater_0_conv)

declare ReadFullAt_loop.simps [simp del]

definition ReadFullAt :: "reader_at \<Rightarrow> nat \<Rightarrow> int \<Rightarrow> read_result" where
  "ReadFullAt reader n off = ReadFullAt_loop reader n off []"

definition validateBlockSize :: "string \<Rightarrow> u32 \<Rightarrow> go_error option" where
  "validateBlockSize name sz =
     (if sz = 0 \<or> sz AND (sz - 1) \<noteq> 0
      then Some (Errorf (''block: '' @ name @ '' must be a non-zero power of two'')) else None)"

subsection \<open>FileDevice\<close>

text \<open>A nil file is \<^const>\<open>None\<close>; the interface assertions are tests on the optional methods.\<close>

definition NewFileDevice ::
    "'f file_methods \<Rightarrow> 'f option \<Rightarrow> file_device_options \<Rightarrow> go_error + 'f file_device" where
  "NewFileDevice fm file options =
     (case file of
        None \<Rightarrow> Inl (Errorf ''block: nil file'')
      | Some f \<Rightarrow>
        let logical = (if opt_LogicalBlockSize options = 0 then DefaultBlockSize
                       else opt_LogicalBlockSize options);
            physical = (if opt_PhysicalBlockSize options = 0 then logical
                        else opt_PhysicalBlockSize options)
        in case validateBlockSize ''logical block size'' logical of
             Some e \<Rightarrow> Inl e
           | None \<Rightarrow>
        (case validateBlockSize ''physical block size'' physical of
             Some e \<Rightarrow> Inl e
           | None \<Rightarrow>
             if physical < logical \<or> physical mod logical \<noteq> 0
             then Inl (Errorf ''block: physical block size must be a multiple of logical block size'')
             else if file_Size fm f < 0 then Inl (Errorf ''block: file has negative size'')
             else if opt_Writable options \<and> file_WriteAt fm = None
             then Inl (Errorf ''block: writable file does not implement io.WriterAt'')
             else Inr \<lparr>fd_file = f,
               fd_geometry = \<lparr>geo_Size = file_Size fm f, geo_LogicalBlockSize = logical,
                 geo_PhysicalBlockSize = physical, geo_MinimumTransfer = DefaultBlockSize,
                 geo_PreferredTransfer = DefaultTransferSize,
                 geo_MaximumTransfer = DefaultMaxTransferSize\<rparr>,
               fd_writable = opt_Writable options,
               fd_flushable = (file_Sync fm \<noteq> None)\<rparr>))"

definition FileDevice_ReadAt :: "'f file_methods \<Rightarrow> 'f file_device \<Rightarrow> reader_at" where
  "FileDevice_ReadAt fm d n off =
     (case ValidateRange (geo_Size (fd_geometry d)) off (int n) of
        Some e \<Rightarrow> ([], Some e)
      | None \<Rightarrow> ReadFullAt (file_ReadAt fm (fd_file d)) n off)"

text \<open>
  \<open>d.file.(io.WriterAt)\<close> panics for a file without the method; \<open>NewFileDevice\<close> refuses such a
  writable device, and the model returns \<open>ErrUnsupported\<close> there.
\<close>

definition FileDevice_WriteAt ::
    "'f file_methods \<Rightarrow> 'f file_device \<Rightarrow> bytes \<Rightarrow> int \<Rightarrow> (nat \<times> go_error option) \<times> 'f file_device"
where
  "FileDevice_WriteAt fm d p off =
     (if \<not> fd_writable d then ((0, Some ErrReadOnly), d)
      else case ValidateRange (geo_Size (fd_geometry d)) off (int (length p)) of
        Some e \<Rightarrow> ((0, Some e), d)
      | None \<Rightarrow>
        (case file_WriteAt fm of
           None \<Rightarrow> ((0, Some ErrUnsupported), d)
         | Some w \<Rightarrow>
           let ((n, err), f) = w (fd_file d) p off;
               err' = (if err = None \<and> n \<noteq> length p then Some ErrShortWrite else err)
           in ((n, err'), d\<lparr>fd_file := f\<rparr>)))"

definition FileDevice_Flush ::
    "'f file_methods \<Rightarrow> 'f file_device \<Rightarrow> go_error option \<times> 'f file_device" where
  "FileDevice_Flush fm d =
     (if \<not> fd_writable d then (Some ErrReadOnly, d)
      else case file_Sync fm of
        None \<Rightarrow> (Some ErrUnsupported, d)
      | Some sync \<Rightarrow> (let (err, f) = sync (fd_file d) in (err, d\<lparr>fd_file := f\<rparr>)))"

abbreviation zeroChunk :: nat where "zeroChunk \<equiv> 131072"

function FileDevice_ZeroAt_loop ::
    "'f file_methods \<Rightarrow> 'f file_device \<Rightarrow> int \<Rightarrow> int \<Rightarrow> go_error option \<times> 'f file_device" where
  "FileDevice_ZeroAt_loop fm d off len =
     (if len > 0
      then (let chunk = min (int zeroChunk) len in
            case FileDevice_WriteAt fm d (replicate (nat chunk) 0) off of
              ((n, Some e), d') \<Rightarrow> (Some e, d')
            | ((n, None), d') \<Rightarrow>
                if int n \<noteq> chunk then (Some ErrShortWrite, d')
                else FileDevice_ZeroAt_loop fm d' (off + chunk) (len - chunk))
      else (None, d))"
  by pat_completeness auto
termination
  by (relation "measure (\<lambda>(fm, d, off, len). nat len)") auto

declare FileDevice_ZeroAt_loop.simps [simp del]

definition FileDevice_ZeroAt ::
    "'f file_methods \<Rightarrow> 'f file_device \<Rightarrow> int \<Rightarrow> int \<Rightarrow> go_error option \<times> 'f file_device" where
  "FileDevice_ZeroAt fm d off len =
     (if \<not> fd_writable d then (Some ErrReadOnly, d)
      else case ValidateRange (geo_Size (fd_geometry d)) off len of
        Some e \<Rightarrow> (Some e, d)
      | None \<Rightarrow> FileDevice_ZeroAt_loop fm d off len)"

definition FileDevice_Extents ::
    "'f file_methods \<Rightarrow> 'f file_device \<Rightarrow> int \<Rightarrow> int \<Rightarrow> go_error + extent list" where
  "FileDevice_Extents fm d off len =
     (case ValidateRange (geo_Size (fd_geometry d)) off len of
        Some e \<Rightarrow> Inl e
      | None \<Rightarrow>
        (case file_Extents fm of
           Some provider \<Rightarrow> provider (fd_file d) off len
         | None \<Rightarrow> Inr [\<lparr>ext_Offset = off, ext_Length = len, ext_Allocated = True\<rparr>]))"

definition FileDevice_Capabilities :: "'f file_methods \<Rightarrow> 'f file_device \<Rightarrow> capabilities" where
  "FileDevice_Capabilities fm d = no_capabilities
     \<lparr>cap_Writable := fd_writable d, cap_Flush := fd_writable d \<and> fd_flushable d,
      cap_Zero := fd_writable d, cap_Extents := (file_Extents fm \<noteq> None),
      cap_Concurrent := True, cap_Durable := fd_writable d \<and> fd_flushable d\<rparr>"

subsection \<open>Laws of the range check and of complete reads\<close>

lemma ValidateRange_None:
  "ValidateRange sz off len = None \<longleftrightarrow> 0 \<le> off \<and> 0 \<le> len \<and> off + len \<le> sz"
  by (auto simp: ValidateRange_def)

lemma ValidateRange_ok [simp]:
  "0 \<le> off \<Longrightarrow> 0 \<le> len \<Longrightarrow> off + len \<le> sz \<Longrightarrow> ValidateRange sz off len = None"
  by (simp add: ValidateRange_None)

lemma ValidateRange_Some:
  "ValidateRange sz off len = Some e \<longleftrightarrow> e = ErrOutOfRange \<and> \<not> (0 \<le> off \<and> 0 \<le> len \<and> off + len \<le> sz)"
  by (auto simp: ValidateRange_def)

text \<open>
  What the layers above rely on of an \<open>io.ReaderAt\<close> over the bytes \<open>c\<close>: an in-range request makes
  progress, returns bytes of \<open>c\<close> in order, and reports at most \<open>io.EOF\<close>, and that only when it
  filled the buffer. Short reads are allowed.
\<close>

definition serves :: "reader_at \<Rightarrow> bytes \<Rightarrow> bool" where
  "serves reader c \<longleftrightarrow>
     (\<forall>n off. 0 < n \<longrightarrow> 0 \<le> off \<longrightarrow> nat off + n \<le> length c \<longrightarrow>
        (\<exists>k>0. k \<le> n \<and> fst (reader n off) = segment (nat off) k c \<and>
           (snd (reader n off) = None \<or> snd (reader n off) = Some EOF \<and> k = n)))"

lemma servesE:
  assumes "serves reader c" and "0 < n" and "nat off + n \<le> length c" and "0 \<le> off"
  obtains k err where "0 < k" and "k \<le> n" and "reader n off = (segment (nat off) k c, err)"
    and "err = None \<or> err = Some EOF \<and> k = n"
  using assms unfolding serves_def by (metis prod.collapse)

text \<open>A reader that always fills the buffer and reports no error serves its bytes.\<close>

lemma serves_exact:
  assumes "\<And>n off. 0 < n \<Longrightarrow> 0 \<le> off \<Longrightarrow> nat off + n \<le> length c \<Longrightarrow>
    reader n off = (segment (nat off) n c, None)"
  shows "serves reader c"
  unfolding serves_def using assms by auto

lemma ReadFullAt_loop_serves:
  assumes "serves reader c" and "0 \<le> off" and "nat off + n \<le> length c"
    and "m \<le> n"
  shows "ReadFullAt_loop reader n off (segment (nat off) m c) = (segment (nat off) n c, None)"
  using assms(4)
proof (induction "n - m" arbitrary: m rule: less_induct)
  case less
  have len: "length (segment (nat off) m c) = m" using assms(3) less.prems by simp
  show ?case
  proof (cases "m < n")
    case False
    with less.prems have "m = n" by simp
    then show ?thesis using len by (simp add: ReadFullAt_loop.simps)
  next
    case True
    have nat_off: "nat (off + int m) = nat off + m" using assms(2) by (simp add: nat_add_distrib)
    obtain k err where k: "0 < k" "k \<le> n - m"
      and rd: "reader (n - m) (off + int m) = (segment (nat off + m) k c, err)"
      and err: "err = None \<or> err = Some EOF \<and> k = n - m"
      using servesE [OF assms(1), of "n - m" "off + int m"] True assms(2,3) nat_off by auto
    have app: "segment (nat off) m c @ segment (nat off + m) k c = segment (nat off) (m + k) c"
      by (simp add: segment_add)
    have ne: "segment (nat off + m) k c \<noteq> []"
      using k assms(3) True by (simp flip: length_greater_0_conv)
    from err show ?thesis
    proof
      assume "err = None"
      then have "ReadFullAt_loop reader n off (segment (nat off) m c)
          = ReadFullAt_loop reader n off (segment (nat off) (m + k) c)"
        using True rd len ne by (simp add: ReadFullAt_loop.simps [of _ _ _ "segment (nat off) m c"] app)
      then show ?thesis using less.hyps [of "m + k"] k True by simp
    next
      assume "err = Some EOF \<and> k = n - m"
      then show ?thesis
        using True rd len assms(3) segment_split [of m n "nat off" c]
        by (simp add: ReadFullAt_loop.simps [of _ _ _ "segment (nat off) m c"])
    qed
  qed
qed

lemma ReadFullAt_serves:
  "serves reader c \<Longrightarrow> 0 \<le> off \<Longrightarrow> nat off + n \<le> length c \<Longrightarrow>
   ReadFullAt reader n off = (segment (nat off) n c, None)"
  using ReadFullAt_loop_serves [of reader c off n 0] by (simp add: ReadFullAt_def)

text \<open>A nil error means the whole buffer was filled, whatever the reader does.\<close>

lemma ReadFullAt_loop_full:
  assumes "\<And>n off. length (fst (reader n off)) \<le> n" and "length p \<le> n"
    and "ReadFullAt_loop reader n off p = (bs, err)"
  shows "length bs \<le> n \<and> (err = None \<longrightarrow> length bs = n)"
  using assms
proof (induction reader n off p rule: ReadFullAt_loop.induct)
  case (1 reader n off p)
  obtain cs e where rd: "reader (n - length p) (off + int (length p)) = (cs, e)"
    by (metis surj_pair)
  have cs: "length cs \<le> n - length p"
    using "1.prems"(1) [of "n - length p" "off + int (length p)"] rd by simp
  show ?case
  proof (cases "length p < n \<and> e = None \<and> cs \<noteq> []")
    case True
    with "1.prems"(3) rd have "ReadFullAt_loop reader n off (p @ cs) = (bs, err)"
      by (simp add: ReadFullAt_loop.simps [of _ _ _ p])
    moreover have "length (p @ cs) \<le> n" using cs "1.prems"(2) by simp
    ultimately show ?thesis using "1.IH" [OF _ rd [symmetric]] True "1.prems"(1) by simp
  next
    case False
    then show ?thesis
      using "1.prems"(2,3) rd cs
      by (auto simp: ReadFullAt_loop.simps [of _ _ _ p] split: option.splits if_splits)
  qed
qed

lemma ReadFullAt_full:
  assumes "\<And>n off. length (fst (reader n off)) \<le> n" and "ReadFullAt reader n off = (bs, err)"
  shows "length bs \<le> n \<and> (err = None \<longrightarrow> length bs = n)"
  using ReadFullAt_loop_full [of reader "[]" n off bs err] assms by (simp add: ReadFullAt_def)

subsection \<open>Block sizes are powers of two\<close>

lemma nat_and_pred_eq_0:
  "0 < x \<Longrightarrow> x AND (x - 1) = (0::nat) \<longleftrightarrow> (\<exists>k. x = 2 ^ k)"
proof (induction x rule: less_induct)
  case (less x)
  show ?case
  proof (cases "even x")
    case True
    then obtain m where m: "x = 2 * m" by (elim evenE)
    with less.prems have m0: "0 < m" by simp
    have "x - 1 = 2 * (m - 1) + 1" using m m0 by simp
    then have "x AND (x - 1) = 2 * (m AND (m - 1))"
      using m by (simp add: and_nat_rec [of "2 * m"])
    moreover have "(\<exists>k. x = 2 ^ k) \<longleftrightarrow> (\<exists>k. m = 2 ^ k)"
    proof
      assume "\<exists>k. x = 2 ^ k"
      then obtain k where "x = 2 ^ k" ..
      with m show "\<exists>k. m = 2 ^ k" by (cases k) auto
    next
      assume "\<exists>k. m = 2 ^ k"
      with m show "\<exists>k. x = 2 ^ k" by (metis power_Suc)
    qed
    ultimately show ?thesis using less.IH [of m] m m0 by simp
  next
    case False
    then obtain m where m: "x = 2 * m + 1" by (elim oddE)
    have "x AND (x - 1) = 2 * m" 
      using m by (simp add: and_nat_rec [of "Suc (2 * m)"])
    moreover have "(\<exists>k. x = 2 ^ k) \<longleftrightarrow> m = 0"
    proof
      assume "\<exists>k. x = 2 ^ k"
      then obtain k where k: "x = 2 ^ k" ..
      with False have "k = 0" by (cases k) auto
      with k m show "m = 0" by simp
    next
      assume "m = 0"
      with m show "\<exists>k. x = 2 ^ k" by (metis add_0 mult_0_right power_0)
    qed
    ultimately show ?thesis by simp
  qed
qed

lemma validateBlockSize_None:
  "validateBlockSize name sz = None \<longleftrightarrow> (\<exists>k. unat sz = 2 ^ k)"
proof (cases "sz = 0")
  case True
  then show ?thesis by (simp add: validateBlockSize_def)
next
  case False
  then have pos: "0 < unat sz" by (simp add: unat_gt_0)
  have "unat (sz - 1) = unat sz - 1" using False by (simp add: unat_minus_one)
  then have "sz AND (sz - 1) = 0 \<longleftrightarrow> unat sz AND (unat sz - 1) = 0"
    by (metis unsigned_and_eq unsigned_eq_0_iff)
  with False nat_and_pred_eq_0 [OF pos] show ?thesis by (simp add: validateBlockSize_def)
qed

subsection \<open>FileDevice: construction, reading, writing\<close>

text \<open>Every constructed device has a usable geometry.\<close>

definition geometry_ok :: "geometry \<Rightarrow> bool" where
  "geometry_ok g \<longleftrightarrow> 0 \<le> geo_Size g \<and>
     (\<exists>j k. unat (geo_LogicalBlockSize g) = 2 ^ j \<and> unat (geo_PhysicalBlockSize g) = 2 ^ k \<and> j \<le> k)"

lemma NewFileDevice_geometry:
  assumes "NewFileDevice fm file options = Inr d"
  shows "geometry_ok (fd_geometry d)"
proof -
  from assms obtain f where
    sz: "0 \<le> geo_Size (fd_geometry d)"
    and l: "validateBlockSize ''logical block size'' (geo_LogicalBlockSize (fd_geometry d)) = None"
    and p: "validateBlockSize ''physical block size'' (geo_PhysicalBlockSize (fd_geometry d)) = None"
    and le: "geo_LogicalBlockSize (fd_geometry d) \<le> geo_PhysicalBlockSize (fd_geometry d)"
    by (auto simp: NewFileDevice_def Let_def not_less split: option.splits if_splits)
  from l p obtain j k where jk: "unat (geo_LogicalBlockSize (fd_geometry d)) = 2 ^ j"
    "unat (geo_PhysicalBlockSize (fd_geometry d)) = 2 ^ k"
    by (auto simp: validateBlockSize_None)
  have "(2::nat) ^ j \<le> 2 ^ k" using le jk by (simp add: word_le_nat_alt)
  then have "j \<le> k" by simp
  with sz jk show ?thesis unfolding geometry_ok_def by blast
qed

text \<open>
  The contract of the file below a \<open>FileDevice\<close>: its size is stable and equals the number of its
  bytes, its reader serves them, and a complete write replaces the addressed bytes. Which bytes a
  file holds is the parameter \<open>bytes_of\<close>.
\<close>

definition file_ok :: "'f file_methods \<Rightarrow> ('f \<Rightarrow> bytes) \<Rightarrow> 'f \<Rightarrow> bool" where
  "file_ok fm bytes_of f \<longleftrightarrow>
     file_Size fm f = int (length (bytes_of f)) \<and> serves (file_ReadAt fm f) (bytes_of f)"

definition writer_ok :: "'f file_methods \<Rightarrow> ('f \<Rightarrow> bytes) \<Rightarrow> bool" where
  "writer_ok fm bytes_of \<longleftrightarrow>
     (case file_WriteAt fm of
        None \<Rightarrow> True
      | Some w \<Rightarrow>
        (\<forall>f p off f'. file_ok fm bytes_of f \<longrightarrow> 0 \<le> off \<longrightarrow> nat off + length p \<le> length (bytes_of f) \<longrightarrow>
           w f p off = ((length p, None), f') \<longrightarrow>
           file_ok fm bytes_of f' \<and> bytes_of f' = overwrite (nat off) p (bytes_of f)))"

lemma writer_okD:
  assumes "writer_ok fm bytes_of" and "file_WriteAt fm = Some w" and "file_ok fm bytes_of f"
    and "0 \<le> off" and "nat off + length p \<le> length (bytes_of f)"
    and "w f p off = ((length p, None), f')"
  shows "file_ok fm bytes_of f' \<and> bytes_of f' = overwrite (nat off) p (bytes_of f)"
proof -
  have "\<forall>f p off f'. file_ok fm bytes_of f \<longrightarrow> 0 \<le> off \<longrightarrow>
      nat off + length p \<le> length (bytes_of f) \<longrightarrow> w f p off = ((length p, None), f') \<longrightarrow>
      file_ok fm bytes_of f' \<and> bytes_of f' = overwrite (nat off) p (bytes_of f)"
    using assms(1) unfolding writer_ok_def assms(2) option.case .
  with assms(3-6) show ?thesis by blast
qed

text \<open>
  A device together with its file's methods and the bytes they expose: the state the storage
  contract is stated over.
\<close>

record 'f opened_device =
  od_methods :: "'f file_methods"
  od_bytes_of :: "'f \<Rightarrow> bytes"
  od_device :: "'f file_device"

definition opened_inv :: "'f opened_device \<Rightarrow> bool" where
  "opened_inv s \<longleftrightarrow>
     file_ok (od_methods s) (od_bytes_of s) (fd_file (od_device s)) \<and>
     writer_ok (od_methods s) (od_bytes_of s) \<and>
     geo_Size (fd_geometry (od_device s)) = file_Size (od_methods s) (fd_file (od_device s))"

definition opened_contents :: "'f opened_device \<Rightarrow> bytes" where
  "opened_contents s = od_bytes_of s (fd_file (od_device s))"

definition opened_read :: "'f opened_device \<Rightarrow> reader_at" where
  "opened_read s = FileDevice_ReadAt (od_methods s) (od_device s)"

definition opened_write ::
    "'f opened_device \<Rightarrow> bytes \<Rightarrow> int \<Rightarrow> (nat \<times> go_error option) \<times> 'f opened_device" where
  "opened_write s p off =
     (let (r, d) = FileDevice_WriteAt (od_methods s) (od_device s) p off
      in (r, s\<lparr>od_device := d\<rparr>))"

lemma opened_read_ok:
  assumes "opened_inv s" and "0 \<le> off" and "nat off + n \<le> length (opened_contents s)"
  shows "opened_read s n off = (segment (nat off) n (opened_contents s), None)"
proof -
  from assms have "off + int n \<le> geo_Size (fd_geometry (od_device s))"
    by (auto simp: opened_inv_def file_ok_def opened_contents_def)
  then show ?thesis using assms
    by (simp add: opened_read_def FileDevice_ReadAt_def opened_contents_def opened_inv_def
        file_ok_def ReadFullAt_serves)
qed

lemma opened_write_ok:
  assumes inv: "opened_inv s" and w: "opened_write s p off = ((n, None), s')"
  shows "opened_inv s' \<and> n = length p \<and> 0 \<le> off \<and>
    nat off + length p \<le> length (opened_contents s) \<and>
    opened_contents s' = overwrite (nat off) p (opened_contents s)"
proof -
  let ?d = "od_device s"
  from w obtain wr f where wr: "file_WriteAt (od_methods s) = Some wr"
    and range: "0 \<le> off" "off + int (length p) \<le> geo_Size (fd_geometry ?d)"
    and step: "wr (fd_file ?d) p off = ((length p, None), f)"
    and n: "n = length p" and s': "s' = s\<lparr>od_device := ?d\<lparr>fd_file := f\<rparr>\<rparr>"
    by (auto simp: opened_write_def FileDevice_WriteAt_def Let_def
        ValidateRange_None split: if_splits option.splits prod.splits)
  from inv have ok: "file_ok (od_methods s) (od_bytes_of s) (fd_file ?d)"
    and sz: "geo_Size (fd_geometry ?d) = int (length (opened_contents s))"
    by (auto simp: opened_inv_def file_ok_def opened_contents_def)
  with range have range': "nat off + length p \<le> length (opened_contents s)" by simp
  have f: "file_ok (od_methods s) (od_bytes_of s) f \<and>
      od_bytes_of s f = overwrite (nat off) p (opened_contents s)"
    using writer_okD [OF _ wr ok range(1) _ step] inv range'
    by (simp add: opened_inv_def opened_contents_def)
  have c: "opened_contents s' = overwrite (nat off) p (opened_contents s)"
    using f by (simp add: s' opened_contents_def [of "s\<lparr>od_device := _\<rparr>"])
  have "file_Size (od_methods s) f = int (length (opened_contents s))"
    using f range' unfolding file_ok_def by simp
  with sz f inv have "opened_inv s'" by (simp add: s' opened_inv_def)
  with c n range range' show ?thesis by blast
qed

interpretation file_device: write_store opened_inv opened_contents opened_read opened_write
  by unfold_locales (auto simp: opened_read_ok dest: opened_write_ok)

lemma opened_device_id: "od_device s = d \<Longrightarrow> s\<lparr>od_device := d\<rparr> = s"
  by (cases s) simp

lemma ZeroAt_loop_ok:
  assumes "opened_inv s" and "od_device s = d" and "od_methods s = fm"
    and "FileDevice_ZeroAt_loop fm d off len = (None, d')"
    and "0 \<le> off" and "off + len \<le> int (length (opened_contents s))"
  shows "opened_inv (s\<lparr>od_device := d'\<rparr>) \<and> opened_contents (s\<lparr>od_device := d'\<rparr>)
    = overwrite (nat off) (replicate (nat len) 0) (opened_contents s)"
  using assms
proof (induction fm d off len arbitrary: s rule: FileDevice_ZeroAt_loop.induct)
  case (1 fm d off len)
  show ?case
  proof (cases "len > 0")
    case False
    with "1.prems" have "d' = d" by (simp add: FileDevice_ZeroAt_loop.simps)
    with False "1.prems" show ?thesis by (simp add: opened_device_id)
  next
    case True
    define chunk where "chunk = min 131072 len"
    have chunk': "chunk = min (int zeroChunk) len" by (simp add: chunk_def)
    have chunk: "0 < chunk" "chunk \<le> len" using True by (auto simp: chunk_def)
    let ?z = "replicate (nat chunk) (0 :: byte)"
    obtain d1 where w: "FileDevice_WriteAt fm d ?z off = ((nat chunk, None), d1)"
      and rest: "FileDevice_ZeroAt_loop fm d1 (off + chunk) (len - chunk) = (None, d')"
      using "1.prems"(4) True
      by (auto simp: FileDevice_ZeroAt_loop.simps [of fm d] Let_def simp flip: chunk_def
          split: prod.splits option.splits if_splits)
    let ?s1 = "s\<lparr>od_device := d1\<rparr>"
    from w "1.prems"(2,3) have ow: "opened_write s ?z off = ((nat chunk, None), ?s1)"
      by (simp add: opened_write_def)
    note o = opened_write_ok [OF "1.prems"(1) ow]
    have nz: "nat (off + chunk) = nat off + nat chunk" "nat len = nat chunk + nat (len - chunk)"
      using "1.prems"(5) chunk by (simp_all add: nat_add_distrib nat_diff_distrib)
    have "opened_inv (?s1\<lparr>od_device := d'\<rparr>) \<and> opened_contents (?s1\<lparr>od_device := d'\<rparr>)
      = overwrite (nat (off + chunk)) (replicate (nat (len - chunk)) 0) (opened_contents ?s1)"
    proof (rule "1.IH" [OF True chunk' w [symmetric]])
    qed (use o rest chunk "1.prems" in auto)
    moreover have "nat off + nat len \<le> length (opened_contents s)" using "1.prems"(5,6) True by linarith
    ultimately show ?thesis
      using o nz overwrite_append [of "nat off" ?z "replicate (nat (len - chunk)) 0"]
      by (simp add: replicate_add)
  qed
qed
lemma FileDevice_ZeroAt_ok:
  assumes "opened_inv s" and "FileDevice_ZeroAt (od_methods s) (od_device s) off len = (None, d')"
  shows "fd_writable (od_device s) \<and> 0 \<le> off \<and> 0 \<le> len \<and>
    off + len \<le> int (length (opened_contents s)) \<and>
    opened_inv (s\<lparr>od_device := d'\<rparr>) \<and> opened_contents (s\<lparr>od_device := d'\<rparr>)
    = overwrite (nat off) (replicate (nat len) 0) (opened_contents s)"
proof -
  have sz: "geo_Size (fd_geometry (od_device s)) = int (length (opened_contents s))"
    using assms(1) by (simp add: opened_inv_def file_ok_def opened_contents_def)
  from assms(2) have r: "fd_writable (od_device s)" "0 \<le> off" "0 \<le> len"
      "off + len \<le> int (length (opened_contents s))"
      "FileDevice_ZeroAt_loop (od_methods s) (od_device s) off len = (None, d')"
    by (auto simp: FileDevice_ZeroAt_def ValidateRange_None sz split: if_splits option.splits)
  from ZeroAt_loop_ok [OF assms(1) refl refl r(5,2,4)] r(1-4) show ?thesis by blast
qed

subsection \<open>The base of a layered device\<close>

text \<open>
  The bytes of a device, as read through it, and the contract a layer has with the device below:
  the device has as many bytes as its geometry says and serves every in-range read from them.
\<close>

definition base_bytes :: "device \<Rightarrow> bytes" where
  "base_bytes base = fst (ReadFullAt (dev_ReadAt base) (nat (geo_Size (dev_Geometry base))) 0)"

definition device_faithful :: "device \<Rightarrow> bool" where
  "device_faithful base \<longleftrightarrow> 0 \<le> geo_Size (dev_Geometry base) \<and>
     length (base_bytes base) = nat (geo_Size (dev_Geometry base)) \<and>
     serves (dev_ReadAt base) (base_bytes base)"

lemma serves_faithful:
  assumes "serves (dev_ReadAt base) c" and "geo_Size (dev_Geometry base) = int (length c)"
  shows "base_bytes base = c \<and> device_faithful base"
  using assms ReadFullAt_serves [of "dev_ReadAt base" c 0 "length c"]
  by (simp add: base_bytes_def device_faithful_def)

lemma device_faithful_read:
  assumes "device_faithful base" and "off + n \<le> nat (geo_Size (dev_Geometry base))"
  shows "ReadFullAt (dev_ReadAt base) n (int off) = (segment off n (base_bytes base), None)"
  using assms ReadFullAt_serves [of "dev_ReadAt base" "base_bytes base" "int off" n]
  by (simp add: device_faithful_def)

subsection \<open>Properties\<close>

text \<open>A file that is a byte string: the concrete file of the witnesses.\<close>

definition bytes_file :: "bytes file_methods" where
  "bytes_file =
     \<lparr>file_ReadAt = (\<lambda>f n off. if 0 \<le> off \<and> nat off + n \<le> length f
                             then (segment (nat off) n f, None) else ([], Some EOF)),
      file_Size = (\<lambda>f. int (length f)),
      file_WriteAt = Some (\<lambda>f p off. if 0 \<le> off \<and> nat off + length p \<le> length f
                             then ((length p, None), overwrite (nat off) p f)
                             else ((0, Some ErrOutOfRange), f)),
      file_Sync = Some (\<lambda>f. (None, f)), file_Extents = None\<rparr>"

lemma bytes_file_ok [simp]: "file_ok bytes_file id f" "writer_ok bytes_file id"
  by (auto simp: file_ok_def writer_ok_def bytes_file_def intro: serves_exact)

definition bytes_opened :: "bytes \<Rightarrow> bool \<Rightarrow> bytes opened_device" where
  "bytes_opened f writable =
     \<lparr>od_methods = bytes_file, od_bytes_of = id,
      od_device = (case NewFileDevice bytes_file (Some f)
                     \<lparr>opt_LogicalBlockSize = 0, opt_PhysicalBlockSize = 4096, opt_Writable = writable\<rparr>
                   of Inr d \<Rightarrow> d)\<rparr>"

lemma bytes_opened_inv [simp]: "opened_inv (bytes_opened f w)"
  and bytes_opened_contents [simp]: "opened_contents (bytes_opened f w) = f"
  by (simp_all add: bytes_opened_def opened_inv_def opened_contents_def NewFileDevice_def Let_def
      validateBlockSize_def) (simp_all add: bytes_file_def)

text \<open>
  C1. A successful \<open>FileDevice.WriteAt\<close> is read back exactly, and no byte outside the written range
  changes: a later \<open>ReadAt\<close> of the range returns the payload, and one of any disjoint range returns
  what it returned before.
\<close>

theorem FileDevice_read_after_write:
  assumes "opened_inv s" and "opened_write s p off = ((n, None), s')"
  shows "n = length p \<and> opened_read s' (length p) off = (p, None) \<and>
    (\<forall>off' m. 0 \<le> off' \<and> nat off' + m \<le> length (opened_contents s) \<and>
       (nat off' + m \<le> nat off \<or> nat off + length p \<le> nat off') \<longrightarrow>
       opened_read s' m off' = opened_read s m off')"
  using file_device.read_own_write [OF assms] file_device.read_other_bytes [OF assms]
    file_device.write_ok [OF assms] by blast

theorem FileDevice_read_after_write_witness:
  "opened_read (snd (opened_write (bytes_opened [1,2,3,4] True) [9,8] 1)) 2 1 = ([9,8], None)"
proof -
  have "opened_write (bytes_opened [1,2,3,4] True) [9,8] 1
      = ((2, None), snd (opened_write (bytes_opened [1,2,3,4] True) [9,8] 1))"
    by (simp add: opened_write_def bytes_opened_def NewFileDevice_def Let_def validateBlockSize_def
        FileDevice_WriteAt_def ValidateRange_def) (simp add: bytes_file_def)
  from FileDevice_read_after_write [OF bytes_opened_inv this] show ?thesis
    by (simp add: numeral_2_eq_2)
qed

text \<open>
  C2. When \<open>FileDevice.ZeroAt\<close> returns nil, the device was writable, the range was inside it, and
  exactly the bytes of the range are zero now; the loop over 128 KiB chunks leaves no gap and does not
  run over.
\<close>

theorem FileDevice_ZeroAt_clears:
  assumes "opened_inv s" and "FileDevice_ZeroAt (od_methods s) (od_device s) off len = (None, d')"
  shows "fd_writable (od_device s) \<and> 0 \<le> off \<and> 0 \<le> len \<and>
    off + len \<le> int (length (opened_contents s)) \<and>
    opened_contents (s\<lparr>od_device := d'\<rparr>)
      = overwrite (nat off) (replicate (nat len) 0) (opened_contents s)"
  using FileDevice_ZeroAt_ok [OF assms] by blast

theorem FileDevice_ZeroAt_clears_witness:
  "opened_contents ((bytes_opened [1,2,3,4] True)
      \<lparr>od_device := snd (FileDevice_ZeroAt bytes_file (od_device (bytes_opened [1,2,3,4] True)) 1 2)\<rparr>)
    = [1,0,0,4]"
proof -
  have "FileDevice_ZeroAt (od_methods (bytes_opened [1,2,3,4] True)) (od_device (bytes_opened [1,2,3,4] True)) 1 2
      = (None, snd (FileDevice_ZeroAt bytes_file (od_device (bytes_opened [1,2,3,4] True)) 1 2))"
    by (simp add: bytes_opened_def NewFileDevice_def Let_def validateBlockSize_def
        FileDevice_ZeroAt_def ValidateRange_def FileDevice_ZeroAt_loop.simps [of _ _ 1 2]
        FileDevice_ZeroAt_loop.simps [of _ _ 3 0] FileDevice_WriteAt_def)
      (simp add: bytes_file_def FileDevice_ZeroAt_loop.simps [of _ _ 3 0])
  from FileDevice_ZeroAt_clears [OF bytes_opened_inv this] show ?thesis
    by (simp add: overwrite_def numeral_eq_Suc)
qed

text \<open>
  C3. Every device \<open>NewFileDevice\<close> accepts has a usable geometry: a size that is not negative, and
  power-of-two block sizes of which the physical one is a multiple of the logical one.
\<close>

theorem NewFileDevice_geometry_ok:
  assumes "NewFileDevice fm file options = Inr d"
  shows "0 \<le> geo_Size (fd_geometry d) \<and>
    (\<exists>j k. unat (geo_LogicalBlockSize (fd_geometry d)) = 2 ^ j \<and>
           unat (geo_PhysicalBlockSize (fd_geometry d)) = 2 ^ (j + k))"
proof -
  from NewFileDevice_geometry [OF assms] obtain j k where "0 \<le> geo_Size (fd_geometry d)"
    "unat (geo_LogicalBlockSize (fd_geometry d)) = 2 ^ j"
    "unat (geo_PhysicalBlockSize (fd_geometry d)) = 2 ^ k" "j \<le> k"
    unfolding geometry_ok_def by blast
  then show ?thesis by (metis le_add_diff_inverse)
qed

theorem NewFileDevice_geometry_ok_witness:
  "0 \<le> geo_Size (fd_geometry (od_device (bytes_opened [1,2,3,4] True)))"
proof -
  have "NewFileDevice bytes_file (Some [1,2,3,4])
      \<lparr>opt_LogicalBlockSize = 0, opt_PhysicalBlockSize = 4096, opt_Writable = True\<rparr>
      = Inr (od_device (bytes_opened [1,2,3,4] True))"
    by (simp add: bytes_opened_def NewFileDevice_def Let_def validateBlockSize_def bytes_file_def)
  from NewFileDevice_geometry_ok [OF this] show ?thesis by simp
qed

text \<open>The base device of the witnesses of the layers above: a byte string without optional methods.\<close>

definition bytes_device :: "bytes \<Rightarrow> device" where
  "bytes_device c =
     \<lparr>dev_ReadAt = file_ReadAt bytes_file c,
      dev_Geometry = \<lparr>geo_Size = int (length c), geo_LogicalBlockSize = 1, geo_PhysicalBlockSize = 1,
        geo_MinimumTransfer = 1, geo_PreferredTransfer = 1, geo_MaximumTransfer = 1\<rparr>,
      dev_Capabilities = no_capabilities, dev_Extents = None, dev_Prefetch = None\<rparr>"

lemma bytes_device_ok [simp]: "device_faithful (bytes_device c)" "base_bytes (bytes_device c) = c"
proof -
  have "serves (dev_ReadAt (bytes_device c)) c"
    by (auto simp: bytes_device_def bytes_file_def intro: serves_exact)
  from serves_faithful [OF this] show "device_faithful (bytes_device c)" "base_bytes (bytes_device c) = c"
    by (simp_all add: bytes_device_def)
qed

lemma bytes_device_size [simp]: "geo_Size (dev_Geometry (bytes_device c)) = int (length c)"
  by (simp add: bytes_device_def)

end
