(* ===== verification/Overlay.thy ===== *)
theory Overlay
  imports Block_Device
begin

text \<open>
  \<open>src/block/star/overlay.go\<close>: the copy-on-write overlay over an immutable base device. The chunk
  map \<open>map[int64]*overlayChunk\<close> is an association list from chunk index to chunk with distinct
  keys; no operation depends on the order of its entries, because the source sorts the keys where
  an order is visible. A chunk's bytes are never changed in place (every update installs a fresh
  chunk), so sharing them with a snapshot is faithfully modelled by value. The mutexes make each
  operation one atomic step; the \<open>uint64\<close> counters are words.
\<close>

subsection \<open>State\<close>

record overlayChunk =
  oc_data :: bytes
  oc_generation :: u64

record blockOverlayOperation =
  op_sequence :: u64
  op_kind :: string
  op_offset :: int
  op_length :: int

record overlayBlockDevice =
  ov_base :: device
  ov_maxDirty :: int
  ov_chunkSize :: nat
  ov_chunks :: "(nat \<times> overlayChunk) list"
  ov_dirtyBytes :: int
  ov_generation :: u64
  ov_sealed :: bool
  ov_leases :: int
  ov_reads :: u64
  ov_writes :: u64
  ov_readBytes :: u64
  ov_writeBytes :: u64
  ov_snapshots :: u64
  ov_cowBytes :: u64
  ov_traceLimit :: nat
  ov_traceNext :: u64
  ov_trace :: "blockOverlayOperation list"

record overlaySnapshot =
  sn_base :: device
  sn_chunkSize :: nat
  sn_chunks :: "(nat \<times> bytes) list"

abbreviation ov_size :: "overlayBlockDevice \<Rightarrow> nat" where
  "ov_size d \<equiv> nat (geo_Size (dev_Geometry (ov_base d)))"

subsection \<open>Construction\<close>

text \<open>A zero logical block size makes \<open>chunkSize % logical\<close> panic.\<close>

definition newOverlayBlockDevice :: "device \<Rightarrow> int \<Rightarrow> int \<Rightarrow> go_error + overlayBlockDevice" where
  "newOverlayBlockDevice base maxDirty chunkSize =
     (if maxDirty \<le> 0 \<or> chunkSize \<le> 0
      then Inl (Errorf ''block.overlay: max_dirty_bytes and chunk_size must be positive'')
      else if chunkSize > maxDirty
      then Inl (Errorf ''block.overlay: chunk_size exceeds max_dirty_bytes'')
      else let logical = uint (geo_LogicalBlockSize (dev_Geometry base)) in
        if logical = 0 then Inl (Panic ''integer divide by zero'')
        else if chunkSize mod logical \<noteq> 0
        then Inl (Errorf ''block.overlay: chunk_size must be a multiple of the logical block size'')
        else Inr \<lparr>ov_base = base, ov_maxDirty = maxDirty, ov_chunkSize = nat chunkSize,
          ov_chunks = [], ov_dirtyBytes = 0, ov_generation = 1, ov_sealed = False, ov_leases = 0,
          ov_reads = 0, ov_writes = 0, ov_readBytes = 0, ov_writeBytes = 0, ov_snapshots = 0,
          ov_cowBytes = 0, ov_traceLimit = 0, ov_traceNext = 0, ov_trace = []\<rparr>)"

text \<open>The \<open>overlay\<close> builtin after its arguments are unpacked.\<close>

definition blockOverlay :: "device \<Rightarrow> int \<Rightarrow> int \<Rightarrow> int \<Rightarrow> go_error + overlayBlockDevice" where
  "blockOverlay base maxDirty chunkSize traceOperations =
     (case newOverlayBlockDevice base maxDirty chunkSize of
        Inl e \<Rightarrow> Inl e
      | Inr d \<Rightarrow>
        if traceOperations < 0 \<or> traceOperations > 65536
        then Inl (Errorf ''overlay: trace_operations must be between 0 and 65536'')
        else Inr (d\<lparr>ov_traceLimit := nat traceOperations\<rparr>))"

definition overlay_Capabilities :: "overlayBlockDevice \<Rightarrow> capabilities" where
  "overlay_Capabilities d = no_capabilities
     \<lparr>cap_Writable := True, cap_Flush := True, cap_Zero := True, cap_Extents := True,
      cap_Concurrent := True, cap_Prefetch := cap_Prefetch (dev_Capabilities (ov_base d))\<rparr>"

definition overlay_Prefetch :: "overlayBlockDevice \<Rightarrow> int \<Rightarrow> int \<Rightarrow> go_error option" where
  "overlay_Prefetch d off len =
     (case dev_Prefetch (ov_base d) of
        None \<Rightarrow> Some ErrUnsupported
      | Some prefetch \<Rightarrow>
          if \<not> cap_Prefetch (dev_Capabilities (ov_base d)) then Some ErrUnsupported
          else prefetch off len)"

subsection \<open>Reading\<close>

definition chunkLength :: "overlayBlockDevice \<Rightarrow> nat \<Rightarrow> nat" where
  "chunkLength d index =
     (let off = index * ov_chunkSize d; remaining = ov_size d - off
      in if remaining < ov_chunkSize d then remaining else ov_chunkSize d)"

definition recordOperation :: "string \<Rightarrow> int \<Rightarrow> int \<Rightarrow> overlayBlockDevice \<Rightarrow> overlayBlockDevice" where
  "recordOperation kind offset len d =
     (if ov_traceLimit d = 0 then d
      else let operation = \<lparr>op_sequence = ov_traceNext d + 1, op_kind = kind,
                            op_offset = offset, op_length = len\<rparr>
           in d\<lparr>ov_traceNext := ov_traceNext d + 1,
                ov_trace := (if length (ov_trace d) < ov_traceLimit d
                             then ov_trace d @ [operation]
                             else tl (ov_trace d) @ [operation])\<rparr>)"

text \<open>
  The loop of \<open>ReadAt\<close>: \<open>k\<close> is \<open>done\<close> and \<open>p\<close> the filled prefix of the buffer.
\<close>

function overlay_read_loop ::
    "overlayBlockDevice \<Rightarrow> nat \<Rightarrow> nat \<Rightarrow> nat \<Rightarrow> bytes \<Rightarrow> read_result" where
  "overlay_read_loop d n off k p =
     (if k < n
      then (let absolute = off + k;
                index = absolute div ov_chunkSize d;
                within = absolute mod ov_chunkSize d;
                count = min (n - k) (chunkLength d index - within)
            in if count = 0 then (p, Some ErrUnexpectedEOF)
               else case map_of (ov_chunks d) index of
                      Some chunk \<Rightarrow>
                        overlay_read_loop d n off (k + count) (p @ segment within count (oc_data chunk))
                    | None \<Rightarrow>
                        (case ReadFullAt (dev_ReadAt (ov_base d)) count (int absolute) of
                           (bs, Some e) \<Rightarrow> (p, Some e)
                         | (bs, None) \<Rightarrow> overlay_read_loop d n off (k + count) (p @ bs)))
      else (p, None))"
  by pat_completeness auto
termination
  by (relation "measure (\<lambda>(d, n, off, k, p). n - k)") auto

declare overlay_read_loop.simps [simp del]

definition overlay_ReadAt ::
    "overlayBlockDevice \<Rightarrow> nat \<Rightarrow> int \<Rightarrow> read_result \<times> overlayBlockDevice" where
  "overlay_ReadAt d n off =
     (case ValidateRange (geo_Size (dev_Geometry (ov_base d))) off (int n) of
        Some e \<Rightarrow> (([], Some e), d)
      | None \<Rightarrow>
        if n = 0 then (([], None), d)
        else case overlay_read_loop d n (nat off) 0 [] of
          (p, Some e) \<Rightarrow> ((p, Some e), d)
        | (p, None) \<Rightarrow> ((p, None),
            recordOperation ''read'' off (int n)
              (d\<lparr>ov_reads := ov_reads d + 1, ov_readBytes := ov_readBytes d + of_nat n\<rparr>)))"

subsection \<open>Writing\<close>

text \<open>\<open>copy\<close> into a fresh buffer of \<open>n\<close> zero bytes.\<close>

definition copy_fresh :: "nat \<Rightarrow> bytes \<Rightarrow> bytes" where
  "copy_fresh n xs = take n xs @ replicate (n - length xs) 0"

text \<open>What an update puts into its part of a chunk: cleared bytes, or the caller's data.\<close>

definition update_payload :: "bool \<Rightarrow> nat \<Rightarrow> bytes \<Rightarrow> bytes" where
  "update_payload zero n xs = (if zero then replicate n 0 else xs)"

text \<open>
  One iteration of \<open>updateLocked\<close>: the staged update of the chunk (\<^const>\<open>None\<close> drops the chunk,
  because its bytes equal the base; the flag is \<open>cloned\<close>) and what it adds to \<open>dirtyBytes\<close>.
\<close>

definition stage_chunk ::
    "overlayBlockDevice \<Rightarrow> nat \<Rightarrow> nat \<Rightarrow> bytes \<Rightarrow> bool \<Rightarrow> nat \<Rightarrow>
     go_error + ((overlayChunk option \<times> bool) \<times> int)" where
  "stage_chunk d off len data zero index =
     (let chunkStart = index * ov_chunkSize d;
          chunkLen = chunkLength d index;
          read_base = ReadFullAt (dev_ReadAt (ov_base d)) chunkLen (int chunkStart);
          start = max off chunkStart;
          finish = min (off + len) (chunkStart + chunkLen);
          within = start - chunkStart;
          count = finish - start;
          payload = update_payload zero count (segment (start - off) count data)
      in case map_of (ov_chunks d) index of
           Some current \<Rightarrow>
             let candidate = overwrite within payload (copy_fresh chunkLen (oc_data current));
                 cloned = (oc_generation current \<noteq> ov_generation d);
                 chunk = \<lparr>oc_data = candidate, oc_generation = ov_generation d\<rparr>
             in if count = chunkLen
                then (case read_base of
                        (_, Some e) \<Rightarrow> Inl e
                      | (base, None) \<Rightarrow>
                          if candidate = base then Inr ((None, False), - int chunkLen)
                          else Inr ((Some chunk, cloned), 0))
                else Inr ((Some chunk, cloned), 0)
         | None \<Rightarrow>
             (case read_base of
                (_, Some e) \<Rightarrow> Inl e
              | (base, None) \<Rightarrow>
                  let candidate = overwrite within payload base;
                      chunk = \<lparr>oc_data = candidate, oc_generation = ov_generation d\<rparr>
                  in if candidate = base then Inr ((None, False), 0)
                     else Inr ((Some chunk, False), int chunkLen)))"

fun stage_chunks ::
    "overlayBlockDevice \<Rightarrow> nat \<Rightarrow> nat \<Rightarrow> bytes \<Rightarrow> bool \<Rightarrow> nat list \<Rightarrow> int \<Rightarrow>
     go_error + ((nat \<times> overlayChunk option \<times> bool) list \<times> int)" where
  "stage_chunks d off len data zero [] dirty = Inr ([], dirty)"
| "stage_chunks d off len data zero (index # rest) dirty =
     (case stage_chunk d off len data zero index of
        Inl e \<Rightarrow> Inl e
      | Inr (u, delta) \<Rightarrow>
        (case stage_chunks d off len data zero rest (dirty + delta) of
           Inl e \<Rightarrow> Inl e
         | Inr (us, dirty') \<Rightarrow> Inr ((index, u) # us, dirty')))"

fun commit_updates ::
    "(nat \<times> overlayChunk option \<times> bool) list \<Rightarrow> overlayBlockDevice \<Rightarrow> overlayBlockDevice" where
  "commit_updates [] d = d"
| "commit_updates ((index, None, cloned) # us) d =
     commit_updates us (d\<lparr>ov_chunks := AList.delete index (ov_chunks d)\<rparr>)"
| "commit_updates ((index, Some chunk, cloned) # us) d =
     commit_updates us
       (d\<lparr>ov_chunks := AList.update index chunk (ov_chunks d),
          ov_cowBytes := (if cloned then ov_cowBytes d + of_nat (length (oc_data chunk))
                          else ov_cowBytes d)\<rparr>)"

text \<open>The chunk indices a range touches, in order.\<close>

definition touched :: "nat \<Rightarrow> nat \<Rightarrow> nat \<Rightarrow> nat list" where
  "touched cs off len = [off div cs ..< (off + len - 1) div cs + 1]"

definition updateLocked ::
    "overlayBlockDevice \<Rightarrow> nat \<Rightarrow> nat \<Rightarrow> bytes \<Rightarrow> bool \<Rightarrow> go_error option \<times> overlayBlockDevice" where
  "updateLocked d off len data zero =
     (case stage_chunks d off len data zero (touched (ov_chunkSize d) off len) (ov_dirtyBytes d) of
        Inl e \<Rightarrow> (Some e, d)
      | Inr (us, dirty) \<Rightarrow>
          if dirty > ov_maxDirty d
          then (Some (BlockCapacityError (ov_maxDirty d) (ov_dirtyBytes d)
                  (dirty - ov_dirtyBytes d)), d)
          else (None, (commit_updates us d)\<lparr>ov_dirtyBytes := dirty\<rparr>))"

definition overlay_WriteAt ::
    "overlayBlockDevice \<Rightarrow> bytes \<Rightarrow> int \<Rightarrow> (nat \<times> go_error option) \<times> overlayBlockDevice" where
  "overlay_WriteAt d p off =
     (case ValidateRange (geo_Size (dev_Geometry (ov_base d))) off (int (length p)) of
        Some e \<Rightarrow> ((0, Some e), d)
      | None \<Rightarrow>
        if p = [] then ((0, None), d)
        else if ov_sealed d then ((0, Some ErrReadOnly), d)
        else case updateLocked d (nat off) (length p) p False of
          (Some e, d') \<Rightarrow> ((0, Some e), d')
        | (None, d') \<Rightarrow> ((length p, None),
            recordOperation ''write'' off (int (length p))
              (d'\<lparr>ov_writes := ov_writes d' + 1,
                 ov_writeBytes := ov_writeBytes d' + of_nat (length p)\<rparr>)))"

definition overlay_ZeroAt ::
    "overlayBlockDevice \<Rightarrow> int \<Rightarrow> int \<Rightarrow> go_error option \<times> overlayBlockDevice" where
  "overlay_ZeroAt d off len =
     (case ValidateRange (geo_Size (dev_Geometry (ov_base d))) off len of
        Some e \<Rightarrow> (Some e, d)
      | None \<Rightarrow>
        if len = 0 then (None, d)
        else if ov_sealed d then (Some ErrReadOnly, d)
        else case updateLocked d (nat off) (nat len) [] True of
          (Some e, d') \<Rightarrow> (Some e, d')
        | (None, d') \<Rightarrow> (None,
            recordOperation ''zero'' off len
              (d'\<lparr>ov_writes := ov_writes d' + 1,
                 ov_writeBytes := ov_writeBytes d' + of_int len\<rparr>)))"

definition overlay_Flush :: "overlayBlockDevice \<Rightarrow> go_error option" where
  "overlay_Flush d = None"

subsection \<open>Leases, commit, snapshots\<close>

definition overlay_Acquire :: "overlayBlockDevice \<Rightarrow> go_error option \<times> overlayBlockDevice" where
  "overlay_Acquire d =
     (if ov_sealed d then (Some (Errorf ''block overlay is sealed''), d)
      else (None, d\<lparr>ov_leases := ov_leases d + 1\<rparr>))"

text \<open>The function \<open>Acquire\<close> returns: its \<open>sync.Once\<close> is the flag.\<close>

definition overlay_release :: "bool \<Rightarrow> overlayBlockDevice \<Rightarrow> bool \<times> overlayBlockDevice" where
  "overlay_release used d =
     (if used then (used, d) else (True, d\<lparr>ov_leases := ov_leases d - 1\<rparr>))"

definition overlay_Commit :: "overlayBlockDevice \<Rightarrow> go_error option \<times> overlayBlockDevice" where
  "overlay_Commit d =
     (if ov_leases d \<noteq> 0 then (Some (Errorf ''block overlay has %d active lease(s)''), d)
      else (None, d\<lparr>ov_sealed := True\<rparr>))"

definition overlay_Snapshot ::
    "overlayBlockDevice \<Rightarrow> (go_error + overlaySnapshot) \<times> overlayBlockDevice" where
  "overlay_Snapshot d =
     (if ov_sealed d then (Inl (Errorf ''block overlay is sealed''), d)
      else (Inr \<lparr>sn_base = ov_base d, sn_chunkSize = ov_chunkSize d,
                 sn_chunks = map (\<lambda>(i, c). (i, oc_data c)) (ov_chunks d)\<rparr>,
            d\<lparr>ov_generation := ov_generation d + 1, ov_snapshots := ov_snapshots d + 1\<rparr>))"

definition sn_chunkLength :: "overlaySnapshot \<Rightarrow> nat \<Rightarrow> nat" where
  "sn_chunkLength s index =
     (let remaining = nat (geo_Size (dev_Geometry (sn_base s))) - index * sn_chunkSize s
      in if remaining < sn_chunkSize s then remaining else sn_chunkSize s)"

text \<open>
  The loop of the snapshot's \<open>ReadAt\<close> has no guard for an empty step: it would spin. The model
  ends such a run with \<open>io.ErrNoProgress\<close>; \<open>snapshot_read_ok\<close> below shows that a validated range
  never gets there.
\<close>

function snapshot_read_loop ::
    "overlaySnapshot \<Rightarrow> nat \<Rightarrow> nat \<Rightarrow> nat \<Rightarrow> bytes \<Rightarrow> read_result" where
  "snapshot_read_loop s n off k p =
     (if k < n
      then (let absolute = off + k;
                index = absolute div sn_chunkSize s;
                within = absolute mod sn_chunkSize s;
                count = min (n - k) (sn_chunkLength s index - within)
            in if count = 0 then (p, Some ErrNoProgress)
               else case map_of (sn_chunks s) index of
                      Some chunk \<Rightarrow>
                        snapshot_read_loop s n off (k + count) (p @ segment within count chunk)
                    | None \<Rightarrow>
                        (case ReadFullAt (dev_ReadAt (sn_base s)) count (int absolute) of
                           (bs, Some e) \<Rightarrow> (p, Some e)
                         | (bs, None) \<Rightarrow> snapshot_read_loop s n off (k + count) (p @ bs)))
      else (p, None))"
  by pat_completeness auto
termination
  by (relation "measure (\<lambda>(s, n, off, k, p). n - k)") auto

declare snapshot_read_loop.simps [simp del]

definition snapshot_ReadAt :: "overlaySnapshot \<Rightarrow> reader_at" where
  "snapshot_ReadAt s n off =
     (case ValidateRange (geo_Size (dev_Geometry (sn_base s))) off (int n) of
        Some e \<Rightarrow> ([], Some e)
      | None \<Rightarrow> snapshot_read_loop s n (nat off) 0 [])"

subsection \<open>What the overlay holds\<close>

definition overlay_byte :: "overlayBlockDevice \<Rightarrow> nat \<Rightarrow> byte" where
  "overlay_byte d k =
     (case map_of (ov_chunks d) (k div ov_chunkSize d) of
        Some c \<Rightarrow> oc_data c ! (k mod ov_chunkSize d)
      | None \<Rightarrow> base_bytes (ov_base d) ! k)"

definition overlay_contents :: "overlayBlockDevice \<Rightarrow> bytes" where
  "overlay_contents d = map (overlay_byte d) [0..<ov_size d]"

definition dirty_sum :: "overlayBlockDevice \<Rightarrow> int" where
  "dirty_sum d = (\<Sum>i\<in>dom (map_of (ov_chunks d)). int (chunkLength d i))"

definition overlay_inv :: "overlayBlockDevice \<Rightarrow> bool" where
  "overlay_inv d \<longleftrightarrow>
     0 < ov_chunkSize d \<and> device_faithful (ov_base d) \<and> distinct (map fst (ov_chunks d)) \<and>
     (\<forall>i c. map_of (ov_chunks d) i = Some c \<longrightarrow>
        i * ov_chunkSize d < ov_size d \<and> length (oc_data c) = chunkLength d i) \<and>
     ov_dirtyBytes d = dirty_sum d \<and> ov_dirtyBytes d \<le> ov_maxDirty d"

lemma chunkLength_eq: "chunkLength d i = min (ov_chunkSize d) (ov_size d - i * ov_chunkSize d)"
  by (simp add: chunkLength_def Let_def)

lemma chunkLength_le: "chunkLength d i \<le> ov_chunkSize d"
  by (simp add: chunkLength_eq)

lemma chunkLength_fits:
  "i * ov_chunkSize d \<le> ov_size d \<Longrightarrow> i * ov_chunkSize d + chunkLength d i \<le> ov_size d"
  by (simp add: chunkLength_eq)

lemma chunkLength_pos:
  "0 < ov_chunkSize d \<Longrightarrow> i * ov_chunkSize d < ov_size d \<Longrightarrow> 0 < chunkLength d i"
  by (simp add: chunkLength_eq)

lemma length_overlay_contents [simp]: "length (overlay_contents d) = ov_size d"
  by (simp add: overlay_contents_def)

lemma nth_overlay_contents [simp]: "k < ov_size d \<Longrightarrow> overlay_contents d ! k = overlay_byte d k"
  by (simp add: overlay_contents_def)

lemma contents_chunk_Some:
  assumes "overlay_inv d" and "map_of (ov_chunks d) i = Some c" and "w + n \<le> chunkLength d i"
  shows "segment (i * ov_chunkSize d + w) n (overlay_contents d) = segment w n (oc_data c)"
proof (rule segment_eqI)
  have len: "length (oc_data c) = chunkLength d i" and cs: "0 < ov_chunkSize d"
    and i: "i * ov_chunkSize d < ov_size d"
    using assms by (auto simp: overlay_inv_def)
  show "length (segment w n (oc_data c)) = n" using assms(3) len by simp
  show "i * ov_chunkSize d + w + n \<le> length (overlay_contents d)"
    using assms(3) i chunkLength_fits [of i d] by simp
  fix j assume j: "j < n"
  have wj: "w + j < ov_chunkSize d" using assms(3) j chunkLength_le [of d i] by simp
  have "i * ov_chunkSize d + w + j < ov_size d"
    using assms(3) i j chunkLength_fits [of i d] by simp
  then show "segment w n (oc_data c) ! j = overlay_contents d ! (i * ov_chunkSize d + w + j)"
    using wj assms(2,3) j len cs by (simp add: overlay_byte_def add.assoc)
qed

lemma contents_chunk_None:
  assumes "overlay_inv d" and "map_of (ov_chunks d) i = None" and "w + n \<le> chunkLength d i"
    and "i * ov_chunkSize d < ov_size d"
  shows "segment (i * ov_chunkSize d + w) n (overlay_contents d)
    = segment (i * ov_chunkSize d + w) n (base_bytes (ov_base d))"
proof (rule segment_eqI)
  have len: "length (base_bytes (ov_base d)) = ov_size d" and cs: "0 < ov_chunkSize d"
    using assms(1) by (auto simp: overlay_inv_def device_faithful_def)
  have fits: "i * ov_chunkSize d + w + n \<le> ov_size d"
    using assms(3,4) chunkLength_fits [of i d] by simp
  then show "length (segment (i * ov_chunkSize d + w) n (base_bytes (ov_base d))) = n"
    and "i * ov_chunkSize d + w + n \<le> length (overlay_contents d)"
    using len by simp_all
  fix j assume j: "j < n"
  have "w + j < ov_chunkSize d" using assms(3) j chunkLength_le [of d i] by simp
  then show "segment (i * ov_chunkSize d + w) n (base_bytes (ov_base d)) ! j
      = overlay_contents d ! (i * ov_chunkSize d + w + j)"
    using assms(2) j len cs fits by (simp add: overlay_byte_def add.assoc)
qed

text \<open>One chunk of the overlay, whichever layer holds it.\<close>

lemma overlay_read_loop_ok:
  assumes inv: "overlay_inv d" and range: "off + n \<le> ov_size d" and "k \<le> n"
  shows "overlay_read_loop d n off k (segment off k (overlay_contents d))
    = (segment off n (overlay_contents d), None)"
  using assms(3)
proof (induction "n - k" arbitrary: k rule: less_induct)
  case less
  have cs: "0 < ov_chunkSize d" and base: "device_faithful (ov_base d)"
    using inv by (auto simp: overlay_inv_def)
  show ?case
  proof (cases "k < n")
    case False
    with less.prems show ?thesis by (simp add: overlay_read_loop.simps)
  next
    case True
    define i where "i = (off + k) div ov_chunkSize d"
    define w where "w = (off + k) mod ov_chunkSize d"
    define count where "count = min (n - k) (chunkLength d i - w)"
    have a: "off + k = i * ov_chunkSize d + w" by (simp add: i_def w_def)
    have w: "w < ov_chunkSize d" using cs by (simp add: w_def)
    have i: "i * ov_chunkSize d < ov_size d" using a True range by simp
    have count: "0 < count" "w + count \<le> chunkLength d i" "k + count \<le> n"
      using a w True range by (auto simp: count_def chunkLength_eq)
    have app: "segment off k (overlay_contents d) @ segment (off + k) count (overlay_contents d)
        = segment off (k + count) (overlay_contents d)"
      by (simp add: segment_add)
    have step: "overlay_read_loop d n off k (segment off k (overlay_contents d))
        = overlay_read_loop d n off (k + count) (segment off (k + count) (overlay_contents d))"
    proof (cases "map_of (ov_chunks d) i")
      case (Some c)
      then show ?thesis
        using True count(1) app contents_chunk_Some [OF inv Some count(2), folded a]
        by (simp add: overlay_read_loop.simps [of _ _ _ k] Let_def flip: i_def w_def count_def)
    next
      case None
      have "off + k + count \<le> ov_size d" using count range by simp
      then show ?thesis
        using True count(1) app None device_faithful_read [OF base, of "off + k" count]
          contents_chunk_None [OF inv None count(2) i, folded a]
        by (simp add: overlay_read_loop.simps [of _ _ _ k] Let_def flip: i_def w_def count_def)
    qed
    then show ?thesis using less.hyps [of "k + count"] count by simp
  qed
qed

subsection \<open>Writing replaces the addressed bytes\<close>

text \<open>A staged update is right for the bytes \<open>cand\<close> the chunk shall hold afterwards.\<close>

definition staged_ok ::
    "overlayBlockDevice \<Rightarrow> bytes \<Rightarrow> nat \<Rightarrow> overlayChunk option \<Rightarrow> int \<Rightarrow> bool" where
  "staged_ok d new i u delta \<longleftrightarrow>
     (let cand = segment (i * ov_chunkSize d) (chunkLength d i) new in
      (case u of
         Some c \<Rightarrow> oc_data c = cand \<and> oc_generation c = ov_generation d \<and>
           delta = (if map_of (ov_chunks d) i = None then int (chunkLength d i) else 0)
       | None \<Rightarrow> cand = segment (i * ov_chunkSize d) (chunkLength d i) (base_bytes (ov_base d)) \<and>
           delta = (if map_of (ov_chunks d) i = None then 0 else - int (chunkLength d i))))"

text \<open>
  What a write shall cost, said on the bytes alone: a clean chunk whose bytes the write moves away
  from the base is charged its length, a dirty chunk that the write covers whole with the base's own
  bytes gives its length back, and every other chunk is free.
\<close>

definition chunk_charge :: "overlayBlockDevice \<Rightarrow> nat \<Rightarrow> bytes \<Rightarrow> nat \<Rightarrow> int" where
  "chunk_charge d off p i =
     (let a = i * ov_chunkSize d; m = chunkLength d i;
          as_base = (segment a m (overwrite off p (overlay_contents d))
                     = segment a m (base_bytes (ov_base d)))
      in if map_of (ov_chunks d) i = None then (if as_base then 0 else int m)
         else if off \<le> a \<and> a + m \<le> off + length p \<and> as_base then - int m
         else 0)"

definition write_charge :: "overlayBlockDevice \<Rightarrow> nat \<Rightarrow> bytes \<Rightarrow> int" where
  "write_charge d off p = (\<Sum>i<ov_size d. chunk_charge d off p i)"

lemma copy_fresh_id [simp]: "length xs = n \<Longrightarrow> copy_fresh n xs = xs"
  by (simp add: copy_fresh_def)

lemma touched_bounds:
  assumes "0 < cs" and "0 < len" and "i \<in> set (touched cs off len)"
  shows "i * cs < off + len" and "off < i * cs + cs"
proof -
  have i: "off div cs \<le> i" "i \<le> (off + len - 1) div cs"
    using assms(3) by (auto simp: touched_def)
  have "i * cs \<le> (off + len - 1) div cs * cs" using i(2) by (rule mult_le_mono1)
  also have "\<dots> \<le> off + len - 1" by (rule div_block_le)
  finally show "i * cs < off + len" using assms(2) by simp
  have "off < off div cs * cs + cs" using assms(1) by (rule div_block_lt)
  also have "\<dots> \<le> i * cs + cs" using i(1) by simp
  finally show "off < i * cs + cs" .
qed

lemma touched_iff:
  assumes "0 < cs" and "0 < len"
  shows "i \<in> set (touched cs off len) \<longleftrightarrow> i * cs < off + len \<and> off < i * cs + cs"
proof
  assume "i * cs < off + len \<and> off < i * cs + cs"
  then have "off div cs < Suc i" and "i \<le> (off + len - 1) div cs"
    using assms by (auto simp: div_less_iff_less_mult less_eq_div_iff_mult_less_eq)
  then show "i \<in> set (touched cs off len)" by (auto simp: touched_def)
qed (use touched_bounds [OF assms] in blast)

lemma distinct_touched: "distinct (touched cs off len)"
  by (simp add: touched_def)

lemma stage_chunk_ok:
  assumes inv: "overlay_inv d" and len: "0 < len" and range: "off + len \<le> ov_size d"
    and data: "\<not> zero \<Longrightarrow> length data = len"
    and i: "i \<in> set (touched (ov_chunkSize d) off len)"
    and st: "stage_chunk d off len data zero i = Inr ((u, cl), delta)"
  shows "staged_ok d (overwrite off (update_payload zero len data) (overlay_contents d)) i u delta
    \<and> delta = chunk_charge d off (update_payload zero len data) i"
proof -
  let ?cs = "ov_chunkSize d" and ?P = "update_payload zero len data"
  let ?a = "i * ?cs" and ?m = "chunkLength d i" and ?c = "overlay_contents d"
  have cs: "0 < ?cs" and base: "device_faithful (ov_base d)"
    using inv by (auto simp: overlay_inv_def)
  have b: "?a < off + len" "off < ?a + ?cs" using touched_bounds [OF cs len i] by auto
  then have a: "?a < ov_size d" using range by simp
  have fits: "?a + ?m \<le> ov_size d" using a by (intro chunkLength_fits) simp
  have P: "length ?P = len" using data by (simp add: update_payload_def)
  have ov: "off \<le> ?a + ?m" using b range by (simp add: chunkLength_eq)
  define start where "start = max off ?a"
  define cnt where "cnt = min (off + len) (?a + ?m) - start"
  have pl: "update_payload zero cnt (segment (start - off) cnt data)
      = segment (start - off) cnt ?P"
    by (auto simp: update_payload_def start_def cnt_def min_def max_def)
  have cand: "overwrite (start - ?a) (segment (start - off) cnt ?P) (segment ?a ?m ?c)
      = segment ?a ?m (overwrite off ?P ?c)"
    using segment_overwrite_clip [of ?a ?m ?c off ?P] fits P range b ov
    by (simp add: start_def cnt_def)
  have cov: "cnt = ?m \<longleftrightarrow> off \<le> ?a \<and> ?a + ?m \<le> off + length ?P"
    using chunkLength_pos [OF cs a] by (auto simp: cnt_def start_def min_def max_def P)
  have rd: "ReadFullAt (dev_ReadAt (ov_base d)) ?m (int ?a)
      = (segment ?a ?m (base_bytes (ov_base d)), None)"
    using device_faithful_read [OF base fits] .
  let ?new = "segment ?a ?m (overwrite off ?P ?c)" and ?b = "segment ?a ?m (base_bytes (ov_base d))"
  let ?ch = "\<lparr>oc_data = ?new, oc_generation = ov_generation d\<rparr>"
  show ?thesis
  proof (cases "map_of (ov_chunks d) i")
    case (Some cur)
    have dl: "length (oc_data cur) = ?m" using inv Some by (auto simp: overlay_inv_def)
    then have "segment ?a ?m ?c = oc_data cur"
      using contents_chunk_Some [OF inv Some, of 0 ?m] by simp
    with cand have cd: "overwrite (start - ?a) (segment (start - off) cnt ?P) (oc_data cur) = ?new"
      by simp
    have "stage_chunk d off len data zero i =
        (if cnt = ?m then if ?new = ?b then Inr ((None, False), - int ?m)
           else Inr ((Some ?ch, oc_generation cur \<noteq> ov_generation d), 0)
         else Inr ((Some ?ch, oc_generation cur \<noteq> ov_generation d), 0))"
      unfolding stage_chunk_def Let_def start_def [symmetric] cnt_def [symmetric] pl Some rd
        option.case prod.case copy_fresh_id [OF dl] cd by (rule refl)
    with st Some show ?thesis
      unfolding cov by (auto simp: staged_ok_def chunk_charge_def Let_def split: if_splits)
  next
    case None
    have "segment ?a ?m ?c = ?b"
      using contents_chunk_None [OF inv None, of 0 ?m] a by simp
    with cand have cd: "overwrite (start - ?a) (segment (start - off) cnt ?P) ?b = ?new"
      by simp
    have "stage_chunk d off len data zero i =
        (if ?new = ?b then Inr ((None, False), 0) else Inr ((Some ?ch, False), int ?m))"
      unfolding stage_chunk_def Let_def start_def [symmetric] cnt_def [symmetric] pl None rd
        option.case prod.case cd by (rule refl)
    with st None show ?thesis
      by (auto simp: staged_ok_def chunk_charge_def Let_def split: if_splits)
  qed
qed

lemma commit_updates_frame [simp]:
  "ov_base (commit_updates us d) = ov_base d"
  "ov_chunkSize (commit_updates us d) = ov_chunkSize d"
  "ov_maxDirty (commit_updates us d) = ov_maxDirty d"
  "ov_dirtyBytes (commit_updates us d) = ov_dirtyBytes d"
  "ov_generation (commit_updates us d) = ov_generation d"
  "ov_sealed (commit_updates us d) = ov_sealed d"
  "ov_leases (commit_updates us d) = ov_leases d"
  "ov_traceLimit (commit_updates us d) = ov_traceLimit d"
  "ov_traceNext (commit_updates us d) = ov_traceNext d"
  "ov_trace (commit_updates us d) = ov_trace d"
  by (induction us d rule: commit_updates.induct) simp_all

lemma commit_updates_distinct:
  "distinct (map fst (ov_chunks d)) \<Longrightarrow> distinct (map fst (ov_chunks (commit_updates us d)))"
  by (induction us d rule: commit_updates.induct) (simp_all add: distinct_update distinct_delete)

lemma commit_updates_map:
  "distinct (map fst us) \<Longrightarrow> map_of (ov_chunks (commit_updates us d)) i =
     (case map_of us i of None \<Rightarrow> map_of (ov_chunks d) i | Some (u, cl) \<Rightarrow> u)"
proof (induction us d rule: commit_updates.induct)
  case (2 index cloned us d)
  then have "map_of us index = None" by (simp add: map_of_eq_None_iff)
  with 2 show ?case by (auto simp: delete_conv' split: option.splits)
next
  case (3 index chunk cloned us d)
  then have "map_of us index = None" by (simp add: map_of_eq_None_iff)
  with 3 show ?case by (auto simp: update_conv' split: option.splits)
qed simp

lemma stage_chunks_Inr:
  assumes "stage_chunks d off len data zero idx dirty = Inr (us, dirty')"
  shows "map fst us = idx \<and>
    (\<forall>(i, u, cl) \<in> set us. \<exists>delta. stage_chunk d off len data zero i = Inr ((u, cl), delta)) \<and>
    dirty' = dirty + (\<Sum>i\<leftarrow>idx. snd (projr (stage_chunk d off len data zero i)))"
  using assms
proof (induction idx arbitrary: dirty us)
  case Nil
  then show ?case by simp
next
  case (Cons i idx)
  from Cons.prems obtain u cl delta us1 where
    st: "stage_chunk d off len data zero i = Inr ((u, cl), delta)"
    and rest: "stage_chunks d off len data zero idx (dirty + delta) = Inr (us1, dirty')"
    and us: "us = (i, u, cl) # us1"
    by (auto split: sum.splits prod.splits)
  from Cons.IH [OF rest] st us show ?case by auto
qed

lemma dirty_sum_alt:
  assumes "dom (map_of (ov_chunks d)) \<subseteq> {..<n}"
  shows "dirty_sum d = (\<Sum>i<n. if map_of (ov_chunks d) i = None then 0 else int (chunkLength d i))"
  unfolding dirty_sum_def by (rule sum.mono_neutral_cong_left) (use assms in auto)

lemma overlay_inv_dom: "overlay_inv d \<Longrightarrow> dom (map_of (ov_chunks d)) \<subseteq> {..<ov_size d}"
proof
  fix i assume inv: "overlay_inv d" and "i \<in> dom (map_of (ov_chunks d))"
  then have "i * ov_chunkSize d < ov_size d" and "0 < ov_chunkSize d"
    by (auto simp: overlay_inv_def)
  then have "i < ov_size d" by (cases "ov_chunkSize d") auto
  then show "i \<in> {..<ov_size d}" by simp
qed

text \<open>
  What a committed update leaves: the touched chunks hold the new bytes (or are dropped where the
  new bytes are the base's), all others are as before, and the dirty-byte count moved by the sum
  of the staged changes.
\<close>

definition updated :: "overlayBlockDevice \<Rightarrow> bytes \<Rightarrow> nat list \<Rightarrow> (nat \<Rightarrow> int) \<Rightarrow>
    overlayBlockDevice \<Rightarrow> bool" where
  "updated d new idx delta d' \<longleftrightarrow>
     ov_base d' = ov_base d \<and> ov_chunkSize d' = ov_chunkSize d \<and> ov_maxDirty d' = ov_maxDirty d \<and>
     distinct (map fst (ov_chunks d')) \<and>
     (\<forall>i\<in>set idx. staged_ok d new i (map_of (ov_chunks d') i) (delta i)) \<and>
     (\<forall>i. i \<notin> set idx \<longrightarrow> map_of (ov_chunks d') i = map_of (ov_chunks d) i) \<and>
     ov_dirtyBytes d' = ov_dirtyBytes d + (\<Sum>i\<in>set idx. delta i) \<and>
     ov_dirtyBytes d' \<le> ov_maxDirty d'"

lemma updateLocked_updated:
  assumes inv: "overlay_inv d" and len: "0 < len" and range: "off + len \<le> ov_size d"
    and data: "\<not> zero \<Longrightarrow> length data = len"
    and up: "updateLocked d off len data zero = (None, d')"
  shows "updated d (overwrite off (update_payload zero len data) (overlay_contents d))
    (touched (ov_chunkSize d) off len)
    (\<lambda>i. snd (projr (stage_chunk d off len data zero i))) d'"
proof -
  let ?idx = "touched (ov_chunkSize d) off len"
  let ?delta = "\<lambda>i. snd (projr (stage_chunk d off len data zero i))"
  let ?new = "overwrite off (update_payload zero len data) (overlay_contents d)"
  from up obtain us dirty where
    st: "stage_chunks d off len data zero ?idx (ov_dirtyBytes d) = Inr (us, dirty)"
    and cap: "dirty \<le> ov_maxDirty d"
    and d': "d' = (commit_updates us d)\<lparr>ov_dirtyBytes := dirty\<rparr>"
    by (auto simp: updateLocked_def split: sum.splits prod.splits if_splits)
  note S = stage_chunks_Inr [OF st]
  then have dus: "distinct (map fst us)" using distinct_touched by simp
  have new: "staged_ok d ?new i (map_of (ov_chunks d') i) (?delta i)" if i: "i \<in> set ?idx" for i
  proof -
    from i S have "i \<in> fst ` set us" by (metis set_map)
    then obtain u cl where mem: "(i, u, cl) \<in> set us" by auto
    from S mem obtain delta where sc: "stage_chunk d off len data zero i = Inr ((u, cl), delta)"
      by blast
    have "map_of (ov_chunks d') i = u"
      using commit_updates_map [OF dus] dus mem by (simp add: d')
    with sc stage_chunk_ok [OF inv len range data i sc] show ?thesis by auto
  qed
  have old: "map_of (ov_chunks d') i = map_of (ov_chunks d) i" if "i \<notin> set ?idx" for i
  proof -
    have "map_of us i = None" using that S by (metis map_of_eq_None_iff set_map)
    then show ?thesis using commit_updates_map [OF dus, of d i] by (simp add: d')
  qed
  have "dirty = ov_dirtyBytes d + (\<Sum>i\<in>set ?idx. ?delta i)"
    using S sum_list_distinct_conv_sum_set [OF distinct_touched, of ?delta] by simp
  then show ?thesis
    using new old cap inv unfolding updated_def
    by (simp add: d' commit_updates_distinct overlay_inv_def)
qed

lemma updated_contents:
  assumes inv: "overlay_inv d" and up: "updated d new (touched (ov_chunkSize d) off len) delta d'"
    and len: "0 < len" and new: "new = overwrite off p (overlay_contents d)" "length p = len"
      "off + len \<le> ov_size d"
  shows "overlay_contents d' = new"
proof (rule nth_equalityI)
  let ?cs = "ov_chunkSize d"
  have cs: "0 < ?cs" using inv by (simp add: overlay_inv_def)
  have fr: "ov_base d' = ov_base d" "ov_chunkSize d' = ?cs" using up by (auto simp: updated_def)
  show ln: "length (overlay_contents d') = length new" using new fr by simp
  fix k assume "k < length (overlay_contents d')"
  then have k: "k < ov_size d" using fr by simp
  define i where "i = k div ?cs"
  have ik: "k = i * ?cs + k mod ?cs" "k mod ?cs < ?cs" using cs by (simp_all add: i_def)
  have kl: "k mod ?cs < chunkLength d i" using ik k by (simp add: chunkLength_eq)
  show "overlay_contents d' ! k = new ! k"
  proof (cases "i \<in> set (touched ?cs off len)")
    case True
    then have so: "staged_ok d new i (map_of (ov_chunks d') i) (delta i)"
      using up by (simp add: updated_def)
    have seg: "segment (i * ?cs) (chunkLength d i) xs ! (k mod ?cs) = xs ! k"
      if "length xs = ov_size d" for xs :: bytes
      using ik(1) kl k that by (subst nth_segment) auto
    have bl: "length (base_bytes (ov_base d)) = ov_size d"
      using inv by (simp add: overlay_inv_def device_faithful_def)
    have nl: "length new = ov_size d" using ln fr by simp
    show ?thesis
      using so k fr seg [OF bl] seg [OF nl]
      by (auto simp: staged_ok_def Let_def overlay_byte_def simp flip: i_def split: option.splits)
  next
    case False
    then have "map_of (ov_chunks d') i = map_of (ov_chunks d) i" using up by (simp add: updated_def)
    then have "overlay_contents d' ! k = overlay_contents d ! k"
      using k fr by (simp add: overlay_byte_def flip: i_def split: option.split)
    moreover have "\<not> (off \<le> k \<and> k < off + len)"
      using False ik unfolding touched_iff [OF cs len] by linarith
    ultimately show ?thesis using new k by (auto simp: nth_overwrite)
  qed
qed

lemma updated_inv:
  assumes inv: "overlay_inv d" and up: "updated d new (touched (ov_chunkSize d) off len) delta d'"
    and len: "0 < len" "off + len \<le> ov_size d" "length new = ov_size d"
  shows "overlay_inv d'"
proof -
  let ?cs = "ov_chunkSize d" and ?idx = "touched (ov_chunkSize d) off len"
  have cs: "0 < ?cs" using inv by (simp add: overlay_inv_def)
  have fr: "ov_base d' = ov_base d" "ov_chunkSize d' = ?cs" using up by (auto simp: updated_def)
  then have cl: "chunkLength d' i = chunkLength d i" for i by (simp add: chunkLength_eq)
  have idx: "i * ?cs < ov_size d" if "i \<in> set ?idx" for i
    using touched_bounds(1) [OF cs len(1) that] len(2) by simp
  have chunk: "i * ?cs < ov_size d \<and> length (oc_data c) = chunkLength d i"
    if "map_of (ov_chunks d') i = Some c" for i c
  proof (cases "i \<in> set ?idx")
    case True
    then have "staged_ok d new i (Some c) (delta i)" using up that by (auto simp: updated_def)
    then show ?thesis
      using idx [OF True] chunkLength_fits [of i d] len(3)
      by (auto simp: staged_ok_def Let_def)
  next
    case False
    then show ?thesis using inv up that by (auto simp: updated_def overlay_inv_def)
  qed
  have lt: "i < ov_size d" if "i * ?cs < ov_size d" for i
    using that cs by (cases ?cs) auto
  let ?L = "\<lambda>e i. if map_of (ov_chunks e) i = None then 0 else int (chunkLength d i)"
  have "?L d' i = ?L d i + (if i \<in> set ?idx then delta i else 0)" for i
    using up by (auto simp: updated_def staged_ok_def Let_def split: option.splits)
  then have "(\<Sum>i<ov_size d. ?L d' i) = (\<Sum>i<ov_size d. ?L d i) +
      (\<Sum>i<ov_size d. if i \<in> set ?idx then delta i else 0)"
    by (simp only: sum.distrib)
  also have "(\<Sum>i<ov_size d. if i \<in> set ?idx then delta i else 0) = (\<Sum>i\<in>set ?idx. delta i)"
    using idx lt by (intro sum.mono_neutral_cong_right) auto
  finally have sum: "(\<Sum>i<ov_size d. ?L d' i) =
      (\<Sum>i<ov_size d. ?L d i) + (\<Sum>i\<in>set ?idx. delta i)" .
  have "dom (map_of (ov_chunks d')) \<subseteq> {..<ov_size d}" using chunk lt by auto
  from sum dirty_sum_alt [OF this] dirty_sum_alt [OF overlay_inv_dom [OF inv]]
  have "dirty_sum d' = dirty_sum d + (\<Sum>i\<in>set ?idx. delta i)" by (simp only: cl)
  then show ?thesis using inv up chunk fr cl cs by (auto simp: overlay_inv_def updated_def)
qed

lemma updateLocked_ok:
  assumes "overlay_inv d" and "0 < len" and "off + len \<le> ov_size d"
    and "\<not> zero \<Longrightarrow> length data = len"
    and "updateLocked d off len data zero = (None, d')"
  shows "overlay_inv d' \<and>
    overlay_contents d' = overwrite off (update_payload zero len data) (overlay_contents d)"
proof -
  have P: "length (update_payload zero len data) = len"
    using assms(4) by (simp add: update_payload_def)
  note up = updateLocked_updated [OF assms]
  from updated_contents [OF assms(1) up assms(2) refl P assms(3)]
    updated_inv [OF assms(1) up assms(2,3)] P assms(3)
  show ?thesis by simp
qed

lemma updateLocked_err: "updateLocked d off len data zero = (Some e, d') \<Longrightarrow> d' = d"
  by (auto simp: updateLocked_def split: sum.splits prod.splits if_splits)

subsection \<open>The operations against the storage contract\<close>

text \<open>Fields that neither the invariant nor the bytes depend on.\<close>

lemma overlay_core_cong:
  assumes "ov_base e = ov_base d" and "ov_chunkSize e = ov_chunkSize d"
    and "ov_chunks e = ov_chunks d" and "ov_dirtyBytes e = ov_dirtyBytes d"
    and "ov_maxDirty e = ov_maxDirty d"
  shows "overlay_inv e = overlay_inv d" and "overlay_contents e = overlay_contents d"
  using assms
  by (simp_all add: overlay_inv_def overlay_contents_def overlay_byte_def dirty_sum_def
      chunkLength_eq cong: option.case_cong)

lemma recordOperation_frame [simp]:
  "ov_base (recordOperation kind off len d) = ov_base d"
  "ov_chunkSize (recordOperation kind off len d) = ov_chunkSize d"
  "ov_chunks (recordOperation kind off len d) = ov_chunks d"
  "ov_dirtyBytes (recordOperation kind off len d) = ov_dirtyBytes d"
  "ov_maxDirty (recordOperation kind off len d) = ov_maxDirty d"
  "ov_sealed (recordOperation kind off len d) = ov_sealed d"
  "ov_leases (recordOperation kind off len d) = ov_leases d"
  "ov_generation (recordOperation kind off len d) = ov_generation d"
  "ov_traceLimit (recordOperation kind off len d) = ov_traceLimit d"
  by (simp_all add: recordOperation_def Let_def)

lemma overlay_inv_irrelevant [simp]:
  "overlay_inv (recordOperation kind off len d) = overlay_inv d"
  "overlay_inv (d\<lparr>ov_reads := x\<rparr>) = overlay_inv d"
  "overlay_inv (d\<lparr>ov_readBytes := x\<rparr>) = overlay_inv d"
  "overlay_inv (d\<lparr>ov_writes := x\<rparr>) = overlay_inv d"
  "overlay_inv (d\<lparr>ov_writeBytes := x\<rparr>) = overlay_inv d"
  "overlay_inv (d\<lparr>ov_snapshots := x\<rparr>) = overlay_inv d"
  "overlay_inv (d\<lparr>ov_generation := x\<rparr>) = overlay_inv d"
  "overlay_inv (d\<lparr>ov_sealed := b\<rparr>) = overlay_inv d"
  "overlay_inv (d\<lparr>ov_leases := z\<rparr>) = overlay_inv d"
  "overlay_inv (d\<lparr>ov_traceLimit := t\<rparr>) = overlay_inv d"
  by (rule overlay_core_cong; simp)+

lemma overlay_contents_irrelevant [simp]:
  "overlay_contents (recordOperation kind off len d) = overlay_contents d"
  "overlay_contents (d\<lparr>ov_reads := x\<rparr>) = overlay_contents d"
  "overlay_contents (d\<lparr>ov_readBytes := x\<rparr>) = overlay_contents d"
  "overlay_contents (d\<lparr>ov_writes := x\<rparr>) = overlay_contents d"
  "overlay_contents (d\<lparr>ov_writeBytes := x\<rparr>) = overlay_contents d"
  "overlay_contents (d\<lparr>ov_snapshots := x\<rparr>) = overlay_contents d"
  "overlay_contents (d\<lparr>ov_generation := x\<rparr>) = overlay_contents d"
  "overlay_contents (d\<lparr>ov_sealed := b\<rparr>) = overlay_contents d"
  "overlay_contents (d\<lparr>ov_leases := z\<rparr>) = overlay_contents d"
  "overlay_contents (d\<lparr>ov_traceLimit := t\<rparr>) = overlay_contents d"
  by (rule overlay_core_cong; simp)+

lemma updateLocked_frame:
  assumes "updateLocked d off len data zero = (r, d')"
  shows "ov_base d' = ov_base d" "ov_sealed d' = ov_sealed d" "ov_leases d' = ov_leases d"
    "ov_traceLimit d' = ov_traceLimit d" "ov_trace d' = ov_trace d" "ov_traceNext d' = ov_traceNext d"
    "ov_maxDirty d' = ov_maxDirty d" "ov_chunkSize d' = ov_chunkSize d"
  using assms by (auto simp: updateLocked_def split: sum.splits prod.splits if_splits)

lemma overlay_inv_size: "overlay_inv d \<Longrightarrow> 0 \<le> geo_Size (dev_Geometry (ov_base d))"
  by (simp add: overlay_inv_def device_faithful_def)

lemma overlay_ReadAt_ok:
  assumes "overlay_inv d" and "0 \<le> off" and "nat off + n \<le> length (overlay_contents d)"
  shows "fst (overlay_ReadAt d n off) = (segment (nat off) n (overlay_contents d), None)"
proof -
  have "off + int n \<le> geo_Size (dev_Geometry (ov_base d))"
    using assms overlay_inv_size [OF assms(1)] by simp
  then show ?thesis
    using overlay_read_loop_ok [OF assms(1), of "nat off" n 0] assms
    by (simp add: overlay_ReadAt_def)
qed

text \<open>Reading changes only counters and the trace.\<close>

lemma overlay_ReadAt_frame:
  assumes "overlay_ReadAt d n off = (r, d')"
  shows "overlay_inv d' = overlay_inv d" "overlay_contents d' = overlay_contents d"
    "ov_sealed d' = ov_sealed d" "ov_leases d' = ov_leases d"
  using assms
  by (auto simp: overlay_ReadAt_def split: option.splits if_splits prod.splits)

lemma overlay_WriteAt_ok:
  assumes inv: "overlay_inv d" and w: "overlay_WriteAt d p off = ((n, None), d')"
  shows "overlay_inv d' \<and> n = length p \<and> 0 \<le> off \<and>
    nat off + length p \<le> length (overlay_contents d) \<and>
    overlay_contents d' = overwrite (nat off) p (overlay_contents d)"
proof (cases "p = []")
  case True
  with w inv show ?thesis
    by (auto simp: overlay_WriteAt_def ValidateRange_None split: option.splits)
next
  case False
  from w False obtain d1 where range: "0 \<le> off" "off + int (length p) \<le> geo_Size (dev_Geometry (ov_base d))"
    and up: "updateLocked d (nat off) (length p) p False = (None, d1)"
    and n: "n = length p"
    and d': "d' = recordOperation ''write'' off (int (length p))
        (d1\<lparr>ov_writes := ov_writes d1 + 1, ov_writeBytes := ov_writeBytes d1 + of_nat (length p)\<rparr>)"
    by (auto simp: overlay_WriteAt_def ValidateRange_None split: option.splits if_splits prod.splits)
  have r: "nat off + length p \<le> ov_size d" using range by linarith
  from updateLocked_ok [OF inv _ r _ up] False range r n show ?thesis
    by (simp add: d' update_payload_def)
qed

lemma overlay_WriteAt_err:
  "overlay_WriteAt d p off = ((n, Some e), d') \<Longrightarrow> n = 0 \<and> d' = d"
  by (auto simp: overlay_WriteAt_def dest: updateLocked_err split: option.splits if_splits prod.splits)

lemma overlay_ZeroAt_ok:
  assumes inv: "overlay_inv d" and w: "overlay_ZeroAt d off len = (None, d')"
  shows "overlay_inv d' \<and> 0 \<le> off \<and> 0 \<le> len \<and>
    nat off + nat len \<le> length (overlay_contents d) \<and>
    overlay_contents d' = overwrite (nat off) (replicate (nat len) 0) (overlay_contents d)"
proof (cases "len = 0")
  case True
  with w inv show ?thesis
    by (auto simp: overlay_ZeroAt_def ValidateRange_None split: option.splits)
next
  case False
  from w False obtain d1 where range: "0 \<le> off" "0 \<le> len" "off + len \<le> geo_Size (dev_Geometry (ov_base d))"
    and up: "updateLocked d (nat off) (nat len) [] True = (None, d1)"
    and d': "d' = recordOperation ''zero'' off len
        (d1\<lparr>ov_writes := ov_writes d1 + 1, ov_writeBytes := ov_writeBytes d1 + of_int len\<rparr>)"
    by (auto simp: overlay_ZeroAt_def ValidateRange_None split: option.splits if_splits prod.splits)
  have r: "nat off + nat len \<le> ov_size d" using range by linarith
  from updateLocked_ok [OF inv _ r _ up] False range r show ?thesis
    by (simp add: d' update_payload_def)
qed

lemma overlay_ZeroAt_err: "overlay_ZeroAt d off len = (Some e, d') \<Longrightarrow> d' = d"
  by (auto simp: overlay_ZeroAt_def dest: updateLocked_err split: option.splits if_splits prod.splits)

interpretation overlay: atomic_store overlay_inv overlay_contents
  "\<lambda>d n off. fst (overlay_ReadAt d n off)" overlay_WriteAt
proof
  fix s off n
  show "overlay_inv s \<Longrightarrow> 0 \<le> off \<Longrightarrow> nat off + n \<le> length (overlay_contents s) \<Longrightarrow>
      fst (overlay_ReadAt s n off) = (segment (nat off) n (overlay_contents s), None)"
    by (rule overlay_ReadAt_ok)
next
  fix s p off n s'
  assume "overlay_inv s" and "overlay_WriteAt s p off = ((n, None), s')"
  then show "overlay_inv s' \<and> n = length p \<and> 0 \<le> off \<and>
      nat off + length p \<le> length (overlay_contents s) \<and>
      overlay_contents s' = overwrite (nat off) p (overlay_contents s)"
    by (rule overlay_WriteAt_ok)
next
  fix s p off n e s'
  assume "overlay_inv s" and "overlay_WriteAt s p off = ((n, Some e), s')"
  then show "overlay_inv s' \<and> overlay_contents s' = overlay_contents s"
    by (auto dest: overlay_WriteAt_err)
qed

text \<open>A new overlay holds the base's bytes.\<close>

lemma newOverlay_inv:
  assumes "newOverlayBlockDevice base maxDirty chunkSize = Inr d" and "device_faithful base"
  shows "overlay_inv d \<and> overlay_contents d = base_bytes base \<and> \<not> ov_sealed d \<and> ov_leases d = 0"
proof -
  from assms(1) have d: "ov_base d = base" "ov_chunks d = []" "ov_chunkSize d = nat chunkSize"
    "0 < chunkSize" "ov_dirtyBytes d = 0" "ov_maxDirty d = maxDirty" "0 < maxDirty"
    "\<not> ov_sealed d" "ov_leases d = 0"
    by (auto simp: newOverlayBlockDevice_def Let_def split: if_splits)
  have "overlay_contents d = base_bytes base"
  proof (rule nth_equalityI)
    show "length (overlay_contents d) = length (base_bytes base)"
      using d assms(2) by (simp add: device_faithful_def)
  qed (use d in \<open>simp add: overlay_byte_def\<close>)
  with d assms(2) show ?thesis by (simp add: overlay_inv_def dirty_sum_def)
qed

subsection \<open>Snapshots\<close>

definition snapshot_of :: "overlayBlockDevice \<Rightarrow> overlaySnapshot" where
  "snapshot_of d = \<lparr>sn_base = ov_base d, sn_chunkSize = ov_chunkSize d,
     sn_chunks = map (\<lambda>(i, c). (i, oc_data c)) (ov_chunks d)\<rparr>"

lemma within_chunk:
  assumes "0 < ov_chunkSize d" and "a < ov_size d"
  shows "a mod ov_chunkSize d < chunkLength d (a div ov_chunkSize d)"
proof -
  have "a div ov_chunkSize d * ov_chunkSize d + a mod ov_chunkSize d < ov_size d"
    using assms(2) by (simp only: div_block_mod)
  then have "a mod ov_chunkSize d < ov_size d - a div ov_chunkSize d * ov_chunkSize d" by linarith
  then show ?thesis using assms(1) by (simp add: chunkLength_eq)
qed

lemma snapshot_of_simps [simp]:
  "sn_base (snapshot_of d) = ov_base d" "sn_chunkSize (snapshot_of d) = ov_chunkSize d"
  "map_of (sn_chunks (snapshot_of d)) i = map_option oc_data (map_of (ov_chunks d) i)"
  "sn_chunkLength (snapshot_of d) i = chunkLength d i"
  by (simp_all add: snapshot_of_def map_of_map sn_chunkLength_def chunkLength_def Let_def)

lemma snapshot_read_loop_eq:
  assumes "0 < ov_chunkSize d" and "off + n \<le> ov_size d"
  shows "snapshot_read_loop (snapshot_of d) n off k p = overlay_read_loop d n off k p"
  using assms
proof (induction d n off k p rule: overlay_read_loop.induct)
  case (1 d n off k p)
  define i where "i = (off + k) div ov_chunkSize d"
  define w where "w = (off + k) mod ov_chunkSize d"
  define count where "count = min (n - k) (chunkLength d i - w)"
  note defs = i_def w_def count_def
  show ?case
  proof (cases "k < n")
    case False
    then show ?thesis by (simp add: overlay_read_loop.simps snapshot_read_loop.simps)
  next
    case True
    have c: "count \<noteq> 0"
      using within_chunk [of d "off + k"] "1.prems" True by (simp add: defs)
    show ?thesis
    proof (cases "map_of (ov_chunks d) i")
      case (Some ch)
      then show ?thesis
        using "1.IH"(2) [OF True refl i_def w_def count_def c Some] True c "1.prems"
        by (simp add: overlay_read_loop.simps [of _ _ _ k] snapshot_read_loop.simps [of _ _ _ k]
            Let_def flip: defs)
    next
      case None
      obtain bs e where rd: "ReadFullAt (dev_ReadAt (ov_base d)) count (int (off + k)) = (bs, e)"
        by (metis surj_pair)
      show ?thesis
        using "1.IH"(1) [OF True refl i_def w_def count_def c None rd [symmetric]]
          None rd True c "1.prems"
        by (cases e) (simp_all add: overlay_read_loop.simps [of _ _ _ k] snapshot_read_loop.simps [of _ _ _ k]
            Let_def flip: defs)
    qed
  qed
qed

lemma snapshot_read_ok:
  assumes "overlay_inv d" and "0 \<le> off" and "nat off + n \<le> length (overlay_contents d)"
  shows "snapshot_ReadAt (snapshot_of d) n off = (segment (nat off) n (overlay_contents d), None)"
proof -
  have "off + int n \<le> geo_Size (dev_Geometry (ov_base d))"
    using assms overlay_inv_size [OF assms(1)] by simp
  then show ?thesis
    using overlay_read_loop_ok [OF assms(1), of "nat off" n 0] assms
    by (simp add: snapshot_ReadAt_def snapshot_read_loop_eq overlay_inv_def)
qed

lemma overlay_Snapshot_Inr:
  "overlay_Snapshot d = (Inr s, d') \<Longrightarrow> s = snapshot_of d \<and> \<not> ov_sealed d \<and>
     d' = d\<lparr>ov_generation := ov_generation d + 1, ov_snapshots := ov_snapshots d + 1\<rparr>"
  by (auto simp: overlay_Snapshot_def snapshot_of_def split: if_splits)

text \<open>
  A snapshot is a store of its own: it is frozen at the bytes the overlay held when it was taken.
  The state of the contract is the overlay the snapshot was taken of.
\<close>

interpretation snapshot: read_store overlay_inv overlay_contents "\<lambda>d. snapshot_ReadAt (snapshot_of d)"
  by unfold_locales (rule snapshot_read_ok)

lemma stage_chunk_total:
  assumes inv: "overlay_inv d" and "i * ov_chunkSize d < ov_size d"
  shows "\<exists>u delta. stage_chunk d off len data zero i = Inr (u, delta)"
proof -
  have "ReadFullAt (dev_ReadAt (ov_base d)) (chunkLength d i) (int (i * ov_chunkSize d))
      = (segment (i * ov_chunkSize d) (chunkLength d i) (base_bytes (ov_base d)), None)"
    using inv assms(2) chunkLength_fits [of i d]
    by (intro device_faithful_read) (simp_all add: overlay_inv_def)
  then show ?thesis
    by (auto simp: stage_chunk_def Let_def simp del: of_nat_mult split: option.split)
qed

lemma stage_chunks_total:
  assumes "overlay_inv d" and "\<And>i. i \<in> set idx \<Longrightarrow> i * ov_chunkSize d < ov_size d"
  shows "\<exists>us dirty'. stage_chunks d off len data zero idx dirty = Inr (us, dirty')"
  using assms(2)
proof (induction idx arbitrary: dirty)
  case (Cons i idx)
  obtain u delta where st: "stage_chunk d off len data zero i = Inr (u, delta)"
    using stage_chunk_total [OF assms(1), of i off len data zero] Cons.prems by auto
  from Cons.IH [of "dirty + delta"] Cons.prems st show ?case by (auto split: prod.split)
qed simp

lemma chunk_charge_untouched:
  assumes inv: "overlay_inv d" and range: "off + length p \<le> ov_size d"
    and i: "\<not> (i * ov_chunkSize d < off + length p \<and> off < i * ov_chunkSize d + ov_chunkSize d)"
  shows "chunk_charge d off p i = 0"
proof (cases "i * ov_chunkSize d < ov_size d")
  case False
  then show ?thesis by (simp add: chunk_charge_def chunkLength_eq Let_def)
next
  case True
  let ?a = "i * ov_chunkSize d" and ?m = "chunkLength d i"
  have m: "0 < ?m" "?m \<le> ov_chunkSize d" "?a + ?m \<le> ov_size d"
    using True inv chunkLength_pos [of d i] chunkLength_fits [of i d] chunkLength_le [of d i]
    by (auto simp: overlay_inv_def)
  have "segment ?a ?m (overwrite off p (overlay_contents d)) = segment ?a ?m (overlay_contents d)"
    by (rule nth_equalityI) (use m i range in \<open>auto simp: nth_segment nth_overwrite\<close>)
  moreover have "segment ?a ?m (overlay_contents d) = segment ?a ?m (base_bytes (ov_base d))"
    if "map_of (ov_chunks d) i = None"
    using contents_chunk_None [OF inv that, of 0 ?m] True by simp
  ultimately show ?thesis using m i by (auto simp: chunk_charge_def Let_def)
qed

lemma chunk_charge_empty:
  assumes "overlay_inv d"
  shows "chunk_charge d off [] i = 0"
proof (cases "map_of (ov_chunks d) i")
  case None
  then show ?thesis
    using contents_chunk_None [OF assms None, of 0 "chunkLength d i"]
    by (cases "i * ov_chunkSize d < ov_size d") (auto simp: chunk_charge_def Let_def chunkLength_eq)
next
  case (Some c)
  then have "0 < chunkLength d i"
    using assms by (intro chunkLength_pos) (auto simp: overlay_inv_def)
  then show ?thesis using Some by (auto simp: chunk_charge_def Let_def)
qed

lemma write_charge_touched:
  assumes inv: "overlay_inv d" and p: "p \<noteq> []" and range: "off + length p \<le> ov_size d"
  shows "write_charge d off p
    = (\<Sum>i\<in>set (touched (ov_chunkSize d) off (length p)). chunk_charge d off p i)"
proof -
  have cs: "0 < ov_chunkSize d" using inv by (simp add: overlay_inv_def)
  have "i < ov_size d" if "i * ov_chunkSize d < off + length p" for i
    using that cs range by (cases "ov_chunkSize d") auto
  then show ?thesis unfolding write_charge_def
    by (intro sum.mono_neutral_right) (use cs p chunk_charge_untouched [OF inv range] in
      \<open>auto simp: touched_iff\<close>)
qed

lemma updateLocked_charge:
  assumes inv: "overlay_inv d" and len: "0 < len" and range: "off + len \<le> ov_size d"
    and data: "\<not> zero \<Longrightarrow> length data = len" and p: "p = update_payload zero len data"
  shows "\<exists>us. updateLocked d off len data zero =
    (if ov_maxDirty d < ov_dirtyBytes d + write_charge d off p
     then (Some (BlockCapacityError (ov_maxDirty d) (ov_dirtyBytes d) (write_charge d off p)), d)
     else (None, (commit_updates us d)
       \<lparr>ov_dirtyBytes := ov_dirtyBytes d + write_charge d off p\<rparr>))"
proof -
  let ?idx = "touched (ov_chunkSize d) off len"
  let ?delta = "\<lambda>i. snd (projr (stage_chunk d off len data zero i))"
  have P: "length p = len" "p \<noteq> []" using data len by (auto simp: p update_payload_def)
  have idx: "i * ov_chunkSize d < ov_size d" if "i \<in> set ?idx" for i
    using touched_bounds [OF _ len that] inv range by (simp add: overlay_inv_def)
  from stage_chunks_total [OF inv idx] obtain us dirty where
    st: "stage_chunks d off len data zero ?idx (ov_dirtyBytes d) = Inr (us, dirty)" by blast
  have "?delta i = chunk_charge d off p i" if i: "i \<in> set ?idx" for i
  proof -
    obtain u cl delta where s: "stage_chunk d off len data zero i = Inr ((u, cl), delta)"
      using stage_chunk_total [OF inv idx [OF i], of off len data zero] by auto
    from stage_chunk_ok [OF inv len range data i s] s show ?thesis by (simp add: p)
  qed
  then have "dirty = ov_dirtyBytes d + write_charge d off p"
    using stage_chunks_Inr [OF st] write_charge_touched [OF inv P(2)] P(1) range
      sum_list_distinct_conv_sum_set [OF distinct_touched, of ?delta] by simp
  with st show ?thesis by (auto simp: updateLocked_def)
qed

subsection \<open>Properties\<close>

text \<open>The overlay of the witnesses: eight base bytes, chunks of four, room for both chunks.\<close>

definition sample_overlay :: overlayBlockDevice where
  "sample_overlay = (case blockOverlay (bytes_device [1,2,3,4,5,6,7,8]) 8 4 2 of Inr d \<Rightarrow> d)"

lemma sample_overlay_new: "blockOverlay (bytes_device [1,2,3,4,5,6,7,8]) 8 4 2 = Inr sample_overlay"
  by (simp add: sample_overlay_def blockOverlay_def newOverlayBlockDevice_def bytes_device_def Let_def)

lemma sample_overlay_contents: "overlay_contents sample_overlay = [1,2,3,4,5,6,7,8]"
proof -
  obtain d0 where "newOverlayBlockDevice (bytes_device [1,2,3,4,5,6,7,8]) 8 4 = Inr d0"
    and d: "sample_overlay = d0\<lparr>ov_traceLimit := 2\<rparr>"
    using sample_overlay_new by (auto simp: blockOverlay_def split: sum.splits)
  with newOverlay_inv [of "bytes_device [1,2,3,4,5,6,7,8]" 8 4 d0] show ?thesis
    unfolding d by simp
qed

text \<open>
  C6. The overlay refines an array of bytes. Start from a base device that serves its bytes; whatever
  sequence of \<open>WriteAt\<close> calls the client issues, going on after refused ones, every later in-range
  \<open>ReadAt\<close> returns, without error, the bytes an array holds that was initialised with the base and
  received exactly the accepted writes, in their order.
\<close>

theorem overlay_refines_array:
  assumes "blockOverlay base maxDirty chunkSize traceOperations = Inr d" and "device_faithful base"
    and "run_writes overlay_WriteAt d ws = (took, t)"
    and "0 \<le> off" and "off + int n \<le> geo_Size (dev_Geometry base)"
  shows "fst (overlay_ReadAt t n off)
    = (segment (nat off) n (apply_writes (base_bytes base) took), None)"
proof -
  from assms(1) obtain d0 where new: "newOverlayBlockDevice base maxDirty chunkSize = Inr d0"
    and d: "d = d0\<lparr>ov_traceLimit := nat traceOperations\<rparr>"
    by (auto simp: blockOverlay_def split: sum.splits if_splits)
  note d0 = newOverlay_inv [OF new assms(2)]
  then have inv: "overlay_inv d" and c: "overlay_contents d = base_bytes base" by (simp_all add: d)
  note t = overlay.run_writes_refines [OF inv assms(3)]
  have "length (overlay_contents t) = length (base_bytes base)" using t c by metis
  also have "\<dots> = nat (geo_Size (dev_Geometry base))" using assms(2) by (simp add: device_faithful_def)
  finally have "nat off + n \<le> length (overlay_contents t)" using assms(4,5) by linarith
  with overlay.read_ok [of t off n] t assms(4) c show ?thesis by simp
qed

theorem overlay_refines_array_witness:
  "snd (fst (overlay_WriteAt sample_overlay [1,1] 7)) \<noteq> None \<and>
   fst (overlay_ReadAt
     (snd (run_writes overlay_WriteAt sample_overlay [(3, [9,9]), (7, [1,1]), (0, [7])])) 6 0)
    = ([7,2,3,9,9,6], None)"
proof -
  let ?run = "run_writes overlay_WriteAt sample_overlay [(3, [9,9]), (7, [1,1]), (0, [7])]"
  have "fst ?run = [(3, [9,9]), (0, [7])]" by code_simp
  then have "?run = ([(3, [9,9]), (0, [7])], snd ?run)" by (metis prod.collapse)
  from overlay_refines_array [OF sample_overlay_new _ this, of 0 6]
  have "fst (overlay_ReadAt (snd ?run) 6 0)
      = (segment 0 6 (apply_writes [1,2,3,4,5,6,7,8] [(3, [9,9]), (0, [7])]), None)"
    by (simp del: run_writes.simps apply_writes.simps)
  also have "segment 0 6 (apply_writes [1,2,3,4,5,6,7,8] [(3, [9,9]), (0, [7])]) = [7,2,3,9,9,6]"
    by code_simp
  finally have "fst (overlay_ReadAt (snd ?run) 6 0) = ([7,2,3,9,9,6], None)" .
  moreover have "snd (fst (overlay_WriteAt sample_overlay [1,1] 7)) \<noteq> None" by code_simp
  ultimately show ?thesis by (rule conjI [rotated])
qed

text \<open>
  C7. The accounting of an in-range write on an overlay that is not sealed. With the charge of the
  write said on the bytes alone (clean chunks it moves away from the base, less dirty chunks it covers
  with the base's bytes), \<open>WriteAt\<close> fails exactly when the dirty bytes plus the charge exceed
  \<open>max_dirty_bytes\<close>. The error then carries the limit, the bytes dirty now and the charge, no byte is
  reported written and the overlay is unchanged; otherwise every byte is written and the dirty bytes
  move by the charge.
\<close>

theorem overlay_write_refused_only_for_capacity:
  assumes "overlay_inv d" and "\<not> ov_sealed d" and "0 \<le> off"
    and "off + int (length p) \<le> geo_Size (dev_Geometry (ov_base d))"
    and "overlay_WriteAt d p off = ((n, e), d')"
  shows "if ov_maxDirty d < ov_dirtyBytes d + write_charge d (nat off) p
    then n = 0 \<and> d' = d \<and> e =
      Some (BlockCapacityError (ov_maxDirty d) (ov_dirtyBytes d) (write_charge d (nat off) p))
    else n = length p \<and> e = None \<and> ov_dirtyBytes d' = ov_dirtyBytes d + write_charge d (nat off) p"
proof (cases "p = []")
  case True
  have "write_charge d (nat off) p = 0"
    unfolding write_charge_def using chunk_charge_empty [OF assms(1)] True by simp
  then show ?thesis using assms True by (auto simp: overlay_WriteAt_def overlay_inv_def)
next
  case False
  have "nat off + length p \<le> ov_size d" using assms(3,4) by linarith
  from updateLocked_charge [OF assms(1) _ this, of False p p] False obtain us where
    "updateLocked d (nat off) (length p) p False =
      (if ov_maxDirty d < ov_dirtyBytes d + write_charge d (nat off) p
       then (Some (BlockCapacityError (ov_maxDirty d) (ov_dirtyBytes d)
          (write_charge d (nat off) p)), d)
       else (None, (commit_updates us d)
         \<lparr>ov_dirtyBytes := ov_dirtyBytes d + write_charge d (nat off) p\<rparr>))"
    by (auto simp: update_payload_def)
  with assms(2-5) False show ?thesis by (auto simp: overlay_WriteAt_def split: if_splits)
qed

definition tight_overlay :: overlayBlockDevice where
  "tight_overlay = (case newOverlayBlockDevice (bytes_device [1,2,3,4,5,6,7,8]) 4 4 of Inr d \<Rightarrow> d)"

theorem overlay_write_refused_only_for_capacity_witness:
  "overlay_WriteAt tight_overlay [9,9] 3 = ((0, Some (BlockCapacityError 4 0 8)), tight_overlay) \<and>
   ov_dirtyBytes (snd (overlay_WriteAt tight_overlay [4,9] 3)) = 4"
proof -
  let ?w = "\<lambda>p. overlay_WriteAt tight_overlay p 3"
  have "newOverlayBlockDevice (bytes_device [1,2,3,4,5,6,7,8]) 4 4 = Inr tight_overlay"
    by (simp add: tight_overlay_def newOverlayBlockDevice_def bytes_device_def Let_def)
  from newOverlay_inv [OF this] have inv: "overlay_inv tight_overlay" by simp
  have st: "geo_Size (dev_Geometry (ov_base tight_overlay)) = 8" "\<not> ov_sealed tight_overlay"
    "ov_maxDirty tight_overlay = 4" "ov_dirtyBytes tight_overlay = 0"
    by code_simp+
  have ch: "write_charge tight_overlay 3 [9,9] = 8" "write_charge tight_overlay 3 [4,9] = 4"
    by code_simp+
  have split: "?w p = ((fst (fst (?w p)), snd (fst (?w p))), snd (?w p))" for p by simp
  note rule = overlay_write_refused_only_for_capacity [OF inv st(2) _ _ split]
  have "fst (fst (?w [9,9])) = 0 \<and> snd (?w [9,9]) = tight_overlay \<and>
      snd (fst (?w [9,9])) = Some (BlockCapacityError 4 0 8)"
    using rule [of "[9,9]"] by (simp add: st ch)
  moreover have "ov_dirtyBytes (snd (?w [4,9])) = 4" using rule [of "[4,9]"] by (simp add: st ch)
  ultimately show ?thesis by (metis prod.collapse)
qed

end
