(* ===== verification/Overlay_Sessions.thy ===== *)
theory Overlay_Sessions
  imports Overlay
begin

text \<open>
  The life of an overlay: reads, writes, leases, snapshots and the commit that seals it, in any
  order and any interleaving. A configuration is the overlay and the number of release functions
  that \<open>Acquire\<close> has handed out and that have not been called yet. The properties are invariants
  of every reachable configuration.
\<close>

subsection \<open>Steps\<close>

inductive overlay_step :: "overlayBlockDevice \<times> nat \<Rightarrow> overlayBlockDevice \<times> nat \<Rightarrow> bool" where
  step_read: "overlay_ReadAt d n off = (r, d') \<Longrightarrow> overlay_step (d, k) (d', k)"
| step_write: "overlay_WriteAt d p off = (r, d') \<Longrightarrow> overlay_step (d, k) (d', k)"
| step_zero: "overlay_ZeroAt d off len = (e, d') \<Longrightarrow> overlay_step (d, k) (d', k)"
| step_acquire: "overlay_Acquire d = (None, d') \<Longrightarrow> overlay_step (d, k) (d', Suc k)"
| step_acquire_refused: "overlay_Acquire d = (Some e, d') \<Longrightarrow> overlay_step (d, k) (d', k)"
| step_release: "overlay_release False d = (used, d') \<Longrightarrow> overlay_step (d, Suc k) (d', k)"
| step_release_again: "overlay_release True d = (used, d') \<Longrightarrow> overlay_step (d, k) (d', k)"
| step_commit: "overlay_Commit d = (e, d') \<Longrightarrow> overlay_step (d, k) (d', k)"
| step_snapshot: "overlay_Snapshot d = (s, d') \<Longrightarrow> overlay_step (d, k) (d', k)"

inductive overlay_reachable :: "overlayBlockDevice \<times> nat \<Rightarrow> bool" where
  start: "blockOverlay base maxDirty chunkSize traceOperations = Inr d \<Longrightarrow>
    device_faithful base \<Longrightarrow> overlay_reachable (d, 0)"
| step: "overlay_reachable c \<Longrightarrow> overlay_step c c' \<Longrightarrow> overlay_reachable c'"

inductive overlay_run :: "overlayBlockDevice \<times> nat \<Rightarrow> overlayBlockDevice \<times> nat \<Rightarrow> bool" where
  here: "overlay_run c c"
| more: "overlay_run c c' \<Longrightarrow> overlay_step c' c'' \<Longrightarrow> overlay_run c c''"

inductive_cases overlay_stepE: "overlay_step (d, k) c'"

subsection \<open>The bounded operation trace\<close>

definition trace_ok :: "overlayBlockDevice \<Rightarrow> bool" where
  "trace_ok d \<longleftrightarrow> length (ov_trace d) \<le> ov_traceLimit d \<and>
     map op_sequence (ov_trace d)
       = map (\<lambda>j. ov_traceNext d - of_nat j) (rev [0..<length (ov_trace d)])"

lemma rev_upt_Suc_map:
  "map f (rev [0..<Suc n]) = map (\<lambda>j. f (Suc j)) (rev [0..<n]) @ [f 0]"
proof -
  have "rev [0..<Suc n] = map Suc (rev [0..<n]) @ [0]"
    by (simp add: upt_conv_Cons rev_map [symmetric] map_Suc_upt del: upt_Suc)
  then show ?thesis by (simp add: comp_def)
qed

lemma trace_ok_recordOperation:
  assumes "trace_ok d"
  shows "trace_ok (recordOperation kind off len d)"
proof (cases "ov_traceLimit d = 0")
  case True
  with assms show ?thesis by (simp add: recordOperation_def)
next
  case False
  let ?n = "length (ov_trace d)" and ?t = "ov_traceNext d"
  have seq: "map op_sequence (ov_trace d) = map (\<lambda>j. ?t - of_nat j) (rev [0..<?n])"
    and le: "?n \<le> ov_traceLimit d"
    using assms by (auto simp: trace_ok_def)
  have shift: "map (\<lambda>j. ?t + 1 - of_nat j) (rev [0..<Suc m])
      = map (\<lambda>j. ?t - of_nat j) (rev [0..<m]) @ [?t + 1]" for m
    by (simp only: rev_upt_Suc_map) simp
  show ?thesis
  proof (cases "?n < ov_traceLimit d")
    case True
    with False seq shift [of ?n] show ?thesis
      by (simp add: trace_ok_def recordOperation_def Let_def del: upt_Suc)
  next
    case full: False
    with False le obtain m where m: "?n = Suc m" by (cases ?n) auto
    have "map op_sequence (tl (ov_trace d)) = map (\<lambda>j. ?t - of_nat j) (rev [0..<m])"
      using seq by (simp add: m map_tl)
    with False full le shift [of m] m show ?thesis
      by (simp add: trace_ok_def recordOperation_def Let_def del: upt_Suc)
  qed
qed

lemma trace_ok_cong:
  "ov_trace e = ov_trace d \<Longrightarrow> ov_traceNext e = ov_traceNext d \<Longrightarrow>
   ov_traceLimit e = ov_traceLimit d \<Longrightarrow> trace_ok e = trace_ok d"
  by (simp add: trace_ok_def)

subsection \<open>The invariant of reachable configurations\<close>

definition session_inv :: "overlayBlockDevice \<times> nat \<Rightarrow> bool" where
  "session_inv c \<longleftrightarrow> overlay_inv (fst c) \<and> ov_leases (fst c) = int (snd c) \<and>
     (ov_sealed (fst c) \<longrightarrow> snd c = 0) \<and> trace_ok (fst c)"

lemma trace_ok_irrelevant [simp]:
  "trace_ok (d\<lparr>ov_reads := x\<rparr>) = trace_ok d" "trace_ok (d\<lparr>ov_readBytes := x\<rparr>) = trace_ok d"
  "trace_ok (d\<lparr>ov_writes := x\<rparr>) = trace_ok d" "trace_ok (d\<lparr>ov_writeBytes := x\<rparr>) = trace_ok d"
  "trace_ok (d\<lparr>ov_snapshots := x\<rparr>) = trace_ok d" "trace_ok (d\<lparr>ov_generation := x\<rparr>) = trace_ok d"
  "trace_ok (d\<lparr>ov_sealed := b\<rparr>) = trace_ok d" "trace_ok (d\<lparr>ov_leases := z\<rparr>) = trace_ok d"
  by (rule trace_ok_cong; simp)+

lemma updateLocked_trace_ok:
  "updateLocked d off len data zero = (r, d') \<Longrightarrow> trace_ok d' = trace_ok d"
  by (rule trace_ok_cong) (auto dest: updateLocked_frame)

lemma ReadAt_session:
  assumes "overlay_ReadAt d n off = (r, d')" and "trace_ok d"
  shows "trace_ok d'"
  using assms
  by (auto simp: overlay_ReadAt_def trace_ok_recordOperation split: option.splits if_splits prod.splits)

lemma WriteAt_session:
  assumes "overlay_WriteAt d p off = (r, d')"
  shows "ov_sealed d' = ov_sealed d" "ov_leases d' = ov_leases d" "trace_ok d \<Longrightarrow> trace_ok d'"
  using assms
  by (auto simp: overlay_WriteAt_def trace_ok_recordOperation updateLocked_frame updateLocked_trace_ok
      split: option.splits if_splits prod.splits)

lemma ZeroAt_session:
  assumes "overlay_ZeroAt d off len = (r, d')"
  shows "ov_sealed d' = ov_sealed d" "ov_leases d' = ov_leases d" "trace_ok d \<Longrightarrow> trace_ok d'"
  using assms
  by (auto simp: overlay_ZeroAt_def trace_ok_recordOperation updateLocked_frame updateLocked_trace_ok
      split: option.splits if_splits prod.splits)

lemma WriteAt_overlay_inv: "overlay_WriteAt d p off = (r, d') \<Longrightarrow> overlay_inv d \<Longrightarrow> overlay_inv d'"
  by (cases r; cases "snd r") (auto dest: overlay_WriteAt_ok overlay_WriteAt_err)

lemma ZeroAt_overlay_inv: "overlay_ZeroAt d off len = (r, d') \<Longrightarrow> overlay_inv d \<Longrightarrow> overlay_inv d'"
  by (cases r) (auto dest: overlay_ZeroAt_ok overlay_ZeroAt_err)

lemma session_inv_step:
  assumes "overlay_step c c'" and "session_inv c"
  shows "session_inv c'"
  using assms
proof (induction rule: overlay_step.induct)
  case (step_read d n off r d' k)
  then show ?case
    by (simp add: session_inv_def overlay_ReadAt_frame [OF step_read(1)] ReadAt_session [OF step_read(1)])
next
  case (step_write d p off r d' k)
  then show ?case
    by (simp add: session_inv_def WriteAt_session [OF step_write(1)] WriteAt_overlay_inv [OF step_write(1)])
next
  case (step_zero d off len e d' k)
  then show ?case
    by (simp add: session_inv_def ZeroAt_session [OF step_zero(1)] ZeroAt_overlay_inv [OF step_zero(1)])
qed (auto simp: session_inv_def overlay_Acquire_def overlay_release_def overlay_Commit_def
    overlay_Snapshot_def split: if_splits)

lemma session_inv_reachable: "overlay_reachable c \<Longrightarrow> session_inv c"
proof (induction rule: overlay_reachable.induct)
  case (start base maxDirty chunkSize traceOperations d)
  then obtain d0 where "newOverlayBlockDevice base maxDirty chunkSize = Inr d0"
    and "d = d0\<lparr>ov_traceLimit := nat traceOperations\<rparr>"
    by (auto simp: blockOverlay_def split: sum.splits if_splits)
  moreover from this have "ov_trace d = []"
    by (auto simp: newOverlayBlockDevice_def Let_def split: if_splits)
  ultimately show ?case
    using newOverlay_inv [OF _ start(2)] by (simp add: session_inv_def trace_ok_def)
next
  case (step c c')
  then show ?case by (blast intro: session_inv_step)
qed

subsection \<open>A sealed overlay is immutable\<close>

lemma sealed_step:
  assumes "overlay_step c c'" and "ov_sealed (fst c)" and "session_inv c"
  shows "ov_sealed (fst c') \<and> overlay_contents (fst c') = overlay_contents (fst c) \<and> snd c' = 0"
  using assms
proof (induction rule: overlay_step.induct)
  case (step_read d n off r d' k)
  then show ?case by (simp add: session_inv_def overlay_ReadAt_frame [OF step_read(1)])
next
  case (step_write d p off r d' k)
  then have "d' = d"
    by (auto simp: overlay_WriteAt_def split: option.splits if_splits)
  with step_write show ?case by (simp add: session_inv_def)
next
  case (step_zero d off len e d' k)
  then have "d' = d"
    by (auto simp: overlay_ZeroAt_def split: option.splits if_splits)
  with step_zero show ?case by (simp add: session_inv_def)
qed (auto simp: session_inv_def overlay_Acquire_def overlay_release_def overlay_Commit_def
    overlay_Snapshot_def split: if_splits)

lemma sealed_run:
  assumes "overlay_run c c'" and "ov_sealed (fst c)" and "session_inv c"
  shows "ov_sealed (fst c') \<and> overlay_contents (fst c') = overlay_contents (fst c) \<and> session_inv c'"
  using assms
proof (induction rule: overlay_run.induct)
  case (here c)
  then show ?case by simp
next
  case (more c c' c'')
  then show ?case using sealed_step [OF more(2)] session_inv_step [OF more(2)] by auto
qed

subsection \<open>Properties\<close>

text \<open>
  C8. At every moment of every session, in whatever order reads, writes, zeroings, leases,
  snapshots and commits happen: the dirty byte counter is the total length of the chunks held and
  never exceeds \<open>max_dirty_bytes\<close>; every chunk lies inside the device and has the length of its slot;
  the lease counter is the number of releases outstanding; a sealed overlay has none.
\<close>

theorem overlay_reachable_inv:
  assumes "overlay_reachable (d, k)"
  shows "ov_dirtyBytes d = (\<Sum>i\<in>dom (map_of (ov_chunks d)). int (chunkLength d i)) \<and>
    ov_dirtyBytes d \<le> ov_maxDirty d \<and>
    (\<forall>i c. map_of (ov_chunks d) i = Some c \<longrightarrow>
       i * ov_chunkSize d + length (oc_data c) \<le> ov_size d \<and> length (oc_data c) = chunkLength d i) \<and>
    ov_leases d = int k \<and> (ov_sealed d \<longrightarrow> k = 0)"
proof -
  have "overlay_inv d" and k: "ov_leases d = int k" "ov_sealed d \<longrightarrow> k = 0"
    using session_inv_reachable [OF assms] by (auto simp: session_inv_def)
  then have "ov_dirtyBytes d = dirty_sum d" "ov_dirtyBytes d \<le> ov_maxDirty d"
    and ch: "\<And>i c. map_of (ov_chunks d) i = Some c \<Longrightarrow>
      i * ov_chunkSize d < ov_size d \<and> length (oc_data c) = chunkLength d i"
    by (auto simp: overlay_inv_def)
  then show ?thesis using k chunkLength_fits [of _ d] by (fastforce simp: dirty_sum_def)
qed

lemma sample_overlay_reachable: "overlay_reachable (sample_overlay, 0)"
  using overlay_reachable.start [OF sample_overlay_new] by simp

theorem overlay_reachable_inv_witness:
  "ov_dirtyBytes (snd (overlay_WriteAt sample_overlay [9] 5)) \<le> 8 \<and>
   ov_leases (snd (overlay_WriteAt sample_overlay [9] 5)) = 0"
proof -
  have "overlay_step (sample_overlay, 0) (snd (overlay_WriteAt sample_overlay [9] 5), 0)"
    by (rule overlay_step.step_write) (rule surjective_pairing)
  note r = overlay_reachable_inv [OF overlay_reachable.step [OF sample_overlay_reachable this]]
  have "ov_maxDirty (snd (overlay_WriteAt sample_overlay [9] 5)) = 8" by code_simp
  with r show ?thesis by simp
qed

text \<open>
  C9. \<open>Commit\<close> freezes the overlay for good. Once it has succeeded, whatever the clients call
  afterwards, the overlay stays sealed, holds no lease, every in-range read returns the bytes it
  held at the commit, and no write, zeroing, lease or snapshot is accepted.
\<close>

theorem overlay_commit_freezes:
  assumes "overlay_reachable (d, k)" and "overlay_Commit d = (None, d1)"
    and "overlay_run (d1, k) (d2, j)"
  shows "ov_sealed d2 \<and> j = 0 \<and>
    (\<forall>off n. 0 \<le> off \<and> nat off + n \<le> length (overlay_contents d) \<longrightarrow>
       fst (overlay_ReadAt d2 n off) = (segment (nat off) n (overlay_contents d), None)) \<and>
    (\<forall>p off. p \<noteq> [] \<longrightarrow> snd (fst (overlay_WriteAt d2 p off)) \<noteq> None) \<and>
    fst (overlay_Acquire d2) \<noteq> None \<and> (\<exists>e. fst (overlay_Snapshot d2) = Inl e)"
proof -
  have "session_inv (d1, k)"
    using session_inv_step [OF overlay_step.step_commit [OF assms(2)] session_inv_reachable [OF assms(1)]] .
  moreover have "ov_sealed d1" "overlay_contents d1 = overlay_contents d"
    using assms(2) by (auto simp: overlay_Commit_def split: if_splits)
  ultimately have s: "ov_sealed d2" "overlay_contents d2 = overlay_contents d" "session_inv (d2, j)"
    using sealed_run [OF assms(3)] by simp_all
  then have inv: "overlay_inv d2" and "j = 0" by (simp_all add: session_inv_def)
  moreover have "snd (fst (overlay_WriteAt d2 p off)) \<noteq> None" if "p \<noteq> []" for p off
    using that s(1) by (auto simp: overlay_WriteAt_def split: option.split)
  ultimately show ?thesis
    using s overlay_ReadAt_ok [OF inv] by (auto simp: overlay_Acquire_def overlay_Snapshot_def)
qed

theorem overlay_commit_freezes_witness:
  "fst (overlay_ReadAt (snd (overlay_WriteAt (snd (overlay_Commit sample_overlay)) [9] 0)) 2 0) = ([1,2], None)"
proof -
  let ?d1 = "snd (overlay_Commit sample_overlay)"
  have c: "overlay_Commit sample_overlay = (None, ?d1)"
    by (simp add: overlay_Commit_def sample_overlay_def blockOverlay_def newOverlayBlockDevice_def Let_def
        bytes_device_def)
  have "overlay_step (?d1, 0) (snd (overlay_WriteAt ?d1 [9] 0), 0)"
    by (rule overlay_step.step_write) (rule surjective_pairing)
  then have "overlay_run (?d1, 0) (snd (overlay_WriteAt ?d1 [9] 0), 0)"
    by (blast intro: overlay_run.intros)
  moreover have "overlay_contents sample_overlay = [1,2,3,4,5,6,7,8]"
    using sample_overlay_contents .
  ultimately show ?thesis using overlay_commit_freezes [OF sample_overlay_reachable c]
    by (simp add: segment_def)
qed

text \<open>
  C10. A snapshot is the overlay's bytes at the moment it is taken: every in-range read of the
  snapshot returns them, and taking it changes neither the overlay's bytes nor its dirty count.
\<close>

theorem overlay_snapshot_reads:
  assumes "overlay_reachable (d, k)" and "overlay_Snapshot d = (Inr s, d1)"
    and "0 \<le> off" and "nat off + n \<le> length (overlay_contents d)"
  shows "snapshot_ReadAt s n off = (segment (nat off) n (overlay_contents d), None) \<and>
    overlay_contents d1 = overlay_contents d \<and> ov_dirtyBytes d1 = ov_dirtyBytes d"
proof -
  have "overlay_inv d" using session_inv_reachable [OF assms(1)] by (simp add: session_inv_def)
  with overlay_Snapshot_Inr [OF assms(2)] snapshot.read_ok [OF _ assms(3,4)] show ?thesis by auto
qed

theorem overlay_snapshot_reads_witness:
  "snapshot_ReadAt (snapshot_of sample_overlay) 3 2 = ([3,4,5], None)"
proof -
  have "overlay_Snapshot sample_overlay = (Inr (snapshot_of sample_overlay), snd (overlay_Snapshot sample_overlay))"
    by (simp add: overlay_Snapshot_def snapshot_of_def sample_overlay_def blockOverlay_def
        newOverlayBlockDevice_def Let_def bytes_device_def)
  from overlay_snapshot_reads [OF sample_overlay_reachable this, of 2 3] show ?thesis
    by (simp add: sample_overlay_contents segment_def)
qed

text \<open>
  C11. The operation trace of every reachable overlay keeps at most \<open>trace_operations\<close> entries, and they
  are the most recent ones: their sequence numbers are consecutive and end at the last one issued.
\<close>

theorem overlay_trace_recent:
  assumes "overlay_reachable (d, k)"
  shows "length (ov_trace d) \<le> ov_traceLimit d \<and>
    (\<forall>j < length (ov_trace d). op_sequence (ov_trace d ! (length (ov_trace d) - 1 - j)) = ov_traceNext d - of_nat j)"
proof -
  have t: "trace_ok d" using session_inv_reachable [OF assms] by (simp add: session_inv_def)
  have "op_sequence (ov_trace d ! (length (ov_trace d) - 1 - j)) = ov_traceNext d - of_nat j"
    if "j < length (ov_trace d)" for j
  proof -
    let ?n = "length (ov_trace d)"
    have "map op_sequence (ov_trace d) ! (?n - 1 - j)
        = map (\<lambda>j. ov_traceNext d - of_nat j) (rev [0..<?n]) ! (?n - 1 - j)"
      using t by (simp add: trace_ok_def)
    then show ?thesis using that by (simp add: rev_nth)
  qed
  then show ?thesis using t by (simp add: trace_ok_def)
qed

theorem overlay_trace_recent_witness:
  "length (ov_trace (snd (overlay_WriteAt sample_overlay [9] 5))) \<le> 2 \<and>
   op_sequence (ov_trace (snd (overlay_WriteAt sample_overlay [9] 5)) ! 0) = 1"
proof -
  let ?d = "snd (overlay_WriteAt sample_overlay [9] 5)"
  have "overlay_step (sample_overlay, 0) (?d, 0)"
    by (rule overlay_step.step_write) (rule surjective_pairing)
  note r = overlay_trace_recent [OF overlay_reachable.step [OF sample_overlay_reachable this]]
  have "ov_traceLimit ?d = 2" "ov_traceNext ?d = 1" "length (ov_trace ?d) = 1" by code_simp+
  with r show ?thesis by (auto dest: spec [of _ 0])
qed

end
