(* ===== verification/Extent_Spec.thy ===== *)
theory Extent_Spec
  imports Block_Device
begin

text \<open>
  What an allocation map promises (\<open>src/block/device.go\<close>, \<open>Extent\<close> and \<open>Extenter\<close>): extents that
  tile the requested range in order, and unallocated extents only over bytes that read as zero.
  Shared by every device that reports extents.
\<close>

fun tiles :: "int \<Rightarrow> int \<Rightarrow> extent list \<Rightarrow> bool" where
  "tiles a b [] \<longleftrightarrow> a = b"
| "tiles a b (e # es) \<longleftrightarrow> ext_Offset e = a \<and> 0 < ext_Length e \<and> tiles (a + ext_Length e) b es"

text \<open>No two neighbours could be merged.\<close>

fun coalesced :: "extent list \<Rightarrow> bool" where
  "coalesced (e # f # es) \<longleftrightarrow> ext_Allocated e \<noteq> ext_Allocated f \<and> coalesced (f # es)"
| "coalesced _ \<longleftrightarrow> True"

definition hole :: "extent \<Rightarrow> int set" where
  "hole e = (if ext_Allocated e then {} else {ext_Offset e ..< ext_Offset e + ext_Length e})"

definition holes :: "extent list \<Rightarrow> int set" where
  "holes es = (\<Union>e\<in>set es. hole e)"

definition extents_ok :: "device \<Rightarrow> bool" where
  "extents_ok base \<longleftrightarrow>
     (\<forall>f a n. dev_Extents base = Some f \<longrightarrow> cap_Extents (dev_Capabilities base) \<longrightarrow>
        0 \<le> a \<longrightarrow> 0 < n \<longrightarrow> a + n \<le> geo_Size (dev_Geometry base) \<longrightarrow>
        (\<exists>es. f a n = Inr es \<and> tiles a (a + n) es \<and>
              (\<forall>x\<in>holes es. base_bytes base ! nat x = 0)))"

lemma holes_simps [simp]:
  "holes [] = {}" "holes (e # es) = hole e \<union> holes es" "holes (es @ fs) = holes es \<union> holes fs"
  by (simp_all add: holes_def Un_assoc)

lemma tiles_le: "tiles a b es \<Longrightarrow> a \<le> b"
  by (induction es arbitrary: a) (auto, smt (verit))

lemma tiles_append: "tiles a b es \<Longrightarrow> tiles b c fs \<Longrightarrow> tiles a c (es @ fs)"
  by (induction es arbitrary: a) auto

lemma tiles_snoc: "tiles a c (es @ [e]) \<longleftrightarrow>
    tiles a (ext_Offset e) es \<and> 0 < ext_Length e \<and> c = ext_Offset e + ext_Length e"
  by (induction es arbitrary: a) auto

lemma coalesced_snoc: "coalesced (es @ [e]) \<longleftrightarrow>
    coalesced es \<and> (es \<noteq> [] \<longrightarrow> ext_Allocated (last es) \<noteq> ext_Allocated e)"
proof (induction es rule: coalesced.induct)
  case (1 e' f es)
  then show ?case by (cases es) auto
qed auto

lemma holes_tiles: "tiles a b es \<Longrightarrow> x \<in> holes es \<Longrightarrow> a \<le> x \<and> x < b"
proof (induction es arbitrary: a)
  case (Cons e es)
  from Cons.prems have "a + ext_Length e \<le> b" by (auto dest: tiles_le)
  then show ?case using Cons by (fastforce simp: hole_def split: if_splits)
qed simp

end
