(* ===== verification/Overlay_Extents.thy ===== *)
theory Overlay_Extents
  imports Overlay Extent_Spec
begin

text \<open>
  The allocation map of an overlay and of its snapshots (\<open>overlayExtentMap\<close> in
  \<open>src/block/star/overlay.go\<close>) and the dirty extents that \<open>Stats\<close> reports. The sum
  \<open>chunkStart+chunkSize\<close> is the only one of the file that can leave \<open>int64\<close>, so it wraps in the model.
\<close>

subsection \<open>The map\<close>

definition appendExtent :: "extent list \<Rightarrow> extent \<Rightarrow> extent list" where
  "appendExtent out extent =
     (if ext_Length extent \<le> 0 then out
      else if out \<noteq> [] \<and> ext_Offset (last out) + ext_Length (last out) = ext_Offset extent \<and>
              ext_Allocated (last out) = ext_Allocated extent
      then butlast out @ [(last out)\<lparr>ext_Length := ext_Length (last out) + ext_Length extent\<rparr>]
      else out @ [extent])"

fun append_checked ::
    "int \<Rightarrow> int \<Rightarrow> extent list \<Rightarrow> extent list \<Rightarrow> go_error + extent list" where
  "append_checked fin expected [] out =
     (if expected \<noteq> fin
      then Inl (Errorf ''block overlay: base extent map does not cover requested range'')
      else Inr out)"
| "append_checked fin expected (e # es) out =
     (if ext_Offset e \<noteq> expected \<or> ext_Length e \<le> 0 \<or> ext_Length e > fin - expected
      then Inl (Errorf ''block overlay: base extent map does not cover requested range'')
      else append_checked fin (expected + ext_Length e) es (appendExtent out e))"

definition appendBase ::
    "device \<Rightarrow> int \<Rightarrow> int \<Rightarrow> extent list \<Rightarrow> go_error + extent list" where
  "appendBase base start sz out =
     (if sz \<le> 0 then Inr out
      else case dev_Extents base of
        None \<Rightarrow> Inr (appendExtent out \<lparr>ext_Offset = start, ext_Length = sz, ext_Allocated = True\<rparr>)
      | Some provider \<Rightarrow>
          if \<not> cap_Extents (dev_Capabilities base)
          then Inr (appendExtent out \<lparr>ext_Offset = start, ext_Length = sz, ext_Allocated = True\<rparr>)
          else case provider start sz of
            Inl e \<Rightarrow> Inl e
          | Inr extents \<Rightarrow> append_checked (start + sz) start extents out)"

fun extent_loop ::
    "device \<Rightarrow> int \<Rightarrow> int \<Rightarrow> nat list \<Rightarrow> int \<Rightarrow> extent list \<Rightarrow> go_error + extent list" where
  "extent_loop base chunkSize fin [] position out =
     (if position < fin then appendBase base position (fin - position) out else Inr out)"
| "extent_loop base chunkSize fin (index # rest) position out =
     (let chunkStart = int index * chunkSize;
          chunkEnd = min fin (i64 (chunkStart + chunkSize))
      in case (if position < chunkStart
               then appendBase base position (chunkStart - position) out else Inr out) of
           Inl e \<Rightarrow> Inl e
         | Inr out1 \<Rightarrow>
           let position1 = (if position < chunkStart then chunkStart else position)
           in if position1 < chunkEnd
              then extent_loop base chunkSize fin rest chunkEnd
                (appendExtent out1 \<lparr>ext_Offset = position1, ext_Length = chunkEnd - position1,
                                    ext_Allocated = True\<rparr>)
              else extent_loop base chunkSize fin rest position1 out1)"

text \<open>The dirty chunks that meet the range.\<close>

definition dirty_indices :: "nat list \<Rightarrow> int \<Rightarrow> int \<Rightarrow> int \<Rightarrow> nat list" where
  "dirty_indices dirty chunkSize off fin =
     sort (filter (\<lambda>index. int index * chunkSize < fin \<and>
                           i64 (int index * chunkSize + chunkSize) > off) dirty)"

definition overlayExtentMap ::
    "device \<Rightarrow> nat list \<Rightarrow> int \<Rightarrow> int \<Rightarrow> int \<Rightarrow> go_error + extent list" where
  "overlayExtentMap base dirty chunkSize off len =
     (if len = 0 then Inr []
      else extent_loop base chunkSize (off + len)
             (dirty_indices dirty chunkSize off (off + len)) off [])"

definition overlay_Extents :: "overlayBlockDevice \<Rightarrow> int \<Rightarrow> int \<Rightarrow> go_error + extent list" where
  "overlay_Extents d off len =
     (case ValidateRange (geo_Size (dev_Geometry (ov_base d))) off len of
        Some e \<Rightarrow> Inl e
      | None \<Rightarrow> overlayExtentMap (ov_base d) (map fst (ov_chunks d)) (int (ov_chunkSize d)) off len)"

definition snapshot_Extents :: "overlaySnapshot \<Rightarrow> int \<Rightarrow> int \<Rightarrow> go_error + extent list" where
  "snapshot_Extents s off len =
     (case ValidateRange (geo_Size (dev_Geometry (sn_base s))) off len of
        Some e \<Rightarrow> Inl e
      | None \<Rightarrow> overlayExtentMap (sn_base s) (map fst (sn_chunks s)) (int (sn_chunkSize s)) off len)"

subsection \<open>Correctness of the map\<close>

lemma appendExtent_ok:
  assumes "tiles a b out" and "coalesced out" and "ext_Offset e = b" and "0 < ext_Length e"
  shows "tiles a (b + ext_Length e) (appendExtent out e) \<and> coalesced (appendExtent out e) \<and>
    holes (appendExtent out e) = holes out \<union> hole e"
proof (cases out rule: rev_cases)
  case Nil
  with assms show ?thesis by (simp add: appendExtent_def)
next
  case (snoc es l)
  with assms have t: "tiles a (ext_Offset l) es" "0 < ext_Length l" "b = ext_Offset l + ext_Length l"
    and c: "coalesced (es @ [l])"
    by (simp_all add: tiles_snoc)
  show ?thesis
  proof (cases "ext_Allocated l = ext_Allocated e")
    case True
    let ?l = "l\<lparr>ext_Length := ext_Length l + ext_Length e\<rparr>"
    have out: "appendExtent out e = es @ [?l]"
      using snoc assms t True by (simp add: appendExtent_def)
    have "hole ?l = hole l \<union> hole e"
      using True assms(3,4) t by (auto simp: hole_def)
    then show ?thesis
      using t c snoc assms(4) unfolding out by (auto simp: tiles_snoc coalesced_snoc)
  next
    case False
    then have "appendExtent out e = out @ [e]"
      using snoc assms by (simp add: appendExtent_def)
    moreover have "last out = l" using snoc by simp
    ultimately show ?thesis using assms False by (simp add: tiles_snoc coalesced_snoc)
  qed
qed

lemma append_checked_ok:
  assumes "tiles a b out" and "coalesced out" and "tiles b fin es"
  shows "\<exists>out'. append_checked fin b es out = Inr out' \<and> tiles a fin out' \<and> coalesced out' \<and>
    holes out' = holes out \<union> holes es"
  using assms
proof (induction es arbitrary: b out)
  case Nil
  then show ?case by simp
next
  case (Cons e es)
  from Cons.prems(3) have e: "ext_Offset e = b" "0 < ext_Length e" "tiles (b + ext_Length e) fin es"
    by auto
  note step = appendExtent_ok [OF Cons.prems(1,2) e(1,2)]
  from Cons.IH [of "b + ext_Length e" "appendExtent out e"] step e tiles_le [OF e(3)]
  show ?case by (auto simp: Un_assoc)
qed

lemma appendBase_ok:
  assumes "extents_ok base" and "tiles a b out" and "coalesced out"
    and "0 \<le> b" and "0 < n" and "b + n \<le> geo_Size (dev_Geometry base)"
  shows "\<exists>out'. appendBase base b n out = Inr out' \<and> tiles a (b + n) out' \<and> coalesced out' \<and>
    (\<forall>x\<in>holes out'. x \<in> holes out \<or> b \<le> x \<and> x < b + n \<and> base_bytes base ! nat x = 0)"
proof (cases "\<exists>f. dev_Extents base = Some f \<and> cap_Extents (dev_Capabilities base)")
  case False
  let ?e = "\<lparr>ext_Offset = b, ext_Length = n, ext_Allocated = True\<rparr>"
  from False assms(5) have "appendBase base b n out = Inr (appendExtent out ?e)"
    by (auto simp: appendBase_def split: option.splits)
  with appendExtent_ok [OF assms(2,3), of ?e] assms(5) show ?thesis by (simp add: hole_def)
next
  case True
  then obtain f where f: "dev_Extents base = Some f" "cap_Extents (dev_Capabilities base)" by auto
  with assms(1,4-6) obtain es where es: "f b n = Inr es" "tiles b (b + n) es"
    "\<forall>x\<in>holes es. base_bytes base ! nat x = 0"
    unfolding extents_ok_def by blast
  from append_checked_ok [OF assms(2,3) es(2)] obtain out' where
    "append_checked (b + n) b es out = Inr out'" "tiles a (b + n) out'" "coalesced out'"
    "holes out' = holes out \<union> holes es" by blast
  moreover have "\<forall>x\<in>holes es. b \<le> x \<and> x < b + n" using holes_tiles [OF es(2)] by blast
  ultimately show ?thesis using f es assms(5) by (auto simp: appendBase_def)
qed

lemma extent_loop_ok:
  assumes base: "extents_ok base" and "0 < cs" and "0 \<le> pos" and "pos \<le> fin"
    and "fin \<le> geo_Size (dev_Geometry base)" and "fin + cs \<le> max_int64"
    and "tiles a pos out" and "coalesced out"
    and "sorted idxs" and "distinct idxs"
    and "\<And>j. j \<in> set idxs \<Longrightarrow> pos < fin \<and> int j * cs < fin \<and> pos < int j * cs + cs"
  shows "\<exists>out'. extent_loop base cs fin idxs pos out = Inr out' \<and> tiles a fin out' \<and>
    coalesced out' \<and>
    (\<forall>x\<in>holes out'. x \<in> holes out \<or> pos \<le> x \<and> x < fin \<and> base_bytes base ! nat x = 0 \<and>
        (\<forall>j\<in>set idxs. \<not> (int j * cs \<le> x \<and> x < int j * cs + cs)))"
  using assms(3-)
proof (induction idxs arbitrary: pos out)
  case Nil
  show ?case
  proof (cases "pos < fin")
    case True
    with appendBase_ok [OF base Nil.prems(5,6), of "fin - pos"] Nil.prems show ?thesis by simp
  next
    case False
    with Nil.prems show ?thesis by simp
  qed
next
  case (Cons i rest)
  let ?start = "int i * cs" and ?p1 = "max pos (int i * cs)"
  let ?stop = "min fin (?start + cs)"
  let ?dirty = "\<lparr>ext_Offset = ?p1, ext_Length = ?stop - ?p1, ext_Allocated = True\<rparr>"
  have i: "pos < fin" "?start < fin" "pos < ?start + cs" using Cons.prems(9) by auto
  have wrap: "i64 (?start + cs) = ?start + cs"
    using i Cons.prems(1,4) assms(2) by (intro i64_id) simp_all
  have p1: "?p1 < ?stop" "0 \<le> ?p1" using i assms(2) Cons.prems(1,2) by auto
  have pmax: "(if pos < ?start then ?start else pos) = ?p1" by simp
  obtain out1 where o1: "(if pos < ?start then appendBase base pos (?start - pos) out else Inr out)
      = Inr out1" "tiles a ?p1 out1" "coalesced out1"
    "\<And>x. x \<in> holes out1 \<Longrightarrow> x \<in> holes out \<or> pos \<le> x \<and> x < ?start \<and> base_bytes base ! nat x = 0"
  proof (cases "pos < ?start")
    case True
    from appendBase_ok [OF base Cons.prems(5,6,1), of "?start - pos"] True i Cons.prems(3)
    obtain out1 where "appendBase base pos (?start - pos) out = Inr out1" "tiles a ?start out1"
      "coalesced out1" "\<forall>x\<in>holes out1. x \<in> holes out \<or> pos \<le> x \<and> x < ?start \<and> base_bytes base ! nat x = 0"
      by auto
    with True that show ?thesis by simp
  next
    case False
    with Cons.prems(5,6) that show ?thesis by (simp add: max_def)
  qed
  note d = appendExtent_ok [OF o1(2,3), of ?dirty]
  have later: "?start + cs \<le> int j * cs" if "j \<in> set rest" for j
  proof -
    have "i < j" using that Cons.prems(7,8) by (auto simp: le_less)
    then have "int i + 1 \<le> int j" by simp
    then have "(int i + 1) * cs \<le> int j * cs" using assms(2) by (intro mult_right_mono) auto
    then show ?thesis by (simp add: distrib_right)
  qed
  have next_ok: "?stop < fin \<and> int j * cs < fin \<and> ?stop < int j * cs + cs" if "j \<in> set rest" for j
  proof -
    have "int j * cs < fin" using Cons.prems(9) [of j] that by simp
    with later [OF that] assms(2) show ?thesis by (intro conjI; linarith)
  qed
  have "\<exists>out'. extent_loop base cs fin rest ?stop (appendExtent out1 ?dirty) = Inr out' \<and>
      tiles a fin out' \<and> coalesced out' \<and>
      (\<forall>x\<in>holes out'. x \<in> holes (appendExtent out1 ?dirty) \<or> ?stop \<le> x \<and> x < fin \<and>
        base_bytes base ! nat x = 0 \<and> (\<forall>j\<in>set rest. \<not> (int j * cs \<le> x \<and> x < int j * cs + cs)))"
    using d p1 Cons.prems(1-4,7,8) next_ok by (intro Cons.IH) simp_all
  moreover have "extent_loop base cs fin (i # rest) pos out
      = extent_loop base cs fin rest ?stop (appendExtent out1 ?dirty)"
    by (simp only: extent_loop.simps Let_def wrap o1(1) pmax sum.case p1(1) if_True)
  moreover have "x \<in> holes out \<or> pos \<le> x \<and> x < fin \<and> base_bytes base ! nat x = 0 \<and>
      (\<forall>j\<in>set (i # rest). \<not> (int j * cs \<le> x \<and> x < int j * cs + cs))"
    if "x \<in> holes (appendExtent out1 ?dirty)" for x
  proof -
    from that d p1 have "x \<in> holes out1" by (simp add: hole_def)
    from o1(4) [OF this] show ?thesis using i assms(2) later by fastforce
  qed
  moreover have "\<not> (int i * cs \<le> x \<and> x < int i * cs + cs)" if "?stop \<le> x" "x < fin" for x
    using that by auto
  ultimately show ?case using p1 by (smt (verit, best) set_ConsD)
qed

lemma overlayExtentMap_ok:
  assumes inv: "overlay_inv d" and base: "extents_ok (ov_base d)" and "0 \<le> off" and "0 \<le> len"
    and "off + len \<le> geo_Size (dev_Geometry (ov_base d))"
    and "geo_Size (dev_Geometry (ov_base d)) + int (ov_chunkSize d) \<le> max_int64"
  shows "\<exists>es. overlayExtentMap (ov_base d) (map fst (ov_chunks d)) (int (ov_chunkSize d)) off len = Inr es \<and>
    tiles off (off + len) es \<and> coalesced es \<and>
    (\<forall>x\<in>holes es. map_of (ov_chunks d) (nat x div ov_chunkSize d) = None \<and> overlay_contents d ! nat x = 0)"
proof (cases "len = 0")
  case True
  then show ?thesis by (simp add: overlayExtentMap_def)
next
  case False
  let ?cs = "int (ov_chunkSize d)" and ?fin = "off + len"
  let ?idxs = "dirty_indices (map fst (ov_chunks d)) ?cs off ?fin"
  have cs: "0 < ?cs" and dist: "distinct (map fst (ov_chunks d))"
    using inv by (simp_all add: overlay_inv_def)
  have wrap: "i64 (int j * ?cs + ?cs) = int j * ?cs + ?cs" if "int j * ?cs < ?fin" for j
    using that assms(3-6) by (intro i64_nonneg) simp_all
  have idx: "j \<in> set ?idxs \<longleftrightarrow> j \<in> fst ` set (ov_chunks d) \<and> int j * ?cs < ?fin \<and> off < int j * ?cs + ?cs" for j
    using wrap [of j] by (auto simp: dirty_indices_def)
  have sd: "sorted ?idxs" "distinct ?idxs"
    using dist by (simp_all add: dirty_indices_def)
  have fits: "off \<le> ?fin" "?fin + ?cs \<le> max_int64" using assms(4-6) by linarith+
  have meets: "off < ?fin \<and> int j * ?cs < ?fin \<and> off < int j * ?cs + ?cs" if "j \<in> set ?idxs" for j
    using that assms(4) False by (simp add: idx)
  have "tiles off off []" "coalesced []" by simp_all
  from extent_loop_ok [OF base cs assms(3) fits(1) assms(5) fits(2) this sd meets] obtain es where
    es: "extent_loop (ov_base d) ?cs ?fin ?idxs off [] = Inr es" "tiles off ?fin es" "coalesced es"
    and h: "\<And>x. x \<in> holes es \<Longrightarrow> off \<le> x \<and> x < ?fin \<and> base_bytes (ov_base d) ! nat x = 0 \<and>
      (\<forall>j\<in>set ?idxs. \<not> (int j * ?cs \<le> x \<and> x < int j * ?cs + ?cs))"
    by (simp only: holes_simps empty_iff simp_thms) blast
  have "map_of (ov_chunks d) (nat x div ov_chunkSize d) = None \<and> overlay_contents d ! nat x = 0"
    if "x \<in> holes es" for x
  proof -
    let ?j = "nat x div ov_chunkSize d"
    note hx = h [OF that]
    have "int (?j * ov_chunkSize d) \<le> x" "x < int (?j * ov_chunkSize d) + ?cs"
      using hx assms(3) cs div_block_le [of "nat x" "ov_chunkSize d"]
        div_block_lt [of "ov_chunkSize d" "nat x"] by linarith+
    then have j: "int ?j * ?cs \<le> x" "x < int ?j * ?cs + ?cs" by (simp_all only: of_nat_mult)
    have "?j \<notin> set ?idxs" using hx j by blast
    with hx j have "?j \<notin> fst ` set (ov_chunks d)" unfolding idx by linarith
    then have none: "map_of (ov_chunks d) ?j = None" by (simp add: map_of_eq_None_iff)
    have "nat x < ov_size d" using hx assms(3,5) by linarith
    with none hx show ?thesis by (simp add: overlay_byte_def)
  qed
  with es False show ?thesis by (auto simp: overlayExtentMap_def)
qed


lemma overlay_Extents_ok:
  assumes "overlay_inv d" and "extents_ok (ov_base d)" and "0 \<le> off" and "0 \<le> len"
    and "off + len \<le> geo_Size (dev_Geometry (ov_base d))"
    and "geo_Size (dev_Geometry (ov_base d)) + int (ov_chunkSize d) \<le> max_int64"
  shows "\<exists>es. overlay_Extents d off len = Inr es \<and> tiles off (off + len) es \<and> coalesced es \<and>
    (\<forall>x\<in>holes es. map_of (ov_chunks d) (nat x div ov_chunkSize d) = None \<and> overlay_contents d ! nat x = 0)"
  using overlayExtentMap_ok [OF assms] assms(3-5) by (simp add: overlay_Extents_def)

lemma snapshot_Extents_eq: "snapshot_Extents (snapshot_of d) off len = overlay_Extents d off len"
  by (simp add: snapshot_Extents_def overlay_Extents_def snapshot_of_def case_prod_beta' comp_def split: option.split)

subsection \<open>Statistics\<close>












subsection \<open>Properties\<close>

text \<open>
  C12. The allocation map of an overlay is complete and sound. If the base either has no map or has one
  that tiles what it is asked for and calls only zero bytes unallocated, then for every in-range
  request \<open>Extents\<close> succeeds; its extents tile the range in order, no two neighbours could be merged,
  and a byte reported unallocated is not dirty and reads as zero. (The device and one chunk fit
  \<open>int64\<close>, so the sum \<open>chunkStart+chunkSize\<close> does not wrap.)
\<close>

theorem overlay_Extents_sound:
  assumes "overlay_inv d" and "extents_ok (ov_base d)" and "0 \<le> off" and "0 \<le> len"
    and "off + len \<le> geo_Size (dev_Geometry (ov_base d))"
    and "geo_Size (dev_Geometry (ov_base d)) + int (ov_chunkSize d) \<le> max_int64"
  shows "\<exists>es. overlay_Extents d off len = Inr es \<and> tiles off (off + len) es \<and> coalesced es \<and>
    (\<forall>x\<in>holes es. map_of (ov_chunks d) (nat x div ov_chunkSize d) = None \<and>
                  overlay_contents d ! nat x = 0)"
  by (rule overlay_Extents_ok [OF assms])

lemma overlay_WriteAt_base: "overlay_WriteAt d p off = (r, d') \<Longrightarrow> ov_base d' = ov_base d"
  by (auto simp: overlay_WriteAt_def updateLocked_frame split: option.splits if_splits prod.splits)

text \<open>A base of eight zero bytes with an honest allocation map.\<close>

definition zero_device :: device where
  "zero_device = (bytes_device (replicate 8 0))
     \<lparr>dev_Capabilities := no_capabilities\<lparr>cap_Extents := True\<rparr>,
      dev_Extents := Some (\<lambda>off n. Inr [\<lparr>ext_Offset = off, ext_Length = n, ext_Allocated = False\<rparr>])\<rparr>"

lemma zero_device_ok: "device_faithful zero_device" "extents_ok zero_device"
proof -
  have "base_bytes zero_device = replicate 8 0" "device_faithful zero_device"
    using bytes_device_ok [of "replicate 8 0"]
    by (simp_all add: zero_device_def base_bytes_def device_faithful_def)
  then show "device_faithful zero_device" "extents_ok zero_device"
    by (auto simp: extents_ok_def zero_device_def hole_def)
qed

definition zero_overlay :: overlayBlockDevice where
  "zero_overlay = (case newOverlayBlockDevice zero_device 8 2 of Inr d \<Rightarrow> d)"

lemma zero_overlay_inv: "overlay_inv (snd (overlay_WriteAt zero_overlay [1] 3))"
proof -
  have "newOverlayBlockDevice zero_device 8 2 = Inr zero_overlay"
    by (simp add: zero_overlay_def newOverlayBlockDevice_def zero_device_def bytes_device_def Let_def)
  from newOverlay_inv [OF this zero_device_ok(1)] have "overlay_inv zero_overlay" by simp
  moreover have "fst (overlay_WriteAt zero_overlay [1] 3) = (1, None)" by code_simp
  ultimately show ?thesis
    using overlay_WriteAt_ok [of zero_overlay "[1]" 3 1 "snd (overlay_WriteAt zero_overlay [1] 3)"]
    by (metis prod.collapse)
qed

theorem overlay_Extents_sound_witness:
  "overlay_Extents (snd (overlay_WriteAt zero_overlay [1] 3)) 0 8
     = Inr [\<lparr>ext_Offset = 0, ext_Length = 2, ext_Allocated = False\<rparr>,
            \<lparr>ext_Offset = 2, ext_Length = 2, ext_Allocated = True\<rparr>,
            \<lparr>ext_Offset = 4, ext_Length = 4, ext_Allocated = False\<rparr>] \<and>
   (\<exists>es. overlay_Extents (snd (overlay_WriteAt zero_overlay [1] 3)) 0 8 = Inr es \<and> tiles 0 8 es)"
proof -
  let ?d = "snd (overlay_WriteAt zero_overlay [1] 3)"
  have "ov_base zero_overlay = zero_device"
    by (simp add: zero_overlay_def newOverlayBlockDevice_def zero_device_def bytes_device_def Let_def)
  then have "ov_base ?d = zero_device"
    by (simp add: overlay_WriteAt_base [OF surjective_pairing])
  moreover have "ov_chunkSize ?d = 2" by code_simp
  moreover have "overlay_Extents ?d 0 8
     = Inr [\<lparr>ext_Offset = 0, ext_Length = 2, ext_Allocated = False\<rparr>,
            \<lparr>ext_Offset = 2, ext_Length = 2, ext_Allocated = True\<rparr>,
            \<lparr>ext_Offset = 4, ext_Length = 4, ext_Allocated = False\<rparr>]" by code_simp
  ultimately show ?thesis
    using overlay_Extents_sound [OF zero_overlay_inv, of 0 8] zero_device_ok(2)
    by (auto simp: zero_device_def)
qed



end
