(* ===== verification/Memory_Store.thy ===== *)
theory Memory_Store
  imports Store_Spec
begin

text \<open>
  \<open>src/storage/memory_store.go\<close>: the bounded, paged, volatile store and its snapshots. Snapshots share
  page objects with the store, so the model keeps Go's pointers: a heap is the list of all page
  objects ever allocated, a \<open>*memoryPage\<close> is an index into it, and a page map is an association
  list from page index to that address. Updates in place change the heap; that a snapshot never sees
  them is a theorem and not built in.
\<close>

subsection \<open>State\<close>

abbreviation memoryPageBytes :: nat where "memoryPageBytes \<equiv> 65536"

abbreviation ErrStoreLimit :: go_error where
  "ErrStoreLimit \<equiv> Errorf ''memory store byte limit exceeded''"

abbreviation ErrStoreClosed :: go_error where
  "ErrStoreClosed \<equiv> Errorf ''memory store is closed''"

record memoryPage =
  mp_data :: bytes
  mp_shared :: bool

type_synonym page_heap = "memoryPage list"
type_synonym page_map = "(nat \<times> nat) list"

record MemoryStore =
  ms_pages :: page_map
  ms_size :: int
  ms_limit :: int
  ms_closed :: bool

record memorySnapshot =
  sp_pages :: page_map
  sp_size :: int

subsection \<open>Operations\<close>

definition NewMemoryStore :: "int \<Rightarrow> MemoryStore" where
  "NewMemoryStore limit = \<lparr>ms_pages = [], ms_size = 0, ms_limit = limit, ms_closed = False\<rparr>"

definition MemoryStore_Length :: "MemoryStore \<Rightarrow> int \<times> go_error option" where
  "MemoryStore_Length m = (if ms_closed m then (0, Some ErrStoreClosed) else (ms_size m, None))"

definition MemoryStore_Sync :: "MemoryStore \<Rightarrow> go_error option" where
  "MemoryStore_Sync m = (if ms_closed m then Some ErrStoreClosed else None)"

definition MemoryStore_Close :: "MemoryStore \<Rightarrow> MemoryStore" where
  "MemoryStore_Close m = m\<lparr>ms_closed := True, ms_pages := []\<rparr>"

text \<open>The page a write goes to: fresh, copied because a snapshot shares it, or the present one.\<close>

definition writable_page :: "page_heap \<Rightarrow> page_map \<Rightarrow> nat \<Rightarrow> page_heap \<times> page_map \<times> nat" where
  "writable_page h pages index =
     (case map_of pages index of
        None \<Rightarrow> (h @ [\<lparr>mp_data = replicate memoryPageBytes 0, mp_shared = False\<rparr>],
                 AList.update index (length h) pages, length h)
      | Some a \<Rightarrow>
          if mp_shared (h ! a)
          then (h @ [\<lparr>mp_data = mp_data (h ! a), mp_shared = False\<rparr>],
                AList.update index (length h) pages, length h)
          else (h, pages, a))"

definition page_copy :: "nat \<Rightarrow> bytes \<Rightarrow> memoryPage \<Rightarrow> memoryPage" where
  "page_copy at p page = page\<lparr>mp_data := overwrite at (take (length (mp_data page) - at) p) (mp_data page)\<rparr>"

function write_pages :: "page_heap \<Rightarrow> page_map \<Rightarrow> bytes \<Rightarrow> nat \<Rightarrow> page_heap \<times> page_map" where
  "write_pages h pages p off =
     (if p = [] then (h, pages)
      else let (h1, pages1, a) = writable_page h pages (off div memoryPageBytes);
               count = min (memoryPageBytes - off mod memoryPageBytes) (length p)
           in write_pages (h1[a := page_copy (off mod memoryPageBytes) p (h1 ! a)]) pages1
                (drop count p) (off + count))"
  by pat_completeness auto
termination
  by (relation "measure (\<lambda>(h, pages, p, off). length p)") auto

declare write_pages.simps [simp del]

definition MemoryStore_WriteAt ::
    "page_heap \<Rightarrow> MemoryStore \<Rightarrow> bytes \<Rightarrow> int \<Rightarrow> (nat \<times> go_error option) \<times> page_heap \<times> MemoryStore" where
  "MemoryStore_WriteAt h m p off =
     (if ms_closed m then ((0, Some ErrStoreClosed), h, m)
      else if off < 0 \<or> int (length p) > max_int64 - off
      then ((0, Some (Errorf ''invalid write range'')), h, m)
      else if p = [] then ((0, None), h, m)
      else let end' = off + int (length p) in
        if ms_limit m < 0 \<or> end' > ms_limit m then ((0, Some ErrStoreLimit), h, m)
        else let (h', pages') = write_pages h (ms_pages m) p (nat off)
             in ((length p, None), h', m\<lparr>ms_pages := pages', ms_size := max (ms_size m) end'\<rparr>))"

function read_pages :: "page_heap \<Rightarrow> page_map \<Rightarrow> nat \<Rightarrow> nat \<Rightarrow> bytes" where
  "read_pages h pages remaining off =
     (if remaining = 0 then []
      else let n = min remaining (memoryPageBytes - off mod memoryPageBytes);
               dst = (case map_of pages (off div memoryPageBytes) of
                        Some a \<Rightarrow> segment (off mod memoryPageBytes) n (mp_data (h ! a))
                      | None \<Rightarrow> replicate n 0)
           in dst @ read_pages h pages (remaining - n) (off + n))"
  by pat_completeness auto
termination
  by (relation "measure (\<lambda>(h, pages, remaining, off). remaining)") auto

declare read_pages.simps [simp del]

definition readMemory :: "page_heap \<Rightarrow> page_map \<Rightarrow> int \<Rightarrow> reader_at" where
  "readMemory h pages sz n off =
     (if off < 0 then ([], Some (Errorf ''negative read offset''))
      else if n = 0 then ([], None)
      else if off \<ge> sz then ([], Some EOF)
      else let count = min (int n) (sz - off);
               bs = read_pages h pages (nat count) (nat off)
           in (bs, if count < int n then Some EOF else None))"

definition MemoryStore_ReadAt :: "page_heap \<Rightarrow> MemoryStore \<Rightarrow> reader_at" where
  "MemoryStore_ReadAt h m n off =
     (if ms_closed m then ([], Some ErrStoreClosed) else readMemory h (ms_pages m) (ms_size m) n off)"

text \<open>The loop of \<open>Truncate\<close> over the page map; each iteration touches only its own entry.\<close>

fun truncate_pages :: "nat \<Rightarrow> page_heap \<Rightarrow> page_map \<Rightarrow> page_heap \<times> page_map" where
  "truncate_pages sz h [] = (h, [])"
| "truncate_pages sz h ((index, a) # pages) =
     (if index * memoryPageBytes \<ge> sz then truncate_pages sz h pages
      else if sz - index * memoryPageBytes < memoryPageBytes
      then let (h1, a1) = (if mp_shared (h ! a)
                           then (h @ [\<lparr>mp_data = mp_data (h ! a), mp_shared = False\<rparr>], length h)
                           else (h, a));
               at = sz mod memoryPageBytes;
               cleared = (h1 ! a1)\<lparr>mp_data := take at (mp_data (h1 ! a1)) @
                                            replicate (length (mp_data (h1 ! a1)) - at) 0\<rparr>;
               (h2, rest) = truncate_pages sz (h1[a1 := cleared]) pages
           in (h2, (index, a1) # rest)
      else let (h2, rest) = truncate_pages sz h pages in (h2, (index, a) # rest))"

definition MemoryStore_Truncate ::
    "page_heap \<Rightarrow> MemoryStore \<Rightarrow> int \<Rightarrow> go_error option \<times> page_heap \<times> MemoryStore" where
  "MemoryStore_Truncate h m sz =
     (if ms_closed m then (Some ErrStoreClosed, h, m)
      else if sz < 0 then (Some (Errorf ''negative store length''), h, m)
      else if ms_limit m < 0 \<or> sz > ms_limit m then (Some ErrStoreLimit, h, m)
      else let (h', pages') = (if sz < ms_size m then truncate_pages (nat sz) h (ms_pages m)
                               else (h, ms_pages m))
           in (None, h', m\<lparr>ms_pages := pages', ms_size := sz\<rparr>))"

fun share_pages :: "page_map \<Rightarrow> page_heap \<Rightarrow> page_heap" where
  "share_pages [] h = h"
| "share_pages ((index, a) # pages) h = share_pages pages (h[a := (h ! a)\<lparr>mp_shared := True\<rparr>])"

definition MemoryStore_Snapshot ::
    "page_heap \<Rightarrow> MemoryStore \<Rightarrow> (go_error + memorySnapshot) \<times> page_heap" where
  "MemoryStore_Snapshot h m =
     (if ms_closed m then (Inl ErrStoreClosed, h)
      else (Inr \<lparr>sp_pages = ms_pages m, sp_size = ms_size m\<rparr>, share_pages (ms_pages m) h))"

definition memorySnapshot_ReadAt :: "page_heap \<Rightarrow> memorySnapshot \<Rightarrow> reader_at" where
  "memorySnapshot_ReadAt h s n off = readMemory h (sp_pages s) (sp_size s) n off"

subsection \<open>Bytes behind a page map\<close>

declare map_of_eq_Some_iff [simp del]

definition page_byte :: "page_heap \<Rightarrow> page_map \<Rightarrow> nat \<Rightarrow> byte" where
  "page_byte h pages k =
     (case map_of pages (k div memoryPageBytes) of
        Some a \<Rightarrow> mp_data (h ! a) ! (k mod memoryPageBytes)
      | None \<Rightarrow> 0)"

definition page_contents :: "page_heap \<Rightarrow> page_map \<Rightarrow> int \<Rightarrow> bytes" where
  "page_contents h pages sz = map (page_byte h pages) [0..<nat sz]"

definition pages_ok :: "page_heap \<Rightarrow> page_map \<Rightarrow> bool" where
  "pages_ok h pages \<longleftrightarrow> distinct (map fst pages) \<and>
     (\<forall>i a. map_of pages i = Some a \<longrightarrow> a < length h \<and> length (mp_data (h ! a)) = memoryPageBytes)"

definition unaliased :: "page_map \<Rightarrow> bool" where
  "unaliased pages \<longleftrightarrow>
     (\<forall>i j a. map_of pages i = Some a \<longrightarrow> map_of pages j = Some a \<longrightarrow> i = j)"

lemma length_page_contents [simp]: "length (page_contents h pages sz) = nat sz"
  by (simp add: page_contents_def)

lemma block_slot:
  "x < cs \<Longrightarrow> (i * cs + x) div cs = (i :: nat)" "x < cs \<Longrightarrow> (i * cs + x) mod cs = x"
  by simp_all

lemma read_pages_ok:
  assumes "pages_ok h pages"
  shows "read_pages h pages n off = map (page_byte h pages) [off..<off + n]"
  using assms
proof (induction h pages n off rule: read_pages.induct)
  case (1 h pages remaining off)
  define w where "w = off mod memoryPageBytes"
  define i where "i = off div memoryPageBytes"
  define n where "n = min remaining (memoryPageBytes - w)"
  have w: "w < memoryPageBytes" and off: "off = i * memoryPageBytes + w"
    by (simp_all add: w_def i_def)
  show ?case
  proof (cases "remaining = 0")
    case True
    then show ?thesis by (simp add: read_pages.simps)
  next
    case False
    have slot: "(off + j) div memoryPageBytes = i" "(off + j) mod memoryPageBytes = w + j"
      if "j < n" for j
    proof -
      have "w + j < memoryPageBytes" using that w unfolding n_def by linarith
      then show "(off + j) div memoryPageBytes = i" "(off + j) mod memoryPageBytes = w + j"
        unfolding off add.assoc by (rule block_slot)+
    qed
    have "(case map_of pages i of
            Some a \<Rightarrow> segment w n (mp_data (h ! a)) | None \<Rightarrow> replicate n 0)
        = map (page_byte h pages) [off..<off + n]" (is "?l = ?r")
    proof (rule nth_equalityI)
      show "length ?l = length ?r"
        using 1(2) by (auto simp: pages_ok_def n_def split: option.split)
      show "?l ! j = ?r ! j" if "j < length ?l" for j
      proof -
        have j: "j < n" using that 1(2) by (auto simp: pages_ok_def split: option.splits)
        with slot [OF j] w 1(2) show ?thesis
          by (auto simp: page_byte_def pages_ok_def n_def split: option.split)
      qed
    qed
    moreover have "[off..<off + remaining] = [off..<off + n] @ [off + n..<off + remaining]"
      using upt_add_eq_append [of off "off + n" "remaining - n"] by (simp add: n_def)
    moreover have "read_pages h pages (remaining - n) (off + n)
        = map (page_byte h pages) [off + n..<off + n + (remaining - n)]"
      using 1(1) [OF False] 1(2) by (simp add: n_def w_def)
    moreover have "read_pages h pages remaining off = (case map_of pages i of
        Some a \<Rightarrow> segment w n (mp_data (h ! a)) | None \<Rightarrow> replicate n 0)
        @ read_pages h pages (remaining - n) (off + n)"
      by (subst read_pages.simps) (simp only: False if_False Let_def n_def w_def i_def)
    ultimately show ?thesis by (simp add: n_def)
  qed
qed


lemma readMemory_ok:
  assumes "pages_ok h pages" and "0 \<le> off" and "nat off + n \<le> nat sz"
  shows "readMemory h pages sz n off = (segment (nat off) n (page_contents h pages sz), None)"
proof (cases "n = 0")
  case True
  with assms show ?thesis by (simp add: readMemory_def)
next
  case False
  with assms(2,3) have "off < sz" "int n \<le> sz - off" by linarith+
  moreover have "map (page_byte h pages) [nat off..<nat off + n] = segment (nat off) n (page_contents h pages sz)"
    using assms(3) by (intro segment_eqI [symmetric]) (simp_all add: page_contents_def)
  ultimately show ?thesis
    using assms False by (simp add: readMemory_def Let_def min_def read_pages_ok)
qed

subsection \<open>Writing\<close>

text \<open>
  What a mutating step promises about the page objects: those a snapshot may look at (shared, or no
  longer owned by the store) are untouched, flags never change, and new entries are new objects.
\<close>

definition heap_frame :: "page_heap \<Rightarrow> page_map \<Rightarrow> page_heap \<Rightarrow> page_map \<Rightarrow> bool" where
  "heap_frame h pages h' pages' \<longleftrightarrow> length h \<le> length h' \<and>
     (\<forall>a < length h. mp_shared (h' ! a) = mp_shared (h ! a) \<and>
        (mp_shared (h ! a) \<or> a \<notin> ran (map_of pages) \<longrightarrow> h' ! a = h ! a)) \<and>
     (\<forall>a \<in> ran (map_of pages'). a \<in> ran (map_of pages) \<or> length h \<le> a)"

lemma heap_frame_refl [simp]: "heap_frame h pages h pages"
  by (simp add: heap_frame_def)

lemma heap_frame_trans:
  assumes "heap_frame h p h1 p1" and "heap_frame h1 p1 h2 p2"
  shows "heap_frame h p h2 p2"
proof -
  have le: "length h \<le> length h1" "length h1 \<le> length h2"
    using assms by (simp_all add: heap_frame_def)
  have "mp_shared (h2 ! a) = mp_shared (h ! a) \<and>
      (mp_shared (h ! a) \<or> a \<notin> ran (map_of p) \<longrightarrow> h2 ! a = h ! a)" if "a < length h" for a
    using assms that le unfolding heap_frame_def by (metis leD less_le_trans)
  moreover have "a \<in> ran (map_of p) \<or> length h \<le> a" if "a \<in> ran (map_of p2)" for a
    using assms that le unfolding heap_frame_def by (meson le_trans)
  ultimately show ?thesis using le unfolding heap_frame_def by (meson le_trans)
qed

lemma fresh_page_ok:
  assumes ok: "pages_ok h pages" and un: "unaliased pages" and d: "length d = memoryPageBytes"
    and same: "\<And>k. k < memoryPageBytes \<Longrightarrow> d ! k = page_byte h pages (i * memoryPageBytes + k)"
  defines "h1 \<equiv> h @ [\<lparr>mp_data = d, mp_shared = False\<rparr>]"
    and "pages1 \<equiv> AList.update i (length h) pages"
  shows "pages_ok h1 pages1" "unaliased pages1" "heap_frame h pages h1 pages1"
    "map_of pages1 i = Some (length h)" "\<not> mp_shared (h1 ! length h)" "length h < length h1"
    "page_byte h1 pages1 = page_byte h pages"
proof -
  have lt: "a < length h" if "map_of pages j = Some a" for j a
    using ok that by (simp add: pages_ok_def)
  have m: "map_of pages1 = (map_of pages)(i \<mapsto> length h)" by (simp add: pages1_def update_conv')
  have "b < length h1 \<and> length (mp_data (h1 ! b)) = memoryPageBytes"
    if "map_of pages1 j = Some b" for j b
    using that ok d unfolding m by (auto simp: pages_ok_def h1_def nth_append split: if_splits)
  moreover have "distinct (map fst pages1)"
    using ok unfolding pages1_def by (intro distinct_update) (simp add: pages_ok_def)
  ultimately show "pages_ok h1 pages1" by (auto simp: pages_ok_def)
  show "unaliased pages1"
    using un lt unfolding unaliased_def m by (metis fun_upd_apply less_irrefl option.inject)
  show "heap_frame h pages h1 pages1"
    by (auto simp: heap_frame_def m h1_def nth_append ran_def)
  show "map_of pages1 i = Some (length h)" by (simp add: m)
  show "\<not> mp_shared (h1 ! length h)" "length h < length h1" by (simp_all add: h1_def)
  show "page_byte h1 pages1 = page_byte h pages"
  proof
    fix k
    show "page_byte h1 pages1 k = page_byte h pages k"
    proof (cases "k div memoryPageBytes = i")
      case True
      then have "i * memoryPageBytes + k mod memoryPageBytes = k" using div_block_mod by metis
      moreover have "page_byte h1 pages1 k = d ! (k mod memoryPageBytes)"
        using True by (simp add: page_byte_def m h1_def)
      ultimately show ?thesis using same [of "k mod memoryPageBytes"] by simp
    next
      case False
      then show ?thesis
        using lt by (auto simp: page_byte_def m h1_def nth_append split: option.split)
    qed
  qed
qed

lemma writable_page_ok:
  assumes "pages_ok h pages" and "unaliased pages" and "writable_page h pages i = (h1, pages1, a)"
  shows "pages_ok h1 pages1" "unaliased pages1" "heap_frame h pages h1 pages1"
    "map_of pages1 i = Some a" "\<not> mp_shared (h1 ! a)" "a < length h1"
    "page_byte h1 pages1 = page_byte h pages"
proof -
  consider (fresh) "map_of pages i = None" | (copied) b where "map_of pages i = Some b" "mp_shared (h ! b)"
    | (owned) b where "map_of pages i = Some b" "\<not> mp_shared (h ! b)" by fastforce
  then have "pages_ok h1 pages1 \<and> unaliased pages1 \<and> heap_frame h pages h1 pages1 \<and>
    map_of pages1 i = Some a \<and> \<not> mp_shared (h1 ! a) \<and> a < length h1 \<and>
    page_byte h1 pages1 = page_byte h pages"
  proof cases
    case fresh
    then have "replicate memoryPageBytes 0 ! k = page_byte h pages (i * memoryPageBytes + k)"
      if "k < memoryPageBytes" for k
      using that by (simp add: page_byte_def block_slot)
    moreover have e: "h1 = h @ [\<lparr>mp_data = replicate memoryPageBytes 0, mp_shared = False\<rparr>]"
      "pages1 = AList.update i (length h) pages" "a = length h"
      using assms(3) fresh by (auto simp: writable_page_def)
    ultimately show ?thesis
      unfolding e using fresh_page_ok [OF assms(1,2) length_replicate] by blast
  next
    case copied
    then have "mp_data (h ! b) ! k = page_byte h pages (i * memoryPageBytes + k)"
      if "k < memoryPageBytes" for k
      using that by (simp add: page_byte_def block_slot)
    moreover have "length (mp_data (h ! b)) = memoryPageBytes"
      using assms(1) copied(1) by (simp add: pages_ok_def)
    moreover have e: "h1 = h @ [\<lparr>mp_data = mp_data (h ! b), mp_shared = False\<rparr>]"
      "pages1 = AList.update i (length h) pages" "a = length h"
      using assms(3) copied by (auto simp: writable_page_def)
    ultimately show ?thesis
      unfolding e using fresh_page_ok [OF assms(1,2)] by blast
  next
    case owned
    with assms show ?thesis by (auto simp: writable_page_def pages_ok_def)
  qed
  then show "pages_ok h1 pages1" "unaliased pages1" "heap_frame h pages h1 pages1"
    "map_of pages1 i = Some a" "\<not> mp_shared (h1 ! a)" "a < length h1"
    "page_byte h1 pages1 = page_byte h pages" by blast+
qed

text \<open>Updating an owned page in place.\<close>

lemma page_update_ok:
  assumes ok: "pages_ok h pages" and un: "unaliased pages" and i: "map_of pages i = Some a"
    and own: "\<not> mp_shared (h ! a)" and d: "length d = memoryPageBytes"
  defines "h1 \<equiv> h[a := (h ! a)\<lparr>mp_data := d\<rparr>]"
  shows "pages_ok h1 pages" "heap_frame h pages h1 pages"
    "page_byte h1 pages k =
      (if k div memoryPageBytes = i then d ! (k mod memoryPageBytes) else page_byte h pages k)"
proof -
  have a: "a < length h" using ok i by (simp add: pages_ok_def)
  then show "pages_ok h1 pages" using ok d by (auto simp: pages_ok_def h1_def nth_list_update)
  have "a \<in> ran (map_of pages)" using i by (auto simp: ran_def)
  then show "heap_frame h pages h1 pages"
    using own a by (auto simp: heap_frame_def h1_def nth_list_update)
  show "page_byte h1 pages k =
      (if k div memoryPageBytes = i then d ! (k mod memoryPageBytes) else page_byte h pages k)"
  proof (cases "k div memoryPageBytes = i")
    case True
    then show ?thesis using i a by (simp add: page_byte_def h1_def)
  next
    case False
    have "b \<noteq> a" if "map_of pages (k div memoryPageBytes) = Some b" for b
      using that False i un unfolding unaliased_def by metis
    with False show ?thesis by (auto simp: page_byte_def h1_def split: option.split)
  qed
qed


text \<open>One iteration of the write loop, seen as an update of the bytes.\<close>

lemma write_page_step:
  fixes p :: bytes and off k :: nat
  assumes ok: "pages_ok h pages" and un: "unaliased pages"
    and i: "map_of pages (off div memoryPageBytes) = Some a" and own: "\<not> mp_shared (h ! a)"
  defines "h1 \<equiv> h[a := page_copy (off mod memoryPageBytes) p (h ! a)]"
    and "c \<equiv> min (memoryPageBytes - off mod memoryPageBytes) (length p)"
  shows "pages_ok h1 pages" "heap_frame h pages h1 pages"
    "page_byte h1 pages k = (if off \<le> k \<and> k < off + c then p ! (k - off) else page_byte h pages k)"
proof -
  define w where "w = off mod memoryPageBytes"
  define i where "i = off div memoryPageBytes"
  define x where "x = k mod memoryPageBytes"
  define d where "d = overwrite w (take (memoryPageBytes - w) p) (mp_data (h ! a))"
  have w: "w < memoryPageBytes" and off: "off = i * memoryPageBytes + w"
    by (simp_all add: w_def i_def)
  have len: "length (mp_data (h ! a)) = memoryPageBytes"
    using ok assms(3) by (simp add: pages_ok_def)
  then have h1: "h1 = h[a := (h ! a)\<lparr>mp_data := d\<rparr>]"
    by (simp add: h1_def page_copy_def d_def w_def)
  have ld: "length d = memoryPageBytes" using len w by (simp add: d_def)
  note up = page_update_ok [OF ok un assms(3) own ld, folded h1 i_def]
  show "pages_ok h1 pages" "heap_frame h pages h1 pages" by (fact up)+
  show "page_byte h1 pages k = (if off \<le> k \<and> k < off + c then p ! (k - off) else page_byte h pages k)"
  proof (cases "k div memoryPageBytes = i")
    case True
    then have k: "k = i * memoryPageBytes + x" using div_block_mod unfolding x_def by metis
    have x: "x < memoryPageBytes" by (simp add: x_def)
    have "d ! x = (if w \<le> x \<and> x < w + c then p ! (x - w) else mp_data (h ! a) ! x)"
      using nth_overwrite [of w "take (memoryPageBytes - w) p" "mp_data (h ! a)" x] len w x
      by (auto simp: d_def c_def w_def)
    moreover have "mp_data (h ! a) ! x = page_byte h pages k"
      using True assms(3) by (simp add: page_byte_def x_def i_def)
    moreover have "k - off = x - w" "off \<le> k \<longleftrightarrow> w \<le> x" "k < off + c \<longleftrightarrow> x < w + c"
      using k off by linarith+
    ultimately show ?thesis using up(3) [of k, folded x_def] True by (simp only: if_True refl)
  next
    case False
    have cw: "c \<le> memoryPageBytes - w" by (simp add: c_def w_def)
    have "\<not> (off \<le> k \<and> k < off + c)"
    proof
      assume "off \<le> k \<and> k < off + c"
      then have "i * memoryPageBytes \<le> k" "k < i * memoryPageBytes + memoryPageBytes"
        using w off cw by linarith+
      then have "k div memoryPageBytes = i" by (subst div_eq_iff_block) simp_all
      with False show False ..
    qed
    with up(3) [of k] False show ?thesis by (simp only: if_False)
  qed
qed

lemma write_pages_ok:
  assumes "pages_ok h pages" and "unaliased pages" and "write_pages h pages p off = (h', pages')"
  shows "pages_ok h' pages' \<and> unaliased pages' \<and> heap_frame h pages h' pages' \<and>
    (\<forall>k. page_byte h' pages' k =
       (if off \<le> k \<and> k < off + length p then p ! (k - off) else page_byte h pages k))"
  using assms
proof (induction h pages p off rule: write_pages.induct)
  case (1 h pages p off)
  define c where "c = min (memoryPageBytes - off mod memoryPageBytes) (length p)"
  show ?case
  proof (cases "p = []")
    case True
    with "1.prems" show ?thesis by (auto simp: write_pages.simps)
  next
    case False
    obtain h1 pages1 a where wp: "writable_page h pages (off div memoryPageBytes) = (h1, pages1, a)"
      by (metis surj_pair)
    note W = writable_page_ok [OF "1.prems"(1,2) wp]
    define h2 where "h2 = h1[a := page_copy (off mod memoryPageBytes) p (h1 ! a)]"
    note S = write_page_step [OF W(1,2,4,5), of p, folded h2_def c_def]
    have "write_pages h2 pages1 (drop c p) (off + c) = (h', pages')"
      using "1.prems"(3) False wp
      by (simp add: write_pages.simps [of h pages p off] Let_def c_def h2_def)
    from "1.IH" [OF False wp [symmetric] refl refl c_def, folded h2_def, OF S(1) W(2) this]
    have R: "pages_ok h' pages'" "unaliased pages'" "heap_frame h2 pages1 h' pages'"
      "\<And>k. page_byte h' pages' k = (if off + c \<le> k \<and> k < off + c + length (drop c p)
        then drop c p ! (k - (off + c)) else page_byte h2 pages1 k)" by blast+
    have "page_byte h' pages' k =
       (if off \<le> k \<and> k < off + length p then p ! (k - off) else page_byte h pages k)" for k
      using R(4) [of k] S(3) [of k] W(7) by (auto simp: c_def)
    then show ?thesis
      using R(1,2) heap_frame_trans [OF heap_frame_trans [OF W(3) S(2)] R(3)] by blast
  qed
qed


subsection \<open>Truncating\<close>

lemma pages_ConsD:
  assumes "pages_ok h ((i, a) # t)" and "unaliased ((i, a) # t)"
  shows "pages_ok h t" "unaliased t" "map_of t i = None" "a \<notin> ran (map_of t)"
    "a < length h" "length (mp_data (h ! a)) = memoryPageBytes"
proof -
  have i: "map_of t i = None" using assms(1) by (auto simp: pages_ok_def map_of_eq_None_iff)
  have m: "map_of ((i, a) # t) j = Some b" if "map_of t j = Some b" for j b
    using that i by auto
  show "pages_ok h t"
    using assms(1) m unfolding pages_ok_def by (metis distinct.simps(2) list.simps(9))
  show "unaliased t" using assms(2) m unfolding unaliased_def by blast
  show "map_of t i = None" by (rule i)
  show "a \<notin> ran (map_of t)"
  proof
    assume "a \<in> ran (map_of t)"
    then obtain j where j: "map_of t j = Some a" by (auto simp: ran_def)
    with m have "map_of ((i, a) # t) j = Some a" "map_of ((i, a) # t) i = Some a" by simp_all
    with assms(2) have "j = i" unfolding unaliased_def by blast
    with i j show False by simp
  qed
  have "map_of ((i, a) # t) i = Some a" by simp
  with assms(1) show "a < length h" "length (mp_data (h ! a)) = memoryPageBytes"
    unfolding pages_ok_def by blast+
qed

lemma pages_ConsI:
  assumes "pages_ok h t" "unaliased t" "map_of t i = None" "a \<notin> ran (map_of t)"
    "a < length h" "length (mp_data (h ! a)) = memoryPageBytes"
  shows "pages_ok h ((i, a) # t)" "unaliased ((i, a) # t)"
  using assms by (auto simp: pages_ok_def unaliased_def map_of_eq_None_iff ran_def)

lemma page_byte_Cons:
  "page_byte h ((i, a) # t) k =
     (if k div memoryPageBytes = i then mp_data (h ! a) ! (k mod memoryPageBytes) else page_byte h t k)"
  by (simp add: page_byte_def)

lemma heap_frame_Cons:
  assumes "heap_frame h t h' t'" and "map_of t i = None" and "map_of t' i = None"
  shows "heap_frame h ((i, a) # t) h' ((i, a) # t')"
proof -
  have "ran (map_of ((i, a) # t)) = insert a (ran (map_of t))"
    "ran (map_of ((i, a) # t')) = insert a (ran (map_of t'))"
    using assms(2,3) by simp_all
  with assms(1) show ?thesis unfolding heap_frame_def by auto
qed

lemma heap_frame_drop:
  assumes "heap_frame h t h' t'" and "map_of t i = None"
  shows "heap_frame h ((i, a) # t) h' t'"
proof -
  have "ran (map_of ((i, a) # t)) = insert a (ran (map_of t))" using assms(2) by simp
  with assms(1) show ?thesis unfolding heap_frame_def by auto
qed

text \<open>The page objects that end inside the truncated size, prepared for clearing.\<close>

lemma truncate_copy:
  "writable_page h ((i, a) # t) i =
     (let (h1, a1) = (if mp_shared (h ! a)
                      then (h @ [\<lparr>mp_data = mp_data (h ! a), mp_shared = False\<rparr>], length h)
                      else (h, a)) in (h1, (i, a1) # t, a1))"
  by (simp add: writable_page_def)

lemma truncate_tail:
  assumes "pages_ok h ((i, a) # t)" and "unaliased ((i, a) # t)"
    and R: "pages_ok h' rest \<and> unaliased rest \<and> heap_frame h t h' rest \<and>
      set (map fst rest) \<subseteq> set (map fst t) \<and>
      (\<forall>k. page_byte h' rest k = (if k < sz then page_byte h t k else 0))"
  shows "pages_ok h' ((i, a) # rest) \<and> unaliased ((i, a) # rest) \<and>
    heap_frame h ((i, a) # t) h' ((i, a) # rest) \<and>
    (\<forall>k. page_byte h' ((i, a) # rest) k =
       (if k div memoryPageBytes = i \<or> k < sz then page_byte h ((i, a) # t) k else 0))"
proof -
  note C = pages_ConsD [OF assms(1,2)]
  have i: "map_of rest i = None" using C(3) R by (auto simp: map_of_eq_None_iff)
  have same: "h' ! a = h ! a" and lt: "a < length h'" and a: "a \<notin> ran (map_of rest)"
    using R C(4,5) unfolding heap_frame_def by auto
  have P: "pages_ok h' ((i, a) # rest)" "unaliased ((i, a) # rest)"
    using pages_ConsI [OF _ _ i a lt] R C(6) same by auto
  have F: "heap_frame h ((i, a) # t) h' ((i, a) # rest)"
    using heap_frame_Cons [OF _ C(3) i] R by blast
  have "page_byte h' ((i, a) # rest) k =
       (if k div memoryPageBytes = i \<or> k < sz then page_byte h ((i, a) # t) k else 0)" for k
    using R same by (simp add: page_byte_Cons)
  with P F show ?thesis by blast
qed

lemma truncate_pages_ok:
  assumes "pages_ok h pages" and "unaliased pages" and "truncate_pages sz h pages = (h', pages')"
  shows "pages_ok h' pages' \<and> unaliased pages' \<and> heap_frame h pages h' pages' \<and>
    set (map fst pages') \<subseteq> set (map fst pages) \<and>
    (\<forall>k. page_byte h' pages' k = (if k < sz then page_byte h pages k else 0))"
  using assms
proof (induction pages arbitrary: h h' pages')
  case Nil
  then show ?case by (auto simp: page_byte_def)
next
  case (Cons e t)
  obtain i a where e: "e = (i, a)" by (cases e)
  note C = pages_ConsD [OF Cons.prems(1,2) [unfolded e]]
  have blk: "k < i * memoryPageBytes + memoryPageBytes" "i * memoryPageBytes \<le> k"
    if "k div memoryPageBytes = i" for k
    using that div_block_lt [of memoryPageBytes k] div_block_le [of k memoryPageBytes] by simp_all
  consider (gone) "i * memoryPageBytes \<ge> sz"
    | (cut) "i * memoryPageBytes < sz" "sz < i * memoryPageBytes + memoryPageBytes"
    | (kept) "i * memoryPageBytes + memoryPageBytes \<le> sz" by linarith
  then show ?case
  proof cases
    case gone
    then have "truncate_pages sz h t = (h', pages')" using Cons.prems(3) by (simp add: e)
    note R = Cons.IH [OF C(1,2) this]
    have "page_byte h' pages' k = (if k < sz then page_byte h (e # t) k else 0)" for k
      using R gone blk [of k] by (auto simp: e page_byte_Cons)
    with R heap_frame_drop [OF _ C(3), of h h' pages'] show ?thesis by (auto simp: e)
  next
    case kept
    then have "\<not> sz \<le> i * memoryPageBytes" "\<not> sz - i * memoryPageBytes < memoryPageBytes"
      by linarith+
    then obtain rest where r: "truncate_pages sz h t = (h', rest)" "pages' = (i, a) # rest"
      using Cons.prems(3) by (auto simp: e split: prod.splits)
    note R = truncate_tail [OF Cons.prems(1,2) [unfolded e] Cons.IH [OF C(1,2) r(1)]]
    have "page_byte h' pages' k = (if k < sz then page_byte h (e # t) k else 0)" for k
      using R kept blk [of k] by (auto simp: e r(2))
    with R Cons.IH [OF C(1,2) r(1)] show ?thesis by (auto simp: e r(2))
  next
    case cut
    obtain h1 pages1 a1 where wp: "writable_page h ((i, a) # t) i = (h1, pages1, a1)"
      by (metis surj_pair)
    then have p1: "pages1 = (i, a1) # t" by (auto simp: truncate_copy Let_def split: if_splits prod.splits)
    note W = writable_page_ok [OF Cons.prems(1,2) [unfolded e] wp, unfolded p1]
    define at where "at = sz mod memoryPageBytes"
    have sz: "sz = i * memoryPageBytes + at" and at: "at < memoryPageBytes"
    proof -
      have "sz div memoryPageBytes = i" using cut by (subst div_eq_iff_block) simp_all
      then show "sz = i * memoryPageBytes + at" using div_block_mod [of sz] unfolding at_def by metis
    qed (simp add: at_def)
    define d where "d = take at (mp_data (h1 ! a1)) @ replicate (length (mp_data (h1 ! a1)) - at) 0"
    have len: "length (mp_data (h1 ! a1)) = memoryPageBytes"
      using W(1,4) unfolding pages_ok_def by blast
    then have d: "length d = memoryPageBytes" using at by (simp add: d_def)
    define h2 where "h2 = h1[a1 := (h1 ! a1)\<lparr>mp_data := d\<rparr>]"
    note U = page_update_ok [OF W(1,2,4,5) d, folded h2_def]
    obtain rest where r: "truncate_pages sz h2 t = (h', rest)" "pages' = (i, a1) # rest"
      using Cons.prems(3) cut wp
      by (auto simp: e truncate_copy h2_def d_def at_def Let_def split: prod.splits if_splits)
    note I = Cons.IH [OF pages_ConsD(1,2) [OF U(1) W(2)] r(1)]
    note R = truncate_tail [OF U(1) W(2) I]
    have "page_byte h' pages' k = (if k < sz then page_byte h (e # t) k else 0)" for k
    proof (cases "k div memoryPageBytes = i")
      case True
      define x where "x = k mod memoryPageBytes"
      have k: "k = i * memoryPageBytes + x" using True div_block_mod [of k] unfolding x_def by metis
      have "page_byte h' pages' k = d ! x"
        using R U(3) [of k] True by (simp add: r(2) x_def)
      also have "\<dots> = (if x < at then mp_data (h1 ! a1) ! x else 0)"
        using len at by (auto simp: d_def nth_append x_def)
      also have "mp_data (h1 ! a1) ! x = page_byte h (e # t) k"
        using True by (simp add: page_byte_Cons x_def e flip: W(7))
      finally show ?thesis using k sz by (simp only: nat_add_left_cancel_less)
    next
      case False
      then show ?thesis using R U(3) [of k] by (simp add: r(2) e flip: W(7))
    qed
    moreover have "heap_frame h ((i, a) # t) h' pages'"
      using heap_frame_trans [OF heap_frame_trans [OF W(3) U(2)]] R unfolding r(2) by blast
    ultimately show ?thesis using R I by (auto simp: e r(2))
  qed
qed

end
