(* ===== verification/Memory_Sessions.thy ===== *)
theory Memory_Sessions
  imports Memory_Store
begin

text \<open>
  The memory store (\<open>src/storage/memory_store.go\<close>) against its contracts: as a growing store, and in
  sessions in which clients write, truncate, take snapshots and close in any order.
\<close>

subsection \<open>The store as a growing store\<close>

definition store_inv :: "page_heap \<times> MemoryStore \<Rightarrow> bool" where
  "store_inv = (\<lambda>(h, m). \<not> ms_closed m \<and> pages_ok h (ms_pages m) \<and> unaliased (ms_pages m) \<and>
     0 \<le> ms_size m \<and> ms_size m \<le> max 0 (ms_limit m) \<and>
     (\<forall>k \<ge> nat (ms_size m). page_byte h (ms_pages m) k = 0))"

definition store_contents :: "page_heap \<times> MemoryStore \<Rightarrow> bytes" where
  "store_contents = (\<lambda>(h, m). page_contents h (ms_pages m) (ms_size m))"

lemma page_contents_eqI:
  assumes "length xs = nat sz" and "\<And>k. k < nat sz \<Longrightarrow> page_byte h pages k = xs ! k"
  shows "page_contents h pages sz = xs"
  using assms by (intro nth_equalityI) (simp_all add: page_contents_def)

lemma nth_page_contents [simp]: "k < nat sz \<Longrightarrow> page_contents h pages sz ! k = page_byte h pages k"
  by (simp add: page_contents_def)

lemma MemoryStore_WriteAt_ok:
  assumes "store_inv (h, m)" and "MemoryStore_WriteAt h m p off = ((n, None), h', m')"
  shows "store_inv (h', m') \<and> n = length p \<and> 0 \<le> off \<and>
    store_contents (h', m') = write_extend (nat off) p (store_contents (h, m)) \<and>
    heap_frame h (ms_pages m) h' (ms_pages m')"
proof (cases "p = []")
  case True
  with assms show ?thesis
    by (auto simp: MemoryStore_WriteAt_def store_inv_def write_extend_def split: if_splits)
next
  case False
  obtain h1 pages' where w1: "write_pages h (ms_pages m) p (nat off) = (h1, pages')" by fastforce
  from assms(2) False have off: "0 \<le> off" "off + int (length p) \<le> ms_limit m" and n: "n = length p"
    and h1: "h1 = h'" and m': "m' = m\<lparr>ms_pages := pages', ms_size := max (ms_size m) (off + int (length p))\<rparr>"
    by (auto simp: MemoryStore_WriteAt_def w1 Let_def split: if_split_asm)
  from w1 h1 have w: "write_pages h (ms_pages m) p (nat off) = (h', pages')" by simp
  have inv: "pages_ok h (ms_pages m)" "unaliased (ms_pages m)" "0 \<le> ms_size m"
    "ms_size m \<le> max 0 (ms_limit m)" "\<And>k. nat (ms_size m) \<le> k \<Longrightarrow> page_byte h (ms_pages m) k = 0"
    "\<not> ms_closed m"
    using assms(1) by (simp_all add: store_inv_def)
  note W = write_pages_ok [OF inv(1,2) w]
  have sz: "nat (max (ms_size m) (off + int (length p))) = max (nat (ms_size m)) (nat off + length p)"
    using off by linarith
  have "store_contents (h', m') = write_extend (nat off) p (store_contents (h, m))"
    unfolding store_contents_def case_prod_conv
  proof (rule page_contents_eqI)
    fix k assume "k < nat (ms_size m')"
    then have "k < max (nat (ms_size m)) (nat off + length p)" by (simp add: m' sz)
    then show "page_byte h' (ms_pages m') k
        = write_extend (nat off) p (page_contents h (ms_pages m) (ms_size m)) ! k"
      using W inv(5) [of k] False by (simp add: m' nth_write_extend length_write_extend)
  qed (use False sz in \<open>simp add: m' length_write_extend\<close>)
  moreover have "store_inv (h', m')"
    using W inv off sz by (auto simp: store_inv_def m')
  ultimately show ?thesis using W n off by (simp add: m')
qed

lemma MemoryStore_WriteAt_err:
  "MemoryStore_WriteAt h m p off = ((n, Some e), h', m') \<Longrightarrow> n = 0 \<and> h' = h \<and> m' = m"
  by (auto simp: MemoryStore_WriteAt_def Let_def split: if_splits prod.splits)

lemma MemoryStore_Truncate_ok:
  assumes "store_inv (h, m)" and "MemoryStore_Truncate h m sz = (None, h', m')"
  shows "store_inv (h', m') \<and> 0 \<le> sz \<and>
    store_contents (h', m') = resize (nat sz) (store_contents (h, m)) \<and>
    heap_frame h (ms_pages m) h' (ms_pages m')"
proof -
  from assms(2) obtain pages' where
    s: "0 \<le> sz" "sz \<le> ms_limit m" "m' = m\<lparr>ms_pages := pages', ms_size := sz\<rparr>"
    and t: "(if sz < ms_size m then truncate_pages (nat sz) h (ms_pages m) else (h, ms_pages m))
      = (h', pages')"
    by (auto simp: MemoryStore_Truncate_def Let_def split: if_splits prod.splits)
  have inv: "pages_ok h (ms_pages m)" "unaliased (ms_pages m)" "0 \<le> ms_size m"
    "\<And>k. nat (ms_size m) \<le> k \<Longrightarrow> page_byte h (ms_pages m) k = 0" "\<not> ms_closed m"
    using assms(1) by (simp_all add: store_inv_def)
  have T: "pages_ok h' pages' \<and> unaliased pages' \<and> heap_frame h (ms_pages m) h' pages' \<and>
      (\<forall>k. page_byte h' pages' k = (if k < nat sz then page_byte h (ms_pages m) k else 0))"
  proof (cases "sz < ms_size m")
    case True
    with t truncate_pages_ok [OF inv(1,2), of "nat sz" h' pages'] show ?thesis by simp
  next
    case False
    with t inv show ?thesis by auto
  qed
  have "store_contents (h', m') = resize (nat sz) (store_contents (h, m))"
    unfolding store_contents_def case_prod_conv
    by (rule page_contents_eqI) (use T s inv(4) in \<open>auto simp: nth_resize\<close>)
  moreover have "store_inv (h', m')" using T inv s by (auto simp: store_inv_def)
  ultimately show ?thesis using T s by simp
qed

lemma MemoryStore_Truncate_err:
  "MemoryStore_Truncate h m sz = (Some e, h', m') \<Longrightarrow> h' = h \<and> m' = m"
  by (auto simp: MemoryStore_Truncate_def Let_def split: if_splits prod.splits)

lemma store_closed:
  assumes "ms_closed m"
  shows "MemoryStore_WriteAt h m p off = ((0, Some ErrStoreClosed), h, m)"
    "MemoryStore_Truncate h m sz = (Some ErrStoreClosed, h, m)"
    "MemoryStore_ReadAt h m n off = ([], Some ErrStoreClosed)"
    "MemoryStore_Snapshot h m = (Inl ErrStoreClosed, h)"
  using assms by (simp_all add: MemoryStore_WriteAt_def MemoryStore_Truncate_def MemoryStore_ReadAt_def
      MemoryStore_Snapshot_def)

interpretation memory_store: growing_store store_inv store_contents
  "\<lambda>(h, m). MemoryStore_ReadAt h m" "\<lambda>(h, m). MemoryStore_WriteAt h m"
  "\<lambda>(h, m). MemoryStore_Truncate h m"
proof
  fix s off n
  show "store_inv s \<Longrightarrow> 0 \<le> off \<Longrightarrow> nat off + n \<le> length (store_contents s) \<Longrightarrow>
      (case s of (h, m) \<Rightarrow> MemoryStore_ReadAt h m) n off = (segment (nat off) n (store_contents s), None)"
    by (cases s) (auto simp: MemoryStore_ReadAt_def store_inv_def store_contents_def readMemory_ok)
next
  fix s p off n s'
  show "store_inv s \<Longrightarrow> (case s of (h, m) \<Rightarrow> MemoryStore_WriteAt h m) p off = ((n, None), s') \<Longrightarrow>
      store_inv s' \<and> n = length p \<and> 0 \<le> off \<and>
      store_contents s' = write_extend (nat off) p (store_contents s)"
    by (cases s; cases s') (auto dest: MemoryStore_WriteAt_ok)
next
  fix s sz s'
  show "store_inv s \<Longrightarrow> (case s of (h, m) \<Rightarrow> MemoryStore_Truncate h m) sz = (None, s') \<Longrightarrow>
      store_inv s' \<and> 0 \<le> sz \<and> store_contents s' = resize (nat sz) (store_contents s)"
    by (cases s; cases s') (auto dest: MemoryStore_Truncate_ok)
qed

subsection \<open>Snapshots\<close>

definition snap_ok :: "page_heap \<Rightarrow> page_map \<Rightarrow> memorySnapshot \<Rightarrow> bool" where
  "snap_ok h pages s \<longleftrightarrow> pages_ok h (sp_pages s) \<and>
     (\<forall>a \<in> ran (map_of (sp_pages s)). a \<in> ran (map_of pages) \<longrightarrow> mp_shared (h ! a))"

lemma snap_frame:
  assumes "heap_frame h pages h' pages'" and "snap_ok h pages s"
  shows "snap_ok h' pages' s \<and> page_byte h' (sp_pages s) = page_byte h (sp_pages s)"
proof -
  have lt: "a < length h" if "map_of (sp_pages s) i = Some a" for i a
    using assms(2) that by (auto simp: snap_ok_def pages_ok_def)
  have same: "h' ! a = h ! a" if "map_of (sp_pages s) i = Some a" for i a
    using assms lt [OF that] that unfolding heap_frame_def snap_ok_def by (meson ranI)
  have "page_byte h' (sp_pages s) = page_byte h (sp_pages s)"
    using same by (auto simp: page_byte_def fun_eq_iff split: option.split)
  moreover have "pages_ok h' (sp_pages s)"
    using assms same unfolding snap_ok_def pages_ok_def heap_frame_def by (metis less_le_trans)
  moreover have "mp_shared (h' ! a)" if "a \<in> ran (map_of (sp_pages s))" "a \<in> ran (map_of pages')" for a
  proof -
    from that(1) obtain i where i: "map_of (sp_pages s) i = Some a" by (auto simp: ran_def)
    have "a \<in> ran (map_of pages)" using assms(1) that(2) lt [OF i] unfolding heap_frame_def by auto
    then show ?thesis using assms(2) that(1) same [OF i] unfolding snap_ok_def by simp
  qed
  ultimately show ?thesis unfolding snap_ok_def by blast
qed

lemma share_pages_length [simp]: "length (share_pages pages h) = length h"
  by (induction pages h rule: share_pages.induct) auto

lemma nth_share_pages:
  "snd ` set pages \<subseteq> {..<length h} \<Longrightarrow>
   share_pages pages h ! b = (if b \<in> snd ` set pages then (h ! b)\<lparr>mp_shared := True\<rparr> else h ! b)"
proof (induction pages h rule: share_pages.induct)
  case (2 i a pages h)
  then show ?case by (auto simp: nth_list_update)
qed simp


lemma share_pages_data:
  assumes "pages_ok h pages"
  shows "mp_data (share_pages pages h ! b) = mp_data (h ! b)"
    "mp_shared (share_pages pages h ! b) \<longleftrightarrow> b \<in> ran (map_of pages) \<or> mp_shared (h ! b)"
proof -
  have d: "distinct (map fst pages)" using assms by (simp add: pages_ok_def)
  then have r: "snd ` set pages = ran (map_of pages)" by (simp add: ran_distinct)
  moreover have "ran (map_of pages) \<subseteq> {..<length h}" using assms by (auto simp: pages_ok_def ran_def)
  ultimately show "mp_data (share_pages pages h ! b) = mp_data (h ! b)"
    "mp_shared (share_pages pages h ! b) \<longleftrightarrow> b \<in> ran (map_of pages) \<or> mp_shared (h ! b)"
    using nth_share_pages [of pages h b] by simp_all
qed

lemma share_pages_byte:
  "pages_ok h pages \<Longrightarrow> page_byte (share_pages pages h) t = page_byte h t"
  by (auto simp: page_byte_def fun_eq_iff share_pages_data split: option.split)

lemma share_pages_ok: "pages_ok h pages \<Longrightarrow> pages_ok (share_pages pages h) t = pages_ok h t"
  by (simp add: pages_ok_def [of _ t] share_pages_data)

subsection \<open>Sessions: one store, its page objects and every snapshot handed out\<close>

record memory_world =
  mw_heap :: page_heap
  mw_store :: MemoryStore
  mw_snaps :: "memorySnapshot list"

inductive memory_step :: "memory_world \<Rightarrow> memory_world \<Rightarrow> bool" where
  mem_write: "MemoryStore_WriteAt h m p off = (r, h', m') \<Longrightarrow>
    memory_step \<lparr>mw_heap = h, mw_store = m, mw_snaps = ss\<rparr> \<lparr>mw_heap = h', mw_store = m', mw_snaps = ss\<rparr>"
| mem_truncate: "MemoryStore_Truncate h m sz = (e, h', m') \<Longrightarrow>
    memory_step \<lparr>mw_heap = h, mw_store = m, mw_snaps = ss\<rparr> \<lparr>mw_heap = h', mw_store = m', mw_snaps = ss\<rparr>"
| mem_snapshot: "MemoryStore_Snapshot h m = (Inr s, h') \<Longrightarrow>
    memory_step \<lparr>mw_heap = h, mw_store = m, mw_snaps = ss\<rparr>
      \<lparr>mw_heap = h', mw_store = m, mw_snaps = ss @ [s]\<rparr>"
| mem_close: "memory_step \<lparr>mw_heap = h, mw_store = m, mw_snaps = ss\<rparr>
      \<lparr>mw_heap = h, mw_store = MemoryStore_Close m, mw_snaps = ss\<rparr>"

inductive memory_run :: "memory_world \<Rightarrow> memory_world \<Rightarrow> bool" where
  mem_here: "memory_run w w"
| mem_more: "memory_run w w' \<Longrightarrow> memory_step w' w'' \<Longrightarrow> memory_run w w''"

definition new_world :: "int \<Rightarrow> memory_world" where
  "new_world limit = \<lparr>mw_heap = [], mw_store = NewMemoryStore limit, mw_snaps = []\<rparr>"

definition world_inv :: "memory_world \<Rightarrow> bool" where
  "world_inv w \<longleftrightarrow>
     (if ms_closed (mw_store w) then ms_pages (mw_store w) = []
      else store_inv (mw_heap w, mw_store w)) \<and>
     (\<forall>s \<in> set (mw_snaps w). snap_ok (mw_heap w) (ms_pages (mw_store w)) s)"

lemma new_world_inv: "world_inv (new_world limit)"
  by (simp add: world_inv_def new_world_def NewMemoryStore_def store_inv_def pages_ok_def
      unaliased_def page_byte_def)

text \<open>Every step keeps the invariant and the bytes of every snapshot handed out before it.\<close>

definition snaps_kept :: "memory_world \<Rightarrow> memory_world \<Rightarrow> bool" where
  "snaps_kept w w' \<longleftrightarrow> (\<forall>s \<in> set (mw_snaps w). s \<in> set (mw_snaps w') \<and>
     page_byte (mw_heap w') (sp_pages s) = page_byte (mw_heap w) (sp_pages s))"

lemma frame_step:
  assumes "heap_frame h (ms_pages m) h' (ms_pages m')"
    and "world_inv \<lparr>mw_heap = h, mw_store = m, mw_snaps = ss\<rparr>"
    and "if ms_closed m' then ms_pages m' = [] else store_inv (h', m')"
  shows "world_inv \<lparr>mw_heap = h', mw_store = m', mw_snaps = ss\<rparr> \<and>
    snaps_kept \<lparr>mw_heap = h, mw_store = m, mw_snaps = ss\<rparr> \<lparr>mw_heap = h', mw_store = m', mw_snaps = ss\<rparr>"
  using assms snap_frame [OF assms(1)] by (simp add: world_inv_def snaps_kept_def)

lemma snapshot_step:
  assumes inv: "world_inv \<lparr>mw_heap = h, mw_store = m, mw_snaps = ss\<rparr>"
    and s: "MemoryStore_Snapshot h m = (Inr s, h')"
  shows "world_inv \<lparr>mw_heap = h', mw_store = m, mw_snaps = ss @ [s]\<rparr> \<and>
    snaps_kept \<lparr>mw_heap = h, mw_store = m, mw_snaps = ss\<rparr> \<lparr>mw_heap = h', mw_store = m, mw_snaps = ss @ [s]\<rparr> \<and>
    page_contents h' (sp_pages s) (sp_size s) = store_contents (h, m)"
proof -
  from s have s: "s = \<lparr>sp_pages = ms_pages m, sp_size = ms_size m\<rparr>" and h': "h' = share_pages (ms_pages m) h"
    and open': "\<not> ms_closed m"
    by (auto simp: MemoryStore_Snapshot_def split: if_splits)
  from inv open' have st: "store_inv (h, m)" by (simp add: world_inv_def)
  then have ok: "pages_ok h (ms_pages m)" by (simp add: store_inv_def)
  note sh = share_pages_byte [OF ok] share_pages_ok [OF ok] share_pages_data [OF ok]
  have "store_inv (h', m)" using st by (simp add: store_inv_def h' sh)
  moreover have "snap_ok h' (ms_pages m) t" if "snap_ok h (ms_pages m) t" for t
    using that by (simp add: snap_ok_def h' sh)
  moreover have "snap_ok h' (ms_pages m) s" using ok by (simp add: snap_ok_def h' s sh)
  moreover have "page_contents h' (sp_pages s) (sp_size s) = store_contents (h, m)"
    by (simp add: page_contents_def store_contents_def h' s sh)
  ultimately show ?thesis
    using inv open' by (auto simp: world_inv_def snaps_kept_def h' sh)
qed

lemma memory_step_inv:
  assumes "memory_step w w'" and "world_inv w"
  shows "world_inv w' \<and> snaps_kept w w'"
  using assms
proof (induction rule: memory_step.induct)
  case (mem_write h m p off r h' m' ss)
  obtain n e where r: "r = (n, e)" by (cases r)
  show ?case
  proof (cases "e = None \<and> \<not> ms_closed m")
    case True
    with mem_write have "store_inv (h, m)" by (simp add: world_inv_def)
    from MemoryStore_WriteAt_ok [OF this] mem_write(1) True r
    have "store_inv (h', m')" "heap_frame h (ms_pages m) h' (ms_pages m')" by simp_all
    moreover from this have "\<not> ms_closed m'" by (simp add: store_inv_def)
    ultimately show ?thesis using mem_write(2) by (intro frame_step) auto
  next
    case False
    then have "h' = h \<and> m' = m"
      using mem_write(1) by (cases e) (auto simp: r store_closed dest: MemoryStore_WriteAt_err)
    with mem_write(2) show ?thesis by (simp add: snaps_kept_def)
  qed
next
  case (mem_truncate h m sz e h' m' ss)
  show ?case
  proof (cases "e = None \<and> \<not> ms_closed m")
    case True
    with mem_truncate have "store_inv (h, m)" by (simp add: world_inv_def)
    from MemoryStore_Truncate_ok [OF this] mem_truncate(1) True
    have "store_inv (h', m')" "heap_frame h (ms_pages m) h' (ms_pages m')" by simp_all
    moreover from this have "\<not> ms_closed m'" by (simp add: store_inv_def)
    ultimately show ?thesis using mem_truncate(2) by (intro frame_step) auto
  next
    case False
    then have "h' = h \<and> m' = m"
      using mem_truncate(1) by (cases e) (auto simp: store_closed dest: MemoryStore_Truncate_err)
    with mem_truncate(2) show ?thesis by (simp add: snaps_kept_def)
  qed
next
  case (mem_snapshot h m s h' ss)
  then show ?case using snapshot_step by blast
next
  case (mem_close h m ss)
  then show ?case
    by (auto simp: world_inv_def snaps_kept_def MemoryStore_Close_def snap_ok_def)
qed

lemma memory_run_inv:
  assumes "memory_run w w'" and "world_inv w"
  shows "world_inv w' \<and> snaps_kept w w'"
  using assms
proof (induction rule: memory_run.induct)
  case (mem_here w)
  then show ?case by (simp add: snaps_kept_def)
next
  case (mem_more w w' w'')
  then show ?case using memory_step_inv [OF mem_more(2)] by (auto simp: snaps_kept_def)
qed

subsection \<open>Properties\<close>

lemma new_world_run_inv: "memory_run (new_world limit) w \<Longrightarrow> world_inv w"
  using memory_run_inv new_world_inv by blast

lemma run_store_inv:
  "memory_run (new_world limit) w \<Longrightarrow> \<not> ms_closed (mw_store w) \<Longrightarrow> store_inv (mw_heap w, mw_store w)"
  using new_world_run_inv [of limit w] by (simp add: world_inv_def)

text \<open>A session for the witnesses: write, take a snapshot, overwrite.\<close>

definition demo_written :: memory_world where
  "demo_written = (case MemoryStore_WriteAt [] (NewMemoryStore 10) [1,2,3] 0 of
     (r, h, m) \<Rightarrow> \<lparr>mw_heap = h, mw_store = m, mw_snaps = []\<rparr>)"

definition demo_shared :: memory_world where
  "demo_shared = (case MemoryStore_Snapshot (mw_heap demo_written) (mw_store demo_written) of
     (Inr s, h) \<Rightarrow> demo_written\<lparr>mw_heap := h, mw_snaps := [s]\<rparr>)"

definition demo_overwritten :: memory_world where
  "demo_overwritten = (case MemoryStore_WriteAt (mw_heap demo_shared) (mw_store demo_shared) [9] 1 of
     (r, h, m) \<Rightarrow> demo_shared\<lparr>mw_heap := h, mw_store := m\<rparr>)"

lemma demo_written_store:
  "\<exists>h m. MemoryStore_WriteAt [] (NewMemoryStore 10) [1,2,3] 0 = ((3, None), h, m) \<and> \<not> ms_closed m \<and>
     demo_written = \<lparr>mw_heap = h, mw_store = m, mw_snaps = []\<rparr>"
proof -
  obtain h pages where "write_pages [] [] [1,2,3] 0 = (h, pages)" by fastforce
  then show ?thesis by (simp add: demo_written_def MemoryStore_WriteAt_def NewMemoryStore_def)
qed

lemma demo_written_run: "memory_run (new_world 10) demo_written"
  and demo_written_contents: "store_contents (mw_heap demo_written, mw_store demo_written) = [1,2,3]"
  and demo_written_open: "\<not> ms_closed (mw_store demo_written)"
  and demo_written_limit: "ms_limit (mw_store demo_written) = 10"
  and demo_written_snaps: "mw_snaps demo_written = []"
proof -
  obtain h m where w: "MemoryStore_WriteAt [] (NewMemoryStore 10) [1,2,3] 0 = ((3, None), h, m)"
    "\<not> ms_closed m" and d: "demo_written = \<lparr>mw_heap = h, mw_store = m, mw_snaps = []\<rparr>"
    using demo_written_store by blast
  show "memory_run (new_world 10) demo_written"
    unfolding d new_world_def using mem_write [OF w(1)] by (blast intro: memory_run.intros)
  have "store_inv ([], NewMemoryStore 10)"
    using new_world_inv [of 10] by (simp add: world_inv_def new_world_def NewMemoryStore_def)
  from MemoryStore_WriteAt_ok [OF this w(1)]
  show "store_contents (mw_heap demo_written, mw_store demo_written) = [1,2,3]"
    by (simp add: d store_contents_def page_contents_def NewMemoryStore_def write_extend_def resize_def
        overwrite_def)
  show "\<not> ms_closed (mw_store demo_written)" using w(2) by (simp add: d)
  show "ms_limit (mw_store demo_written) = 10" "mw_snaps demo_written = []"
    using w(1) by (auto simp: d MemoryStore_WriteAt_def NewMemoryStore_def split: prod.splits)
qed

text \<open>
  C16. A snapshot of a memory store is immutable although it shares page objects with the store.
  Whatever the store's clients do after it was taken (overwrite the same pages, truncate, grow, take
  more snapshots, close the store), every in-range read of the snapshot returns the bytes the store held
  at that moment.
\<close>

theorem memory_snapshot_isolated:
  assumes "memory_run (new_world limit) w"
    and "MemoryStore_Snapshot (mw_heap w) (mw_store w) = (Inr s, h)"
    and "memory_run (w\<lparr>mw_heap := h, mw_snaps := mw_snaps w @ [s]\<rparr>) w'"
    and "0 \<le> off" and "nat off + n \<le> length (store_contents (mw_heap w, mw_store w))"
  shows "memorySnapshot_ReadAt (mw_heap w') s n off
    = (segment (nat off) n (store_contents (mw_heap w, mw_store w)), None)"
proof -
  obtain h0 m ss where w: "w = \<lparr>mw_heap = h0, mw_store = m, mw_snaps = ss\<rparr>" by (cases w)
  note S = snapshot_step [of h0 m ss s h] 
  have inv: "world_inv \<lparr>mw_heap = h, mw_store = m, mw_snaps = ss @ [s]\<rparr>"
    and c: "page_contents h (sp_pages s) (sp_size s) = store_contents (h0, m)"
    using S new_world_run_inv [OF assms(1)] assms(2) by (simp_all add: w)
  have "memory_run \<lparr>mw_heap = h, mw_store = m, mw_snaps = ss @ [s]\<rparr> w'" using assms(3) by (simp add: w)
  from memory_run_inv [OF this inv]
  have "snap_ok (mw_heap w') (ms_pages (mw_store w')) s"
    and b: "page_byte (mw_heap w') (sp_pages s) = page_byte h (sp_pages s)"
    by (auto simp: world_inv_def snaps_kept_def)
  then have "pages_ok (mw_heap w') (sp_pages s)" by (simp add: snap_ok_def)
  moreover have "page_contents (mw_heap w') (sp_pages s) (sp_size s) = store_contents (h0, m)"
    using b c by (simp add: page_contents_def)
  moreover have "length (store_contents (h0, m)) = nat (sp_size s)"
    using length_page_contents [of h "sp_pages s" "sp_size s"] c by simp
  ultimately show ?thesis
    using readMemory_ok [of "mw_heap w'" "sp_pages s" off n "sp_size s"] assms(4,5)
    by (simp add: w memorySnapshot_ReadAt_def)
qed

lemma world_updates:
  "w\<lparr>mw_heap := h, mw_snaps := ss\<rparr> = \<lparr>mw_heap = h, mw_store = mw_store w, mw_snaps = ss\<rparr>"
  "w\<lparr>mw_snaps := ss, mw_heap := h, mw_store := m\<rparr> = \<lparr>mw_heap = h, mw_store = m, mw_snaps = ss\<rparr>"
  by (cases w; simp)+

theorem memory_snapshot_isolated_witness:
  "\<exists>s \<in> set (mw_snaps demo_overwritten).
     memorySnapshot_ReadAt (mw_heap demo_overwritten) s 3 0 = ([1,2,3], None)"
proof -
  obtain s h where s: "MemoryStore_Snapshot (mw_heap demo_written) (mw_store demo_written) = (Inr s, h)"
    using demo_written_open by (simp add: MemoryStore_Snapshot_def)
  have sh: "demo_shared = demo_written\<lparr>mw_heap := h, mw_snaps := [s]\<rparr>"
    by (simp add: demo_shared_def s)
  obtain r h2 m2 where w2: "MemoryStore_WriteAt h (mw_store demo_written) [9] 1 = (r, h2, m2)"
    by (metis surj_pair)
  have "memory_step demo_shared demo_overwritten"
    using mem_write [OF w2, of "[s]"] by (simp add: demo_overwritten_def sh w2 world_updates)
  then have "memory_run demo_shared demo_overwritten" by (blast intro: memory_run.intros)
  then have "memory_run (demo_written\<lparr>mw_heap := h, mw_snaps := mw_snaps demo_written @ [s]\<rparr>) demo_overwritten"
    by (simp add: sh demo_written_snaps)
  from memory_snapshot_isolated [OF demo_written_run s this, of 0 3] demo_written_contents
  have "memorySnapshot_ReadAt (mw_heap demo_overwritten) s 3 0 = ([1,2,3], None)" by simp
  moreover have "s \<in> set (mw_snaps demo_overwritten)"
    by (simp add: demo_overwritten_def sh w2)
  ultimately show ?thesis by blast
qed

text \<open>
  C17. Writing to an open memory store. A successful \<open>WriteAt\<close> at any offset makes the store hold what an
  array holds after the write, the gap behind the old end filled with zeros, and never more bytes
  than the limit; a refused one leaves the store and every page object as they were.
\<close>

theorem memory_store_write:
  assumes "memory_run (new_world limit) w" and "\<not> ms_closed (mw_store w)"
    and "MemoryStore_WriteAt (mw_heap w) (mw_store w) p off = ((n, e), h, m)"
  shows "(e = None \<longrightarrow> n = length p \<and>
      store_contents (h, m) = write_extend (nat off) p (store_contents (mw_heap w, mw_store w)) \<and>
      int (length (store_contents (h, m))) \<le> max 0 (ms_limit m)) \<and>
    (e \<noteq> None \<longrightarrow> n = 0 \<and> h = mw_heap w \<and> m = mw_store w)"
proof (cases e)
  case None
  note W = MemoryStore_WriteAt_ok [OF run_store_inv [OF assms(1,2)] assms(3) [unfolded None]]
  then have "0 \<le> ms_size m" "ms_size m \<le> max 0 (ms_limit m)" by (simp_all add: store_inv_def)
  then have "int (length (store_contents (h, m))) \<le> max 0 (ms_limit m)"
    by (simp add: store_contents_def)
  with W None show ?thesis by simp
next
  case (Some x)
  with MemoryStore_WriteAt_err [OF assms(3) [unfolded Some]] show ?thesis by simp
qed

theorem memory_store_write_witness:
  "store_contents (case MemoryStore_WriteAt (mw_heap demo_written) (mw_store demo_written) [7] 5 of (r, h, m) \<Rightarrow> (h, m))
     = [1,2,3,0,0,7]"
proof -
  obtain h pages where p: "write_pages (mw_heap demo_written) (ms_pages (mw_store demo_written)) [7] 5 = (h, pages)"
    by fastforce
  note lim = demo_written_limit
  obtain m where w: "MemoryStore_WriteAt (mw_heap demo_written) (mw_store demo_written) [7] 5 = ((1, None), h, m)"
    using p demo_written_open lim by (simp add: MemoryStore_WriteAt_def)
  from memory_store_write [OF demo_written_run demo_written_open this]
  have "store_contents (h, m) = write_extend 5 [7] [1,2,3]" by (simp add: demo_written_contents)
  also have "\<dots> = [1,2,3,0,0,7]" by code_simp
  finally show ?thesis by (simp add: w)
qed

text \<open>
  Calls that follow a truncation, in any order; the run collects the ranges of the accepted writes.
\<close>

datatype store_call = Call_WriteAt bytes int | Call_Truncate int | Call_Snapshot | Call_Close

fun store_calls ::
    "page_heap \<Rightarrow> MemoryStore \<Rightarrow> store_call list \<Rightarrow> (nat \<times> nat) list \<times> page_heap \<times> MemoryStore" where
  "store_calls h m [] = ([], h, m)"
| "store_calls h m (Call_WriteAt p off # cs) =
     (case MemoryStore_WriteAt h m p off of
        ((n, Some e), h', m') \<Rightarrow> store_calls h' m' cs
      | ((n, None), h', m') \<Rightarrow>
          (case store_calls h' m' cs of (rs, t) \<Rightarrow> ((nat off, length p) # rs, t)))"
| "store_calls h m (Call_Truncate sz # cs) =
     (case MemoryStore_Truncate h m sz of (_, h', m') \<Rightarrow> store_calls h' m' cs)"
| "store_calls h m (Call_Snapshot # cs) = store_calls (snd (MemoryStore_Snapshot h m)) m cs"
| "store_calls h m (Call_Close # cs) = store_calls h (MemoryStore_Close m) cs"

definition store_zero :: "nat \<Rightarrow> page_heap \<times> MemoryStore \<Rightarrow> bool" where
  "store_zero k s \<longleftrightarrow> ms_closed (snd s) \<or> store_inv s \<and> zero_at k (store_contents s)"

lemma store_zero_write:
  assumes "store_zero k (h, m)" and "MemoryStore_WriteAt h m p off = ((n, e), h', m')"
    and "e = None \<Longrightarrow> \<not> (nat off \<le> k \<and> k < nat off + length p)"
  shows "store_zero k (h', m')"
proof (cases "ms_closed m \<or> e \<noteq> None")
  case True
  then have "h' = h" "m' = m"
    using assms(2) by (cases e; auto simp: store_closed dest: MemoryStore_WriteAt_err)+
  with assms(1) show ?thesis by simp
next
  case False
  then show ?thesis
    using memory_store.write_keeps_zero [of "(h, m)" p off n "(h', m')" k]
      MemoryStore_WriteAt_ok [of h m p off n h' m'] assms by (auto simp: store_zero_def)
qed

lemma store_zero_truncate:
  assumes "store_zero k (h, m)" and "MemoryStore_Truncate h m sz = (e, h', m')"
  shows "store_zero k (h', m')"
proof (cases "ms_closed m \<or> e \<noteq> None")
  case True
  then have "h' = h" "m' = m"
    using assms(2) by (cases e; auto simp: store_closed dest: MemoryStore_Truncate_err)+
  with assms(1) show ?thesis by simp
next
  case False
  then show ?thesis
    using memory_store.truncate_keeps_zero [of "(h, m)" sz "(h', m')" k]
      MemoryStore_Truncate_ok [of h m sz h' m'] assms by (auto simp: store_zero_def)
qed

lemma store_zero_snapshot:
  assumes "store_zero k (h, m)"
  shows "store_zero k (snd (MemoryStore_Snapshot h m), m)"
proof (cases "ms_closed m")
  case False
  with assms have "store_inv (h, m)" by (simp add: store_zero_def)
  then have "pages_ok h (ms_pages m)" by (simp add: store_inv_def)
  note sh = share_pages_byte [OF this] share_pages_ok [OF this]
  show ?thesis using assms False
    by (simp add: store_zero_def MemoryStore_Snapshot_def store_inv_def store_contents_def
        page_contents_def sh)
qed (simp add: store_zero_def)

lemma store_calls_zero:
  assumes "store_calls h m cs = (rs, h', m')" and "store_zero k (h, m)"
    and "\<And>start n. (start, n) \<in> set rs \<Longrightarrow> \<not> (start \<le> k \<and> k < start + n)"
  shows "store_zero k (h', m')"
  using assms
proof (induction h m cs arbitrary: rs rule: store_calls.induct)
  case (2 h m p off cs)
  obtain n e h1 m1 where w: "MemoryStore_WriteAt h m p off = ((n, e), h1, m1)" by (metis surj_pair)
  obtain rs1 where r: "store_calls h1 m1 cs = (rs1, h', m')"
    and rs: "rs = (if e = None then (nat off, length p) # rs1 else rs1)"
    using 2(3) by (cases e) (auto simp: w split: prod.splits)
  have "store_zero k (h1, m1)" by (rule store_zero_write [OF 2(4) w]) (use 2(5) rs in auto)
  then show ?case using 2(1,2) w r rs 2(5) by (cases e) auto
next
  case (3 h m sz cs)
  obtain e h1 m1 where "MemoryStore_Truncate h m sz = (e, h1, m1)" by (metis surj_pair)
  with 3 show ?case using store_zero_truncate by auto
next
  case (4 h m cs)
  then show ?case using store_zero_snapshot by simp
next
  case (5 h m cs)
  then show ?case by (simp add: store_zero_def MemoryStore_Close_def)
qed simp

text \<open>
  C18. Bytes cut off by \<open>Truncate\<close> never come back. After an open store was truncated to \<open>a\<close>, let its
  clients write, truncate, grow and take snapshots in any order: as long as it is open, every read
  behind \<open>a\<close> of bytes that no accepted write has covered since returns zeros, although pages are
  kept, shared with snapshots, copied and reused.
\<close>

theorem memory_store_no_stale_bytes:
  assumes "memory_run (new_world limit) w" and "\<not> ms_closed (mw_store w)"
    and "MemoryStore_Truncate (mw_heap w) (mw_store w) a = (None, h1, m1)"
    and "store_calls h1 m1 cs = (rs, h2, m2)" and "\<not> ms_closed m2"
    and "a \<le> off" and "off + int n \<le> ms_size m2"
    and "\<forall>(start, len) \<in> set rs. start + len \<le> nat off \<or> nat off + n \<le> start"
  shows "MemoryStore_ReadAt h2 m2 n off = (replicate n 0, None)"
proof -
  note inv = run_store_inv [OF assms(1,2)]
  note t = MemoryStore_Truncate_ok [OF inv assms(3)]
  have z: "store_zero k (h2, m2)" if k: "nat off \<le> k" "k < nat off + n" for k
  proof (rule store_calls_zero [OF assms(4)])
    show "store_zero k (h1, m1)"
      using memory_store.truncate_cuts [of "(mw_heap w, mw_store w)" a "(h1, m1)" k] inv t assms(3,6) k
      by (simp add: store_zero_def)
  qed (use assms(8) k in force)
  show ?thesis
  proof (cases "n = 0")
    case True
    then show ?thesis using assms(5-7) t by (simp add: MemoryStore_ReadAt_def readMemory_def)
  next
    case False
    then have "store_inv (h2, m2)" using z [of "nat off"] assms(5) by (simp add: store_zero_def)
    then show ?thesis
      using memory_store.zeros_read [of "(h2, m2)" off n] z t assms(5-7)
      by (auto simp: store_zero_def store_contents_def)
  qed
qed

lemma truncate_accepts:
  assumes "\<not> ms_closed m" and "0 \<le> sz" and "sz \<le> ms_limit m"
  shows "\<exists>h' m'. MemoryStore_Truncate h m sz = (None, h', m') \<and> ms_limit m' = ms_limit m \<and>
    \<not> ms_closed m' \<and> ms_size m' = sz"
  using assms by (simp add: MemoryStore_Truncate_def case_prod_beta' Let_def)

text \<open>The bytes 2 and 3 are cut off; a write behind the end then grows the store over their place.\<close>

theorem memory_store_no_stale_bytes_witness:
  "MemoryStore_ReadAt (mw_heap demo_written) (mw_store demo_written) 3 0 = ([1,2,3], None) \<and>
   (case MemoryStore_Truncate (mw_heap demo_written) (mw_store demo_written) 1 of (e, h1, m1) \<Rightarrow>
    case store_calls h1 m1 [Call_Snapshot, Call_WriteAt [7] 5] of (rs, h2, m2) \<Rightarrow>
      e = None \<and> rs = [(5, 1)] \<and> ms_size m2 = 6 \<and>
      MemoryStore_ReadAt h2 m2 4 1 = ([0,0,0,0], None))"
proof
  show "MemoryStore_ReadAt (mw_heap demo_written) (mw_store demo_written) 3 0 = ([1,2,3], None)"
    using memory_store.read_ok [of "(mw_heap demo_written, mw_store demo_written)" 0 3]
      run_store_inv [OF demo_written_run demo_written_open] demo_written_contents
    by (simp add: segment_def)
  from truncate_accepts [OF demo_written_open, of 1 "mw_heap demo_written"] demo_written_limit
  obtain h1 m1 where
    t: "MemoryStore_Truncate (mw_heap demo_written) (mw_store demo_written) 1 = (None, h1, m1)"
    and m1: "ms_limit m1 = 10" "\<not> ms_closed m1" "ms_size m1 = 1" by auto
  obtain h2 pages where
    p: "write_pages (share_pages (ms_pages m1) h1) (ms_pages m1) [7] 5 = (h2, pages)" by fastforce
  let ?m2 = "m1\<lparr>ms_pages := pages, ms_size := 6\<rparr>"
  have c: "store_calls h1 m1 [Call_Snapshot, Call_WriteAt [7] 5] = ([(5, 1)], h2, ?m2)"
    using m1 p by (simp add: MemoryStore_Snapshot_def MemoryStore_WriteAt_def)
  from memory_store_no_stale_bytes [OF demo_written_run demo_written_open t c, of 1 4]
  have "MemoryStore_ReadAt h2 ?m2 4 1 = ([0,0,0,0], None)"
    using m1 by (simp add: numeral_eq_Suc)
  then show "case MemoryStore_Truncate (mw_heap demo_written) (mw_store demo_written) 1 of
      (e, h1, m1) \<Rightarrow> case store_calls h1 m1 [Call_Snapshot, Call_WriteAt [7] 5] of (rs, h2, m2) \<Rightarrow>
      e = None \<and> rs = [(5, 1)] \<and> ms_size m2 = 6 \<and>
      MemoryStore_ReadAt h2 m2 4 1 = ([0,0,0,0], None)"
    unfolding t prod.case c by simp
qed

end
