(* ===== verification/Sparse_Overlay.thy ===== *)
theory Sparse_Overlay
  imports Block_Device
begin

text \<open>
  \<open>src/block/sparse.go\<close>: the overlay that keeps changed 4 KiB chunks in caller-owned backing storage at
  their original offsets. The backing is a parameter: its methods, and, for the theorems, which of
  its bytes were written and what they are. The scratch chunk is refilled before every use and is a
  local value here. \<open>Done()\<close> is closed exactly when \<open>failure\<close> is set.
\<close>

subsection \<open>State and operations\<close>

abbreviation SparseChunkSize :: nat where "SparseChunkSize \<equiv> 4096"

record 'b backing_methods =
  bk_ReadAt :: "'b \<Rightarrow> reader_at"
  bk_WriteAt :: "'b \<Rightarrow> bytes \<Rightarrow> int \<Rightarrow> (nat \<times> go_error option) \<times> 'b"
  bk_Sync :: "'b \<Rightarrow> go_error option \<times> 'b"

record 'b SparseOverlay =
  so_base :: device
  so_backing :: 'b
  so_geometry :: geometry
  so_dirty :: "nat list"
  so_failure :: "go_error option"

definition NewSparseOverlay :: "device option \<Rightarrow> 'b option \<Rightarrow> go_error + 'b SparseOverlay" where
  "NewSparseOverlay base backing =
     (case (base, backing) of
        (Some bs, Some bk) \<Rightarrow>
          let g = dev_Geometry bs in
          if geo_Size g < 0 \<or> geo_LogicalBlockSize g = 0 \<or>
             int SparseChunkSize mod uint (geo_LogicalBlockSize g) \<noteq> 0
          then Inl (Errorf ''sparse overlay: incompatible geometry'')
          else Inr \<lparr>so_base = bs, so_backing = bk, so_geometry = g, so_dirty = [], so_failure = None\<rparr>
      | _ \<Rightarrow> Inl (Errorf ''sparse overlay: base and backing required''))"

definition sparse_Capabilities :: "'b SparseOverlay \<Rightarrow> capabilities" where
  "sparse_Capabilities d = no_capabilities
     \<lparr>cap_Writable := True, cap_Flush := True, cap_Concurrent := True\<rparr>"

definition sparse_DirtyBytes :: "'b SparseOverlay \<Rightarrow> int" where
  "sparse_DirtyBytes d = int (length (so_dirty d)) * int SparseChunkSize"

definition sparse_fail :: "go_error \<Rightarrow> 'b SparseOverlay \<Rightarrow> go_error \<times> 'b SparseOverlay" where
  "sparse_fail err d =
     (case so_failure d of
        None \<Rightarrow> (let f = Wrapped ''sparse overlay: %w'' err in (f, d\<lparr>so_failure := Some f\<rparr>))
      | Some f \<Rightarrow> (f, d))"

text \<open>The inner loop of \<open>ReadAt\<close>: extend the request while the next chunk has the same origin.\<close>

function run_size :: "nat list \<Rightarrow> bool \<Rightarrow> nat \<Rightarrow> nat \<Rightarrow> nat \<Rightarrow> nat" where
  "run_size ds dirty remaining pos sz =
     (if sz < remaining
      then (if ((pos + sz) div SparseChunkSize \<in> set ds) \<noteq> dirty then sz
            else run_size ds dirty remaining pos (sz + min (remaining - sz) SparseChunkSize))
      else sz)"
  by pat_completeness auto
termination
  by (relation "measure (\<lambda>(ds, dirty, remaining, pos, sz). remaining - sz)") auto

declare run_size.simps [simp del]

function sparse_read_loop ::
    "'b backing_methods \<Rightarrow> 'b SparseOverlay \<Rightarrow> nat \<Rightarrow> nat \<Rightarrow> nat \<Rightarrow> bytes \<Rightarrow>
     read_result \<times> 'b SparseOverlay" where
  "sparse_read_loop bm d n off k p =
     (if k < n
      then (let pos = off + k;
                dirty = (pos div SparseChunkSize \<in> set (so_dirty d));
                sz = run_size (so_dirty d) dirty (n - k) pos
                       (min (n - k) (SparseChunkSize - pos mod SparseChunkSize));
                source = (if dirty then bk_ReadAt bm (so_backing d) else dev_ReadAt (so_base d))
            in case ReadFullAt source sz (int pos) of
                 (bs, Some e) \<Rightarrow> (let (f, d') = sparse_fail e d in ((p @ bs, Some f), d'))
               | (bs, None) \<Rightarrow>
                   if bs = [] then ((p, Some ErrNoProgress), d)
                   else sparse_read_loop bm d n off (k + length bs) (p @ bs))
      else ((p, None), d))"
  by pat_completeness auto
termination
  by (relation "measure (\<lambda>(bm, d, n, off, k, p). n - k)")
    (auto simp flip: length_greater_0_conv)

declare sparse_read_loop.simps [simp del]

definition sparse_ReadAt ::
    "'b backing_methods \<Rightarrow> 'b SparseOverlay \<Rightarrow> nat \<Rightarrow> int \<Rightarrow> read_result \<times> 'b SparseOverlay" where
  "sparse_ReadAt bm d n off =
     (case so_failure d of
        Some f \<Rightarrow> (([], Some f), d)
      | None \<Rightarrow>
        (case ValidateRange (geo_Size (so_geometry d)) off (int n) of
           Some e \<Rightarrow> (([], Some e), d)
         | None \<Rightarrow> sparse_read_loop bm d n (nat off) 0 []))"

text \<open>
  \<open>changed\<close>: read the clean chunk and compare the part being overwritten. The result carries the
  scratch chunk.
\<close>

definition sparse_changed ::
    "'b SparseOverlay \<Rightarrow> bytes \<Rightarrow> nat \<Rightarrow> (go_error + (bool \<times> bytes)) \<times> 'b SparseOverlay" where
  "sparse_changed d p off =
     (let start = off - off mod SparseChunkSize;
          sz = min SparseChunkSize (nat (geo_Size (so_geometry d)) - start)
      in case ReadFullAt (dev_ReadAt (so_base d)) sz (int start) of
           (_, Some e) \<Rightarrow> (let (f, d') = sparse_fail e d in (Inl f, d'))
         | (scratch, None) \<Rightarrow> (Inr (segment (off - start) (length p) scratch \<noteq> p, scratch), d))"

definition mark_dirty :: "nat \<Rightarrow> nat list \<Rightarrow> nat list" where
  "mark_dirty i ds = (if i \<in> set ds then ds else i # ds)"

definition sparse_put ::
    "'b backing_methods \<Rightarrow> 'b SparseOverlay \<Rightarrow> bytes \<Rightarrow> nat \<Rightarrow> nat \<Rightarrow> go_error option \<times> 'b SparseOverlay" where
  "sparse_put bm d data at index =
     (let ((n, err), b) = bk_WriteAt bm (so_backing d) data (int at);
          d1 = d\<lparr>so_backing := b\<rparr>
      in case (if err = None \<and> n \<noteq> length data then Some ErrShortWrite else err) of
           Some e \<Rightarrow> (let (f, d') = sparse_fail e d1 in (Some f, d'))
         | None \<Rightarrow> (None, d1\<lparr>so_dirty := mark_dirty index (so_dirty d1)\<rparr>))"

function sparse_write_loop ::
    "'b backing_methods \<Rightarrow> 'b SparseOverlay \<Rightarrow> bytes \<Rightarrow> nat \<Rightarrow> nat \<Rightarrow>
     (nat \<times> go_error option) \<times> 'b SparseOverlay" where
  "sparse_write_loop bm d p off k =
     (if k < length p
      then (let pos = off + k;
                index = pos div SparseChunkSize;
                sz = min (length p - k) (SparseChunkSize - pos mod SparseChunkSize);
                data = segment k sz p
            in if index \<in> set (so_dirty d)
               then (case sparse_put bm d data pos index of
                       (Some f, d') \<Rightarrow> ((k, Some f), d')
                     | (None, d') \<Rightarrow> sparse_write_loop bm d' p off (k + sz))
               else (case sparse_changed d data pos of
                       (Inl f, d') \<Rightarrow> ((k, Some f), d')
                     | (Inr (changed, scratch), d') \<Rightarrow>
                         if \<not> changed then sparse_write_loop bm d' p off (k + sz)
                         else let start = index * SparseChunkSize;
                                  chunk = overwrite (pos - start) data scratch
                              in case sparse_put bm d' chunk start index of
                                   (Some f, d'') \<Rightarrow> ((k, Some f), d'')
                                 | (None, d'') \<Rightarrow> sparse_write_loop bm d'' p off (k + sz)))
      else ((k, None), d))"
  by pat_completeness auto
termination
  by (relation "measure (\<lambda>(bm, d, p, off, k). length p - k)") auto

declare sparse_write_loop.simps [simp del]

definition sparse_WriteAt ::
    "'b backing_methods \<Rightarrow> 'b SparseOverlay \<Rightarrow> bytes \<Rightarrow> int \<Rightarrow> (nat \<times> go_error option) \<times> 'b SparseOverlay" where
  "sparse_WriteAt bm d p off =
     (case so_failure d of
        Some f \<Rightarrow> ((0, Some f), d)
      | None \<Rightarrow>
        (case ValidateRange (geo_Size (so_geometry d)) off (int (length p)) of
           Some e \<Rightarrow> ((0, Some e), d)
         | None \<Rightarrow> sparse_write_loop bm d p (nat off) 0))"

definition sparse_Flush :: "'b backing_methods \<Rightarrow> 'b SparseOverlay \<Rightarrow> go_error option \<times> 'b SparseOverlay" where
  "sparse_Flush bm d =
     (case so_failure d of
        Some f \<Rightarrow> (Some f, d)
      | None \<Rightarrow>
        let (err, b) = bk_Sync bm (so_backing d); d1 = d\<lparr>so_backing := b\<rparr>
        in case err of
             Some e \<Rightarrow> (let (f, d') = sparse_fail e d1 in (Some f, d'))
           | None \<Rightarrow> (None, d1))"

end
