(* ===== verification/Sparse_Store.thy ===== *)
theory Sparse_Store
  imports Sparse_Overlay
begin

text \<open>
  The sparse overlay (\<open>src/block/sparse.go\<close>) against the storage contract: reads that are coalesced over
  runs of chunks, writes that copy a chunk on its first change, and the terminal failure state.
\<close>

subsection \<open>What the backing promises\<close>

text \<open>A complete read over a region the reader serves, position by position.\<close>

lemma ReadFullAt_loop_region:
  assumes R: "\<And>m a. 0 < m \<Longrightarrow> a + m \<le> n \<Longrightarrow> \<exists>k>0. k \<le> m \<and>
      fst (reader m (off + int a)) = map f [a..<a + k] \<and>
      (snd (reader m (off + int a)) = None \<or> snd (reader m (off + int a)) = Some EOF \<and> k = m)"
    and "m \<le> n"
  shows "ReadFullAt_loop reader n off (map f [0..<m]) = (map f [0..<n], None)"
  using assms(2)
proof (induction "n - m" arbitrary: m rule: less_induct)
  case less
  show ?case
  proof (cases "m < n")
    case False
    with less.prems show ?thesis by (simp add: ReadFullAt_loop.simps)
  next
    case True
    then obtain k where k: "0 < k" "k \<le> n - m"
      and bs: "fst (reader (n - m) (off + int m)) = map f [m..<m + k]"
      and e: "snd (reader (n - m) (off + int m)) = None \<or>
        snd (reader (n - m) (off + int m)) = Some EOF \<and> k = n - m"
      using R [of "n - m" m] by auto
    then have rd: "reader (n - m) (off + int m) = (map f [m..<m + k], snd (reader (n - m) (off + int m)))"
      by (metis prod.collapse)
    have app: "map f [0..<m] @ map f [m..<m + k] = map f [0..<m + k]"
      using upt_add_eq_append [of 0 m k] by simp
    from e show ?thesis
    proof
      assume e: "snd (reader (n - m) (off + int m)) = None"
      have "ReadFullAt_loop reader n off (map f [0..<m]) = ReadFullAt_loop reader n off (map f [0..<m + k])"
        using True k rd e by (subst ReadFullAt_loop.simps) (simp add: app)
      then show ?thesis using less.hyps [of "m + k"] k True by simp
    next
      assume e: "snd (reader (n - m) (off + int m)) = Some EOF \<and> k = n - m"
      with True rd show ?thesis
        using app by (subst ReadFullAt_loop.simps) simp
    qed
  qed
qed

lemma ReadFullAt_region:
  assumes "\<And>m a. 0 < m \<Longrightarrow> a + m \<le> n \<Longrightarrow> \<exists>k>0. k \<le> m \<and>
      fst (reader m (off + int a)) = map f [a..<a + k] \<and>
      (snd (reader m (off + int a)) = None \<or> snd (reader m (off + int a)) = Some EOF \<and> k = m)"
  shows "ReadFullAt reader n off = (map f [0..<n], None)"
  using ReadFullAt_loop_region [OF assms, of n 0] by (simp add: ReadFullAt_def)

text \<open>
  Written bytes read back, whatever the backing does elsewhere: reads of bytes that were never
  written are not constrained at all.
\<close>

definition backing_writes :: "'b backing_methods \<Rightarrow> ('b \<Rightarrow> nat set) \<Rightarrow> ('b \<Rightarrow> nat \<Rightarrow> byte) \<Rightarrow> bool" where
  "backing_writes bm written cell \<longleftrightarrow>
     (\<forall>b p off b'. bk_WriteAt bm b p (int off) = ((length p, None), b') \<longrightarrow>
        written b' = written b \<union> {off..<off + length p} \<and>
        (\<forall>k. cell b' k = (if off \<le> k \<and> k < off + length p then p ! (k - off) else cell b k)))"

definition backing_reads :: "'b backing_methods \<Rightarrow> ('b \<Rightarrow> nat set) \<Rightarrow> ('b \<Rightarrow> nat \<Rightarrow> byte) \<Rightarrow> bool" where
  "backing_reads bm written cell \<longleftrightarrow>
     (\<forall>b n off. 0 < n \<longrightarrow> {off..<off + n} \<subseteq> written b \<longrightarrow>
        (\<exists>k>0. k \<le> n \<and> fst (bk_ReadAt bm b n (int off)) = map (cell b) [off..<off + k] \<and>
           (snd (bk_ReadAt bm b n (int off)) = None \<or>
            snd (bk_ReadAt bm b n (int off)) = Some EOF \<and> k = n)))"

definition backing_ok :: "'b backing_methods \<Rightarrow> ('b \<Rightarrow> nat set) \<Rightarrow> ('b \<Rightarrow> nat \<Rightarrow> byte) \<Rightarrow> bool" where
  "backing_ok bm written cell \<longleftrightarrow> backing_writes bm written cell \<and> backing_reads bm written cell \<and>
     (\<forall>b b'. bk_Sync bm b = (None, b') \<longrightarrow> written b' = written b \<and> cell b' = cell b)"

lemma backing_readsD:
  assumes "backing_reads bm written cell" and "0 < n" and "{off..<off + n} \<subseteq> written b"
  shows "\<exists>k>0. k \<le> n \<and> fst (bk_ReadAt bm b n (int off)) = map (cell b) [off..<off + k] \<and>
    (snd (bk_ReadAt bm b n (int off)) = None \<or> snd (bk_ReadAt bm b n (int off)) = Some EOF \<and> k = n)"
  using assms unfolding backing_reads_def by (elim allE impE)

lemma backing_read:
  assumes "backing_ok bm written cell" and "{off..<off + n} \<subseteq> written b"
  shows "ReadFullAt (bk_ReadAt bm b) n (int off) = (map (\<lambda>k. cell b (off + k)) [0..<n], None)"
proof (rule ReadFullAt_region)
  fix m a assume m: "0 < m" "a + m \<le> n"
  then have "{off + a..<off + a + m} \<subseteq> written b" using assms(2) by auto
  with backing_readsD [of bm written cell m "off + a" b] assms(1) m(1) obtain k where "k > 0" "k \<le> m"
    "fst (bk_ReadAt bm b m (int (off + a))) = map (cell b) [off + a..<off + a + k]"
    "snd (bk_ReadAt bm b m (int (off + a))) = None \<or> snd (bk_ReadAt bm b m (int (off + a))) = Some EOF \<and> k = m"
    unfolding backing_ok_def by blast
  moreover have "map (cell b) [off + a..<off + a + k] = map (\<lambda>k. cell b (off + k)) [a..<a + k]"
    by (rule nth_equalityI) (simp_all add: add.assoc)
  ultimately show "\<exists>k>0. k \<le> m \<and>
      fst (bk_ReadAt bm b m (int off + int a)) = map (\<lambda>k. cell b (off + k)) [a..<a + k] \<and>
      (snd (bk_ReadAt bm b m (int off + int a)) = None \<or>
       snd (bk_ReadAt bm b m (int off + int a)) = Some EOF \<and> k = m)"
    unfolding of_nat_add [symmetric] by auto
qed

subsection \<open>What the overlay holds\<close>

record 'b opened_sparse =
  os_methods :: "'b backing_methods"
  os_written :: "'b \<Rightarrow> nat set"
  os_cell :: "'b \<Rightarrow> nat \<Rightarrow> byte"
  os_overlay :: "'b SparseOverlay"

abbreviation so_size :: "'b SparseOverlay \<Rightarrow> nat" where
  "so_size d \<equiv> nat (geo_Size (so_geometry d))"

definition sparse_byte :: "('b \<Rightarrow> nat \<Rightarrow> byte) \<Rightarrow> 'b SparseOverlay \<Rightarrow> nat \<Rightarrow> byte" where
  "sparse_byte cell d k =
     (if k div SparseChunkSize \<in> set (so_dirty d) then cell (so_backing d) k else base_bytes (so_base d) ! k)"

definition sparse_inv :: "'b backing_methods \<Rightarrow> ('b \<Rightarrow> nat set) \<Rightarrow> ('b \<Rightarrow> nat \<Rightarrow> byte) \<Rightarrow> 'b SparseOverlay \<Rightarrow> bool" where
  "sparse_inv bm written cell d \<longleftrightarrow>
     so_failure d = None \<and> backing_ok bm written cell \<and> device_faithful (so_base d) \<and>
     so_geometry d = dev_Geometry (so_base d) \<and> distinct (so_dirty d) \<and>
     (\<forall>k < so_size d. k div SparseChunkSize \<in> set (so_dirty d) \<longrightarrow> k \<in> written (so_backing d))"

lemma run_size_spec:
  assumes "(pos + sz) mod SparseChunkSize = 0 \<or> remaining \<le> sz" and "sz \<le> remaining"
    and "\<And>j. j < sz \<Longrightarrow> ((pos + j) div SparseChunkSize \<in> set ds) = dirty"
  shows "sz \<le> run_size ds dirty remaining pos sz \<and> run_size ds dirty remaining pos sz \<le> remaining \<and>
    (\<forall>j < run_size ds dirty remaining pos sz. ((pos + j) div SparseChunkSize \<in> set ds) = dirty)"
  using assms
proof (induction ds dirty remaining pos sz rule: run_size.induct)
  case (1 ds dirty remaining pos sz)
  show ?case
  proof (cases "sz < remaining \<and> ((pos + sz) div SparseChunkSize \<in> set ds) = dirty")
    case False
    then have "run_size ds dirty remaining pos sz = sz" by (subst run_size.simps) auto
    then show ?thesis using "1.prems" by simp
  next
    case True
    let ?s = "min (remaining - sz) SparseChunkSize"
    have al: "(pos + sz) mod SparseChunkSize = 0" using "1.prems"(1) True by linarith
    have same: "(pos + j) div SparseChunkSize = (pos + sz) div SparseChunkSize"
      if "sz \<le> j" "j < sz + ?s" for j
    proof (subst div_eq_iff_block)
      have "(pos + sz) div SparseChunkSize * SparseChunkSize = pos + sz"
        using al div_block_mod [of "pos + sz" SparseChunkSize] by linarith
      then show "(pos + sz) div SparseChunkSize * SparseChunkSize \<le> pos + j \<and>
          pos + j < (pos + sz) div SparseChunkSize * SparseChunkSize + SparseChunkSize"
        using that by linarith
    qed simp
    have "((pos + j) div SparseChunkSize \<in> set ds) = dirty" if "j < sz + ?s" for j
      using "1.prems"(3) [of j] same [of j] that True by (cases "j < sz") auto
    moreover have "(pos + (sz + ?s)) mod SparseChunkSize = 0 \<or> remaining \<le> sz + ?s"
      using al by (auto simp: min_def mod_add_eq simp flip: add.assoc)
    ultimately have IH: "sz + ?s \<le> run_size ds dirty remaining pos (sz + ?s) \<and>
      run_size ds dirty remaining pos (sz + ?s) \<le> remaining \<and>
      (\<forall>j<run_size ds dirty remaining pos (sz + ?s). ((pos + j) div SparseChunkSize \<in> set ds) = dirty)"
      using True by (intro "1.IH") auto
    moreover have "run_size ds dirty remaining pos sz = run_size ds dirty remaining pos (sz + ?s)"
      using True by (subst run_size.simps) simp
    ultimately show ?thesis by (simp only:) (blast dest: add_leD1)
  qed
qed

abbreviation sparse_map :: "('b \<Rightarrow> nat \<Rightarrow> byte) \<Rightarrow> 'b SparseOverlay \<Rightarrow> nat \<Rightarrow> nat \<Rightarrow> bytes" where
  "sparse_map cell d off n \<equiv> map (\<lambda>k. sparse_byte cell d (off + k)) [0..<n]"

text \<open>A run of chunks with the same origin is read correctly, from whichever side holds it.\<close>

lemma sparse_source_read:
  assumes inv: "sparse_inv bm written cell d" and "pos + sz \<le> so_size d"
    and same: "\<And>j. j < sz \<Longrightarrow> ((pos + j) div SparseChunkSize \<in> set (so_dirty d)) = dirty"
  shows "ReadFullAt (if dirty then bk_ReadAt bm (so_backing d) else dev_ReadAt (so_base d)) sz (int pos)
    = (sparse_map cell d pos sz, None)"
proof (cases dirty)
  case True
  have "k \<in> written (so_backing d)" if "k \<in> {pos..<pos + sz}" for k
  proof -
    have "k div SparseChunkSize \<in> set (so_dirty d)" using same [of "k - pos"] that True by auto
    then show ?thesis using inv assms(2) that by (simp add: sparse_inv_def)
  qed
  then have "ReadFullAt (bk_ReadAt bm (so_backing d)) sz (int pos)
      = (map (\<lambda>k. cell (so_backing d) (pos + k)) [0..<sz], None)"
    using inv by (intro backing_read) (auto simp: sparse_inv_def)
  moreover have "map (\<lambda>k. cell (so_backing d) (pos + k)) [0..<sz] = sparse_map cell d pos sz"
    using same True by (simp add: sparse_byte_def)
  ultimately show ?thesis using True by simp
next
  case False
  have base: "device_faithful (so_base d)" "so_size d = nat (geo_Size (dev_Geometry (so_base d)))"
    "length (base_bytes (so_base d)) = so_size d"
    using inv by (auto simp: sparse_inv_def device_faithful_def)
  then have "ReadFullAt (dev_ReadAt (so_base d)) sz (int pos) = (segment pos sz (base_bytes (so_base d)), None)"
    using assms(2) by (intro device_faithful_read) simp_all
  moreover have "segment pos sz (base_bytes (so_base d)) = sparse_map cell d pos sz"
    using same False assms(2) base(3) by (intro segment_eqI) (simp_all add: sparse_byte_def)
  ultimately show ?thesis using False by simp
qed

lemma sparse_read_loop_ok:
  assumes "sparse_inv bm written cell d" and "off + n \<le> so_size d" and "k \<le> n"
  shows "sparse_read_loop bm d n off k (sparse_map cell d off k) = ((sparse_map cell d off n, None), d)"
  using assms
proof (induction "n - k" arbitrary: k rule: less_induct)
  case less
  show ?case
  proof (cases "k < n")
    case False
    with less.prems(3) have "k = n" by simp
    then show ?thesis by (subst sparse_read_loop.simps) simp
  next
    case True
    define pos where "pos = off + k"
    define dirty where "dirty = (pos div SparseChunkSize \<in> set (so_dirty d))"
    define sz0 where "sz0 = min (n - k) (SparseChunkSize - pos mod SparseChunkSize)"
    define sz where "sz = run_size (so_dirty d) dirty (n - k) pos sz0"
    have pos': "pos = pos div SparseChunkSize * SparseChunkSize + pos mod SparseChunkSize"
      by (simp only: div_block_mod)
    have "0 < sz0" using True by (simp add: sz0_def)
    have al: "(pos + sz0) mod SparseChunkSize = 0 \<or> n - k \<le> sz0"
    proof (cases "n - k \<le> SparseChunkSize - pos mod SparseChunkSize")
      case False
      then have "sz0 = SparseChunkSize - pos mod SparseChunkSize" by (simp add: sz0_def)
      moreover have "pos mod SparseChunkSize < SparseChunkSize" by simp
      ultimately have "pos + sz0 = pos div SparseChunkSize * SparseChunkSize + SparseChunkSize"
        using pos' by linarith
      then show ?thesis by simp
    qed (simp add: sz0_def)
    have first: "((pos + j) div SparseChunkSize \<in> set (so_dirty d)) = dirty" if "j < sz0" for j
    proof -
      have "(pos + j) div SparseChunkSize = pos div SparseChunkSize"
        using that pos' unfolding sz0_def by (subst div_eq_iff_block) linarith+
      then show ?thesis by (simp add: dirty_def)
    qed
    have "sz0 \<le> n - k" by (simp add: sz0_def)
    from run_size_spec [OF al this first, folded sz_def]
    have sz: "sz0 \<le> sz" "sz \<le> n - k"
      "\<And>j. j < sz \<Longrightarrow> ((pos + j) div SparseChunkSize \<in> set (so_dirty d)) = dirty" by blast+
    have "pos + sz \<le> so_size d" using sz(2) True less.prems(2) by (simp add: pos_def)
    note rd = sparse_source_read [OF less.prems(1) this sz(3)]
    have app: "sparse_map cell d off k @ sparse_map cell d pos sz = sparse_map cell d off (k + sz)"
    proof -
      have "sparse_map cell d pos sz = map (\<lambda>j. sparse_byte cell d (off + j)) [k..<k + sz]"
        by (rule nth_equalityI) (simp_all add: pos_def add.assoc)
      then show ?thesis using upt_add_eq_append [of 0 k sz] by simp
    qed
    have "sparse_read_loop bm d n off k (sparse_map cell d off k)
        = sparse_read_loop bm d n off (k + sz) (sparse_map cell d off (k + sz))"
      using True rd \<open>0 < sz0\<close> sz(1)
      by (subst sparse_read_loop.simps) (simp add: Let_def app flip: pos_def dirty_def sz0_def sz_def)
    also have "\<dots> = ((sparse_map cell d off n, None), d)"
      using less.hyps [of "k + sz"] less.prems(1,2) sz \<open>0 < sz0\<close> True by simp
    finally show ?thesis .
  qed
qed


lemma sparse_put_ok:
  assumes inv: "sparse_inv bm written cell d" and put: "sparse_put bm d data at index = (None, d')"
    and chunk: "\<And>k. at \<le> k \<Longrightarrow> k < at + length data \<Longrightarrow> k div SparseChunkSize = index"
    and whole: "index \<notin> set (so_dirty d) \<Longrightarrow>
      (\<And>k. k < so_size d \<Longrightarrow> k div SparseChunkSize = index \<Longrightarrow> at \<le> k \<and> k < at + length data)"
  shows "sparse_inv bm written cell d' \<and> so_geometry d' = so_geometry d \<and>
    (\<forall>k < so_size d. sparse_byte cell d' k =
       (if at \<le> k \<and> k < at + length data then data ! (k - at) else sparse_byte cell d k))"
proof -
  from put obtain b where w: "bk_WriteAt bm (so_backing d) data (int at) = ((length data, None), b)"
    and d': "d' = d\<lparr>so_backing := b, so_dirty := mark_dirty index (so_dirty d)\<rparr>"
    by (auto simp: sparse_put_def Let_def sparse_fail_def split: prod.splits option.splits if_splits)
  have "backing_writes bm written cell" using inv by (simp add: sparse_inv_def backing_ok_def)
  with w have wr: "written b = written (so_backing d) \<union> {at..<at + length data}"
    and ce: "\<And>k. cell b k = (if at \<le> k \<and> k < at + length data then data ! (k - at) else cell (so_backing d) k)"
    unfolding backing_writes_def by blast+
  have md: "i \<in> set (mark_dirty index (so_dirty d)) \<longleftrightarrow> i = index \<or> i \<in> set (so_dirty d)" for i
    by (auto simp: mark_dirty_def)
  have "k \<in> written b" if "k < so_size d" "k div SparseChunkSize \<in> set (mark_dirty index (so_dirty d))" for k
    using that inv whole [of k] by (auto simp: md wr sparse_inv_def)
  then have "sparse_inv bm written cell d'"
    using inv by (auto simp: sparse_inv_def d' mark_dirty_def)
  moreover have "sparse_byte cell d' k =
       (if at \<le> k \<and> k < at + length data then data ! (k - at) else sparse_byte cell d k)"
    if "k < so_size d" for k
    using that chunk [of k] whole [of k] by (auto simp: sparse_byte_def d' md ce)
  ultimately show ?thesis by (simp add: d')
qed

lemma sparse_changed_ok:
  assumes inv: "sparse_inv bm written cell d" and pos: "pos < so_size d"
  defines "start \<equiv> pos div SparseChunkSize * SparseChunkSize"
  defines "scratch \<equiv> segment start (min SparseChunkSize (so_size d - start)) (base_bytes (so_base d))"
  shows "sparse_changed d data pos = (Inr (segment (pos - start) (length data) scratch \<noteq> data, scratch), d)"
proof -
  have start: "pos - pos mod SparseChunkSize = start" by (simp add: start_def minus_mod_eq_div_mult)
  have "start \<le> pos" by (simp add: start_def)
  then have "start + min SparseChunkSize (so_size d - start) \<le> nat (geo_Size (dev_Geometry (so_base d)))"
    using inv pos by (simp add: sparse_inv_def)
  with inv have "ReadFullAt (dev_ReadAt (so_base d)) (min SparseChunkSize (so_size d - start)) (int start)
      = (scratch, None)"
    unfolding scratch_def by (intro device_faithful_read) (simp_all add: sparse_inv_def)
  then show ?thesis by (simp add: sparse_changed_def Let_def start)
qed


lemma sparse_write_clean:
  assumes inv: "sparse_inv bm written cell d" and range: "pos + length data \<le> so_size d"
    and within: "pos mod SparseChunkSize + length data \<le> SparseChunkSize" and "data \<noteq> []"
    and clean: "pos div SparseChunkSize \<notin> set (so_dirty d)"
  defines "start \<equiv> pos div SparseChunkSize * SparseChunkSize"
  defines "scratch \<equiv> segment start (min SparseChunkSize (so_size d - start)) (base_bytes (so_base d))"
  assumes put: "sparse_put bm d (overwrite (pos - start) data scratch) start (pos div SparseChunkSize) = (None, d')"
  shows "sparse_inv bm written cell d' \<and> so_geometry d' = so_geometry d \<and>
    (\<forall>k < so_size d. sparse_byte cell d' k =
       (if pos \<le> k \<and> k < pos + length data then data ! (k - pos) else sparse_byte cell d k))"
proof -
  define i where "i = pos div SparseChunkSize"
  have pos: "pos = start + pos mod SparseChunkSize" by (simp add: start_def)
  have lb: "length (base_bytes (so_base d)) = so_size d"
    using inv by (simp add: sparse_inv_def device_faithful_def)
  have sc: "length scratch = min SparseChunkSize (so_size d - start)"
    using lb by (simp add: scratch_def)
  have fits: "pos - start + length data \<le> length scratch"
    using range within pos sc by linarith
  then have len: "length (overwrite (pos - start) data scratch) = min SparseChunkSize (so_size d - start)"
    using sc by simp
  have mem: "k div SparseChunkSize = i \<longleftrightarrow> start \<le> k \<and> k < start + SparseChunkSize" for k
    unfolding i_def start_def by (subst div_eq_iff_block) simp_all
  have put': "sparse_inv bm written cell d' \<and> so_geometry d' = so_geometry d \<and>
    (\<forall>k < so_size d. sparse_byte cell d' k =
       (if start \<le> k \<and> k < start + length (overwrite (pos - start) data scratch)
        then overwrite (pos - start) data scratch ! (k - start) else sparse_byte cell d k))"
    by (rule sparse_put_ok [OF inv put [folded i_def]]; unfold len mem; linarith)
  have "(if start \<le> k \<and> k < start + length (overwrite (pos - start) data scratch)
        then overwrite (pos - start) data scratch ! (k - start) else sparse_byte cell d k)
      = (if pos \<le> k \<and> k < pos + length data then data ! (k - pos) else sparse_byte cell d k)"
    if k: "k < so_size d" for k
  proof (cases "start \<le> k \<and> k < start + SparseChunkSize")
    case True
    have "sparse_byte cell d k = base_bytes (so_base d) ! k"
      using clean mem [of k] True by (simp add: sparse_byte_def i_def)
    moreover have lt: "k - start < length scratch" using True k sc by linarith
    moreover have "scratch ! (k - start) = base_bytes (so_base d) ! k"
      using True k lb lt sc nth_segment [of "k - start" _ start] by (simp add: scratch_def)
    moreover have "pos - start \<le> k - start \<and> k - start < pos - start + length data \<longleftrightarrow>
        pos \<le> k \<and> k < pos + length data" "k - start - (pos - start) = k - pos"
      using True pos by linarith+
    moreover have "start \<le> k \<and> k < start + length (overwrite (pos - start) data scratch)"
      using True lt len sc by linarith
    ultimately show ?thesis
      using nth_overwrite [OF fits lt] by (simp only: if_True refl simp_thms)
  next
    case False
    have "\<not> (pos \<le> k \<and> k < pos + length data)" using False pos within by linarith
    with False len show ?thesis by auto
  qed
  with put' show ?thesis by simp
qed

lemma sparse_write_loop_ok:
  assumes "sparse_inv bm written cell d" and "off + length p \<le> so_size d" and "k \<le> length p"
    and "sparse_write_loop bm d p off k = ((n, None), d')"
  shows "sparse_inv bm written cell d' \<and> so_geometry d' = so_geometry d \<and> n = length p \<and>
    (\<forall>j < so_size d. sparse_byte cell d' j =
       (if off + k \<le> j \<and> j < off + length p then p ! (j - off) else sparse_byte cell d j))"
  using assms
proof (induction "length p - k" arbitrary: d k rule: less_induct)
  case less
  show ?case
  proof (cases "k < length p")
    case False
    with less.prems(3) have "k = length p" by simp
    with less.prems(1,4) show ?thesis by (subst (asm) sparse_write_loop.simps) simp
  next
    case True
    define pos where "pos = off + k"
    define i where "i = pos div SparseChunkSize"
    define sz where "sz = min (length p - k) (SparseChunkSize - pos mod SparseChunkSize)"
    define data where "data = segment k sz p"
    have sz: "0 < sz" "k + sz \<le> length p" "pos mod SparseChunkSize + sz \<le> SparseChunkSize"
    proof -
      have "pos mod SparseChunkSize < SparseChunkSize" by simp
      then show "0 < sz" "k + sz \<le> length p" "pos mod SparseChunkSize + sz \<le> SparseChunkSize"
        using True unfolding sz_def by linarith+
    qed
    have data: "length data = sz" using sz by (simp add: data_def)
    have nth: "data ! (j - pos) = p ! (j - off)" if "pos \<le> j" "j < pos + sz" for j
      using that sz by (simp add: data_def pos_def)
    have pos': "i * SparseChunkSize + pos mod SparseChunkSize = pos" by (simp add: i_def)
    have range: "pos + length data \<le> so_size d" using less.prems(2) sz data by (simp add: pos_def)
    have "\<exists>d1. sparse_write_loop bm d1 p off (k + sz) = ((n, None), d') \<and>
        sparse_inv bm written cell d1 \<and> so_geometry d1 = so_geometry d \<and>
        (\<forall>j < so_size d. sparse_byte cell d1 j =
           (if pos \<le> j \<and> j < pos + length data then data ! (j - pos) else sparse_byte cell d j))"
    proof (cases "i \<in> set (so_dirty d)")
      case dirty: True
      then obtain d1 where put: "sparse_put bm d data pos i = (None, d1)"
        and rest: "sparse_write_loop bm d1 p off (k + sz) = ((n, None), d')"
        using less.prems(4) True
        by (subst (asm) sparse_write_loop.simps)
          (auto simp: Let_def simp flip: pos_def i_def sz_def data_def split: prod.splits option.splits)
      have "j div SparseChunkSize = i" if "pos \<le> j" "j < pos + length data" for j
        using that pos' sz data by (subst div_eq_iff_block) linarith+
      from sparse_put_ok [OF less.prems(1) put this] dirty rest show ?thesis by blast
    next
      case clean: False
      define start where "start = i * SparseChunkSize"
      define scratch where "scratch = segment start (min SparseChunkSize (so_size d - start)) (base_bytes (so_base d))"
      have "pos < so_size d" using range sz data by linarith
      note ch = sparse_changed_ok [OF less.prems(1) this, of data, folded i_def, folded start_def, folded scratch_def]
      show ?thesis
      proof (cases "segment (pos - start) (length data) scratch = data")
        case same: True
        have rest: "sparse_write_loop bm d p off (k + sz) = ((n, None), d')"
          using less.prems(4) True clean ch same
          by (subst (asm) sparse_write_loop.simps)
            (simp add: Let_def flip: pos_def i_def sz_def data_def)
        have "sparse_byte cell d j = data ! (j - pos)" if "pos \<le> j" "j < pos + length data" for j
        proof -
          have st: "start \<le> pos" using pos' by (simp add: start_def)
          have "j div SparseChunkSize = i"
            using that pos' sz data by (subst div_eq_iff_block) linarith+
          then have "sparse_byte cell d j = base_bytes (so_base d) ! j"
            using clean by (simp add: sparse_byte_def)
          moreover have "segment pos (length data) (base_bytes (so_base d)) = data"
            using same st range sz pos' data unfolding scratch_def
            by (subst (asm) segment_segment) (auto simp: start_def)
          moreover have "length (base_bytes (so_base d)) = so_size d"
            using less.prems(1) by (simp add: sparse_inv_def device_faithful_def)
          ultimately show ?thesis
            using nth_segment [of "j - pos" "length data" pos "base_bytes (so_base d)"] that range by simp
        qed
        then have "\<forall>j < so_size d. sparse_byte cell d j =
            (if pos \<le> j \<and> j < pos + length data then data ! (j - pos) else sparse_byte cell d j)"
          by simp
        with rest less.prems(1) show ?thesis by blast
      next
        case diff: False
        obtain d1 where put: "sparse_put bm d (overwrite (pos - start) data scratch) start i = (None, d1)"
          and rest: "sparse_write_loop bm d1 p off (k + sz) = ((n, None), d')"
          using less.prems(4) True clean ch diff
          by (subst (asm) sparse_write_loop.simps)
            (auto simp: Let_def simp flip: pos_def i_def sz_def data_def start_def split: prod.splits option.splits)
        have ne: "data \<noteq> []" "pos mod SparseChunkSize + length data \<le> SparseChunkSize"
          using data sz by auto
        from sparse_write_clean [OF less.prems(1) range ne(2,1) clean [unfolded i_def]]
          put rest show ?thesis unfolding scratch_def start_def i_def by blast
      qed
    qed
    then obtain d1 where d1: "sparse_write_loop bm d1 p off (k + sz) = ((n, None), d')"
        "sparse_inv bm written cell d1" "so_geometry d1 = so_geometry d"
        "\<And>j. j < so_size d \<Longrightarrow> sparse_byte cell d1 j =
           (if pos \<le> j \<and> j < pos + length data then data ! (j - pos) else sparse_byte cell d j)" by blast
    from less.hyps [OF _ d1(2) _ _ d1(1)] True sz less.prems(2) d1(3)
    have IH: "sparse_inv bm written cell d' \<and> so_geometry d' = so_geometry d1 \<and> n = length p \<and>
      (\<forall>j < so_size d1. sparse_byte cell d' j =
         (if off + (k + sz) \<le> j \<and> j < off + length p then p ! (j - off) else sparse_byte cell d1 j))"
      by simp
    have "sparse_byte cell d' j = (if off + k \<le> j \<and> j < off + length p then p ! (j - off) else sparse_byte cell d j)"
      if "j < so_size d" for j
      using IH d1(3) d1(4) [OF that] nth [of j] that sz data by (auto simp: pos_def)
    with IH d1(3) show ?thesis by simp
  qed
qed


subsection \<open>The overlay as a store\<close>

definition sparse_contents :: "('b \<Rightarrow> nat \<Rightarrow> byte) \<Rightarrow> 'b SparseOverlay \<Rightarrow> bytes" where
  "sparse_contents cell d = map (sparse_byte cell d) [0..<so_size d]"

definition os_inv :: "'b opened_sparse \<Rightarrow> bool" where
  "os_inv s \<longleftrightarrow> sparse_inv (os_methods s) (os_written s) (os_cell s) (os_overlay s)"

definition os_contents :: "'b opened_sparse \<Rightarrow> bytes" where
  "os_contents s = sparse_contents (os_cell s) (os_overlay s)"

definition os_read :: "'b opened_sparse \<Rightarrow> reader_at" where
  "os_read s n off = fst (sparse_ReadAt (os_methods s) (os_overlay s) n off)"

definition os_write :: "'b opened_sparse \<Rightarrow> bytes \<Rightarrow> int \<Rightarrow> (nat \<times> go_error option) \<times> 'b opened_sparse" where
  "os_write s p off =
     (let (r, d) = sparse_WriteAt (os_methods s) (os_overlay s) p off in (r, s\<lparr>os_overlay := d\<rparr>))"

lemma sparse_contents_simps [simp]:
  "length (sparse_contents cell d) = so_size d"
  "k < so_size d \<Longrightarrow> sparse_contents cell d ! k = sparse_byte cell d k"
  by (simp_all add: sparse_contents_def)

lemma sparse_ReadAt_ok:
  assumes "sparse_inv bm written cell d" and "0 \<le> off" and "nat off + n \<le> so_size d"
  shows "sparse_ReadAt bm d n off = ((segment (nat off) n (sparse_contents cell d), None), d)"
proof -
  have "so_failure d = None" "0 \<le> geo_Size (so_geometry d)"
    using assms(1) by (simp_all add: sparse_inv_def device_faithful_def)
  moreover have "off + int n \<le> geo_Size (so_geometry d)" using assms(2,3) calculation(2) by linarith
  moreover have "sparse_map cell d (nat off) n = segment (nat off) n (sparse_contents cell d)"
    using assms(3) by (intro segment_eqI [symmetric]) simp_all
  ultimately show ?thesis
    using sparse_read_loop_ok [OF assms(1,3), of 0] assms(2) by (simp add: sparse_ReadAt_def)
qed

lemma sparse_WriteAt_ok:
  assumes inv: "sparse_inv bm written cell d" and w: "sparse_WriteAt bm d p off = ((n, None), d')"
  shows "sparse_inv bm written cell d' \<and> n = length p \<and> 0 \<le> off \<and> nat off + length p \<le> so_size d \<and>
    sparse_contents cell d' = overwrite (nat off) p (sparse_contents cell d)"
proof -
  have "so_failure d = None" using inv by (simp add: sparse_inv_def)
  with w have range: "0 \<le> off" "off + int (length p) \<le> geo_Size (so_geometry d)"
    and loop: "sparse_write_loop bm d p (nat off) 0 = ((n, None), d')"
    by (auto simp: sparse_WriteAt_def ValidateRange_None split: option.splits)
  have r: "nat off + length p \<le> so_size d" using range by linarith
  note L = sparse_write_loop_ok [OF inv r _ loop, simplified]
  have "sparse_contents cell d' = overwrite (nat off) p (sparse_contents cell d)"
  proof (rule nth_equalityI)
    show "length (sparse_contents cell d') = length (overwrite (nat off) p (sparse_contents cell d))"
      using L r by simp
    fix j assume "j < length (sparse_contents cell d')"
    then have "j < so_size d" using L by simp
    then show "sparse_contents cell d' ! j = overwrite (nat off) p (sparse_contents cell d) ! j"
      using L r by (simp add: nth_overwrite)
  qed
  with L range r show ?thesis by blast
qed

interpretation sparse: write_store os_inv os_contents os_read os_write
proof
  fix s :: "'a opened_sparse" and off n
  show "os_inv s \<Longrightarrow> 0 \<le> off \<Longrightarrow> nat off + n \<le> length (os_contents s) \<Longrightarrow>
      os_read s n off = (segment (nat off) n (os_contents s), None)"
    by (simp add: os_inv_def os_contents_def os_read_def sparse_ReadAt_ok)
next
  fix s s' :: "'a opened_sparse" and p off n
  assume "os_inv s" and "os_write s p off = ((n, None), s')"
  then show "os_inv s' \<and> n = length p \<and> 0 \<le> off \<and> nat off + length p \<le> length (os_contents s) \<and>
      os_contents s' = overwrite (nat off) p (os_contents s)"
    using sparse_WriteAt_ok [of "os_methods s" "os_written s" "os_cell s" "os_overlay s" p off n]
    by (auto simp: os_inv_def os_contents_def os_write_def split: prod.splits)
qed

subsection \<open>Failures\<close>

lemma ReadFullAt_loop_nil: "ReadFullAt_loop reader n off p = (bs, None) \<Longrightarrow> n \<le> length bs"
proof (induction reader n off p rule: ReadFullAt_loop.induct)
  case (1 reader n off p)
  show ?case
  proof (cases "length p < n")
    case True
    obtain cs e where rd: "reader (n - length p) (off + int (length p)) = (cs, e)" by fastforce
    with 1 True show ?thesis
      by (cases e; subst (asm) (2) ReadFullAt_loop.simps) (auto split: if_splits)
  next
    case False
    with 1(2) show ?thesis by (subst (asm) ReadFullAt_loop.simps) simp
  qed
qed

lemma sparse_fail_sets: "sparse_fail e d = (f, d') \<Longrightarrow> so_failure d' = Some f"
  by (auto simp: sparse_fail_def Let_def split: option.splits)


lemma run_size_ge: "sz \<le> run_size ds dirty remaining pos sz"
proof (induction ds dirty remaining pos sz rule: run_size.induct)
  case (1 ds dirty remaining pos sz)
  show ?case
  proof (cases "sz < remaining \<and> ((pos + sz) div SparseChunkSize \<in> set ds) = dirty")
    case True
    then have "run_size ds dirty remaining pos sz
        = run_size ds dirty remaining pos (sz + min (remaining - sz) SparseChunkSize)"
      by (subst run_size.simps) simp
    with 1 True show ?thesis by simp
  next
    case False
    then have "run_size ds dirty remaining pos sz = sz" by (subst run_size.simps) auto
    then show ?thesis by simp
  qed
qed

lemma sparse_read_loop_fails:
  "sparse_read_loop bm d n off k p = ((bs, Some f), d') \<Longrightarrow> so_failure d' = Some f"
proof (induction bm d n off k p rule: sparse_read_loop.induct)
  case (1 bm d n off k p)
  define pos where "pos = off + k"
  define dirty where "dirty = (pos div SparseChunkSize \<in> set (so_dirty d))"
  define sz where "sz = run_size (so_dirty d) dirty (n - k) pos
    (min (n - k) (SparseChunkSize - pos mod SparseChunkSize))"
  define source where "source = (if dirty then bk_ReadAt bm (so_backing d) else dev_ReadAt (so_base d))"
  note defs = pos_def dirty_def sz_def source_def
  have k: "k < n" using 1(2) by (subst (asm) sparse_read_loop.simps) (simp split: if_splits)
  have sz: "0 < sz"
    using k run_size_ge [of "min (n - k) (SparseChunkSize - pos mod SparseChunkSize)"]
    unfolding sz_def by (meson less_le_trans min_less_iff_conj mod_less_divisor zero_less_diff zero_less_numeral)
  obtain cs e where rd: "ReadFullAt source sz (int pos) = (cs, e)" by fastforce
  show ?case
  proof (cases e)
    case None
    with rd sz have "cs \<noteq> []" using ReadFullAt_loop_nil unfolding ReadFullAt_def by fastforce
    moreover from this None rd k 1(2)
    have "sparse_read_loop bm d n off (k + length cs) (p @ cs) = ((bs, Some f), d')"
      by (subst (asm) sparse_read_loop.simps) (simp add: Let_def flip: defs)
    ultimately show ?thesis
      using 1(1) [OF k pos_def dirty_def sz_def source_def rd [unfolded None, symmetric] refl] by simp
  next
    case (Some x)
    with rd k 1(2) show ?thesis
      by (subst (asm) sparse_read_loop.simps)
        (auto simp: Let_def simp flip: defs split: prod.splits dest: sparse_fail_sets)
  qed
qed

lemma sparse_put_fails: "sparse_put bm d data at i = (Some f, d') \<Longrightarrow> so_failure d' = Some f"
  by (auto simp: sparse_put_def Let_def split: prod.splits option.splits if_splits dest: sparse_fail_sets)

lemma sparse_changed_fails: "sparse_changed d p off = (Inl f, d') \<Longrightarrow> so_failure d' = Some f"
  by (auto simp: sparse_changed_def Let_def split: prod.splits option.splits dest: sparse_fail_sets)

lemma sparse_write_loop_fails:
  "sparse_write_loop bm d p off k = ((n, Some f), d') \<Longrightarrow> so_failure d' = Some f"
proof (induction bm d p off k rule: sparse_write_loop.induct)
  case (1 bm d p off k)
  define pos where "pos = off + k"
  define i where "i = pos div SparseChunkSize"
  define sz where "sz = min (length p - k) (SparseChunkSize - pos mod SparseChunkSize)"
  define data where "data = segment k sz p"
  note defs = pos_def i_def sz_def data_def
  have k: "k < length p" using 1(4) by (subst (asm) sparse_write_loop.simps) (simp split: if_splits)
  show ?case
  proof (cases "i \<in> set (so_dirty d)")
    case True
    obtain r d1 where put: "sparse_put bm d data pos i = (r, d1)" by fastforce
    show ?thesis
    proof (cases r)
      case None
      with True put k 1(4) have "sparse_write_loop bm d1 p off (k + sz) = ((n, Some f), d')"
        by (subst (asm) sparse_write_loop.simps) (simp add: Let_def flip: defs)
      with 1(1) [OF k pos_def i_def sz_def data_def True put [unfolded None, symmetric] refl]
      show ?thesis by simp
    next
      case (Some x)
      with True put k 1(4) show ?thesis
        by (subst (asm) sparse_write_loop.simps)
          (auto simp: Let_def simp flip: defs dest: sparse_put_fails)
    qed
  next
    case False
    obtain r d1 where ch: "sparse_changed d data pos = (r, d1)" by fastforce
    show ?thesis
    proof (cases r)
      case (Inl x)
      with False ch k 1(4) show ?thesis
        by (subst (asm) sparse_write_loop.simps)
          (auto simp: Let_def simp flip: defs dest: sparse_changed_fails)
    next
      case (Inr y)
      obtain c scratch where r: "r = Inr (c, scratch)" using Inr by (cases y) simp
      define chunk where "chunk = overwrite (pos - i * SparseChunkSize) data scratch"
      obtain q d2 where put: "sparse_put bm d1 chunk (i * SparseChunkSize) i = (q, d2)" by fastforce
      consider "\<not> c" | "c" "q = None" | x where "c" "q = Some x" by fastforce
      then show ?thesis
      proof cases
        case 1
        with False ch r k "1.prems" have "sparse_write_loop bm d1 p off (k + sz) = ((n, Some f), d')"
          by (subst (asm) sparse_write_loop.simps) (simp add: Let_def flip: defs)
        with "1.IH"(2) [OF k pos_def i_def sz_def data_def False ch [unfolded r, symmetric] refl refl] 1
        show ?thesis by simp
      next
        case 2
        with False ch r put k "1.prems" have "sparse_write_loop bm d2 p off (k + sz) = ((n, Some f), d')"
          by (subst (asm) sparse_write_loop.simps) (simp add: Let_def chunk_def flip: defs)
        with "1.IH"(3) [OF k pos_def i_def sz_def data_def False ch [unfolded r, symmetric] refl refl]
        have "c \<Longrightarrow> q = None \<Longrightarrow> so_failure d' = Some f"
          using put unfolding chunk_def by simp
        with 2 show ?thesis by simp
      next
        case 3
        with False ch r put k "1.prems" show ?thesis
          by (subst (asm) sparse_write_loop.simps)
            (auto simp: Let_def chunk_def simp flip: defs dest: sparse_put_fails)
      qed
    qed
  qed
qed


subsection \<open>Properties\<close>

text \<open>A backing for the witnesses: a partial map from offsets to bytes that refuses to read holes.\<close>

definition map_backing :: "(nat \<Rightarrow> byte option) backing_methods" where
  "map_backing =
     \<lparr>bk_ReadAt = (\<lambda>b n off. if \<forall>k\<in>{nat off..<nat off + n}. b k \<noteq> None
                           then (map (\<lambda>k. the (b k)) [nat off..<nat off + n], None) else ([], Some EOF)),
      bk_WriteAt = (\<lambda>b p off. ((length p, None),
         \<lambda>k. if nat off \<le> k \<and> k < nat off + length p then Some (p ! (k - nat off)) else b k)),
      bk_Sync = (\<lambda>b. (None, b))\<rparr>"

lemma map_backing_ok: "backing_ok map_backing dom (\<lambda>b k. the (b k))"
proof -
  have "backing_reads map_backing dom (\<lambda>b k. the (b k))"
    unfolding backing_reads_def map_backing_def by (auto simp: subset_iff domIff)
  then show ?thesis
    by (auto simp: backing_ok_def backing_writes_def map_backing_def split: if_splits)
qed

definition sample_sparse :: "(nat \<Rightarrow> byte option) SparseOverlay" where
  "sample_sparse = (case NewSparseOverlay (Some (bytes_device [1,2,3,4])) (Some (\<lambda>_. None)) of Inr d \<Rightarrow> d)"

lemma sample_sparse_eq: "sample_sparse = \<lparr>so_base = bytes_device [1,2,3,4], so_backing = (\<lambda>_. None),
    so_geometry = dev_Geometry (bytes_device [1,2,3,4]), so_dirty = [], so_failure = None\<rparr>"
  by (simp add: sample_sparse_def NewSparseOverlay_def bytes_device_def Let_def)

lemma sample_sparse_inv: "sparse_inv map_backing dom (\<lambda>b k. the (b k)) sample_sparse"
  by (simp add: sparse_inv_def sample_sparse_eq map_backing_ok)

lemma sample_sparse_contents: "sparse_contents (\<lambda>b k. the (b k)) sample_sparse = [1,2,3,4]"
  unfolding sample_sparse_eq by (rule nth_equalityI) (simp_all add: sparse_byte_def)

lemma sample_sparse_changed:
  "sparse_changed sample_sparse [9,9] 1 = (Inr (True, [1,2,3,4]), sample_sparse)"
  using sparse_changed_ok [OF sample_sparse_inv, of 1 "[9,9]"]
  by (simp add: sample_sparse_eq segment_def)

text \<open>One write into the sample, for a given outcome of the backing.\<close>

lemma sample_sparse_write:
  assumes "sparse_put bm sample_sparse [1,9,9,4] 0 0 = (r, d')"
  shows "sparse_WriteAt bm sample_sparse [9,9] 1 = (case r of None \<Rightarrow> ((2, None), d') | Some f \<Rightarrow> ((0, Some f), d'))"
proof -
  have "sparse_write_loop bm sample_sparse [9,9] 1 0 = (case r of None \<Rightarrow> ((2, None), d') | Some f \<Rightarrow> ((0, Some f), d'))"
    using sample_sparse_changed assms
    by (subst sparse_write_loop.simps)
      (simp add: sparse_write_loop.simps [of _ _ _ _ "Suc (Suc 0)"] sample_sparse_eq Let_def segment_def overwrite_def
        split: option.split)
  then show ?thesis by (simp add: sparse_WriteAt_def sample_sparse_eq)
qed

text \<open>
  C14. A successful write to a sparse overlay changes exactly the addressed bytes: every later in-range
  read returns, without error, the bytes of an array after the write. The base is never written, and
  bytes the overlay did not write are never taken from the backing, whose reads outside the written
  ranges may return or fail with anything.
\<close>

theorem sparse_read_after_write:
  assumes "sparse_inv bm written cell d" and "sparse_WriteAt bm d p off = ((n, None), d')"
    and "0 \<le> off'" and "nat off' + m \<le> length (sparse_contents cell d)"
  shows "n = length p \<and>
    fst (sparse_ReadAt bm d' m off')
      = (segment (nat off') m (overwrite (nat off) p (sparse_contents cell d)), None)"
proof -
  note W = sparse_WriteAt_ok [OF assms(1,2)]
  then have "so_size d' = so_size d" by (metis length_overwrite sparse_contents_simps(1))
  with W sparse_ReadAt_ok [of bm written cell d' off' m] assms(3,4) show ?thesis by simp
qed

theorem sparse_read_after_write_witness:
  "\<exists>d'. sparse_WriteAt map_backing sample_sparse [9,9] 1 = ((2, None), d') \<and>
        fst (sparse_ReadAt map_backing d' 4 0) = ([1,9,9,4], None)"
proof -
  obtain d' where "sparse_put map_backing sample_sparse [1,9,9,4] 0 0 = (None, d')"
    by (simp add: sparse_put_def map_backing_def)
  from sample_sparse_write [OF this]
  have w: "sparse_WriteAt map_backing sample_sparse [9,9] 1 = ((2, None), d')" by simp
  with sparse_read_after_write [OF sample_sparse_inv w, of 0 4] show ?thesis
    by (simp add: sample_sparse_contents overwrite_def segment_def numeral_2_eq_2)
qed

text \<open>
  C15. An I/O failure is terminal. If a write fails for any reason but an out-of-range request, then
  from there on every read, write and flush fails with the same error and changes nothing: a
  partially written chunk is never exposed.
\<close>

theorem sparse_failure_is_terminal:
  assumes "so_failure d = None" and "sparse_WriteAt bm d p off = ((n, Some e), d')"
  shows "e = ErrOutOfRange \<and> d' = d \<or>
    (\<forall>m o' q. sparse_ReadAt bm d' m o' = (([], Some e), d') \<and>
       sparse_WriteAt bm d' q o' = ((0, Some e), d') \<and> sparse_Flush bm d' = (Some e, d'))"
proof (cases "ValidateRange (geo_Size (so_geometry d)) off (int (length p))")
  case None
  with assms have "sparse_write_loop bm d p (nat off) 0 = ((n, Some e), d')"
    by (simp add: sparse_WriteAt_def)
  from sparse_write_loop_fails [OF this] show ?thesis
    by (simp add: sparse_ReadAt_def sparse_WriteAt_def sparse_Flush_def)
next
  case (Some x)
  with assms show ?thesis by (auto simp: sparse_WriteAt_def ValidateRange_Some)
qed


text \<open>A backing whose disk is full.\<close>

definition full_backing :: "(nat \<Rightarrow> byte option) backing_methods" where
  "full_backing = map_backing\<lparr>bk_WriteAt := (\<lambda>b p off. ((0, Some (Errorf ''no space left on device'')), b))\<rparr>"

theorem sparse_failure_is_terminal_witness:
  "\<exists>d' e. sparse_WriteAt full_backing sample_sparse [9,9] 1 = ((0, Some e), d') \<and>
     sparse_ReadAt full_backing d' 4 0 = (([], Some e), d')"
proof -
  obtain f d' where "sparse_put full_backing sample_sparse [1,9,9,4] 0 0 = (Some f, d')" and f: "f \<noteq> ErrOutOfRange"
    by (simp add: sparse_put_def full_backing_def sparse_fail_def sample_sparse_eq Let_def)
  from sample_sparse_write [OF this(1)]
  have w: "sparse_WriteAt full_backing sample_sparse [9,9] 1 = ((0, Some f), d')" by simp
  moreover have "so_failure sample_sparse = None" by (simp add: sample_sparse_eq)
  ultimately show ?thesis using sparse_failure_is_terminal [of sample_sparse full_backing "[9,9]" 1 0 f d'] f by blast
qed

end
