(* ===== verification/Readers.thy ===== *)
theory Readers
  imports Block_Device
begin

text \<open>
  Byte sources and their composition: \<open>src/storage/storage.go\<close>, \<open>src/storage/composite.go\<close> and the
  portable part of \<open>src/storage/star/file.go\<close> (slices, byte files, whole-file reads, splicing). A
  \<open>storage.Reader\<close> is its \<open>ReadAt\<close> and its size.
\<close>

subsection \<open>Arithmetic and paths\<close>

text \<open>Go's \<open>/\<close> truncates toward zero; sums and products wrap.\<close>

definition Align :: "int \<Rightarrow> int \<Rightarrow> int" where
  "Align value alignment =
     (if alignment \<le> 0 then value
      else i64 (i64 (i64 (i64 (value + alignment) - 1) sdiv alignment) * alignment))"

definition CeilDiv :: "int \<Rightarrow> int \<Rightarrow> go_error + int" where
  "CeilDiv value divisor =
     (if divisor = 0 then Inl (Panic ''integer divide by zero'')
      else Inr (i64 (i64 (i64 (value + divisor) - 1) sdiv divisor)))"

subsection \<open>Readers\<close>

record reader =
  rd_ReadAt :: reader_at
  rd_Size :: int

record range' =
  rg_Source :: "reader option"
  rg_Offset :: int
  rg_Length :: int

record Composite =
  co_ranges :: "range' list"
  co_ends :: "int list"
  co_size :: int

abbreviation range_source :: "range' \<Rightarrow> reader" where
  "range_source r \<equiv> the (rg_Source r)"

text \<open>The loop of \<open>Compose\<close>, from the composite built so far.\<close>

fun compose_from :: "Composite \<Rightarrow> range' list \<Rightarrow> go_error + Composite" where
  "compose_from c [] = Inr c"
| "compose_from c (r # rs) =
     (if rg_Source r = None \<or> rg_Offset r < 0 \<or> rg_Length r < 0 \<or> rd_Size (range_source r) < 0 \<or>
         rg_Offset r > rd_Size (range_source r) \<or>
         rg_Length r > rd_Size (range_source r) - rg_Offset r \<or>
         rg_Length r > max_int64 - co_size c
      then Inl (Errorf ''invalid composed file range'')
      else if rg_Length r = 0 then compose_from c rs
      else compose_from \<lparr>co_ranges = co_ranges c @ [r], co_ends = co_ends c @ [co_size c + rg_Length r],
                         co_size = co_size c + rg_Length r\<rparr> rs)"

definition Compose :: "range' list \<Rightarrow> go_error + Composite" where
  "Compose rs = compose_from \<lparr>co_ranges = [], co_ends = [], co_size = 0\<rparr> rs"

function composite_loop :: "Composite \<Rightarrow> nat \<Rightarrow> nat \<Rightarrow> int \<Rightarrow> bytes \<Rightarrow> read_result" where
  "composite_loop c n index off p =
     (if length p < n \<and> index < length (co_ranges c)
      then (let r = co_ranges c ! index;
                start = (if index > 0 then co_ends c ! (index - 1) else 0);
                within = off - start;
                count = min (int (n - length p)) (rg_Length r - within)
            in case rd_ReadAt (range_source r) (nat count) (rg_Offset r + within) of
                 (bs, e) \<Rightarrow>
                   if e \<noteq> None \<and> \<not> (e = Some EOF \<and> int (length bs) = count) then (p @ bs, e)
                   else if int (length bs) \<noteq> count then (p @ bs, Some ErrUnexpectedEOF)
                   else composite_loop c n (index + 1) (off + int (length bs)) (p @ bs))
      else (p, if length p < n then Some EOF else None))"
  by pat_completeness auto
termination
  by (relation "measure (\<lambda>(c, n, index, off, p). length (co_ranges c) - index)") auto

declare composite_loop.simps [simp del]

definition Composite_ReadAt :: "Composite \<Rightarrow> reader_at" where
  "Composite_ReadAt c n off =
     (if off < 0 then ([], Some (Errorf ''negative read offset''))
      else if n = 0 then ([], None)
      else if off \<ge> co_size c then ([], Some EOF)
      else composite_loop c n (sort_Search (length (co_ends c)) (\<lambda>i. co_ends c ! i > off)) off [])"

text \<open>
  \<open>WriteTo\<close>, up to the copy of one range: \<open>copy r\<close> is what \<open>WriteRangeTo\<close> or \<open>io.Copy\<close> reports for the range.
\<close>

fun composite_WriteTo :: "(range' \<Rightarrow> int \<times> go_error option) \<Rightarrow> range' list \<Rightarrow> int \<Rightarrow> int \<times> go_error option" where
  "composite_WriteTo copy [] tot = (tot, None)"
| "composite_WriteTo copy (r # rs) tot =
     (let (n, err) = copy r in
      if err \<noteq> None then (tot + n, err)
      else if n \<noteq> rg_Length r then (tot + n, Some ErrShortWrite)
      else composite_WriteTo copy rs (tot + n))"

subsection \<open>Byte files, slices, whole-file reads\<close>

definition Bytes_ReadAt :: "bytes \<Rightarrow> reader_at" where
  "Bytes_ReadAt data n off =
     (if off < 0 \<or> off \<ge> int (length data) then ([], Some EOF)
      else let bs = take n (drop (nat off) data)
           in if length bs \<noteq> n then (bs, Some EOF) else (bs, None))"

definition Bytes_reader :: "bytes \<Rightarrow> reader" where
  "Bytes_reader data = \<lparr>rd_ReadAt = Bytes_ReadAt data, rd_Size = int (length data)\<rparr>"

record Slice =
  sl_Base :: reader
  sl_Offset :: int
  sl_Length :: int

definition Slice_ReadAt :: "Slice \<Rightarrow> reader_at" where
  "Slice_ReadAt f n off =
     (if off < 0 \<or> off \<ge> sl_Length f then ([], Some EOF)
      else let m = (if int n > sl_Length f - off then nat (sl_Length f - off) else n);
               (bs, err) = rd_ReadAt (sl_Base f) m (sl_Offset f + off)
           in (bs, if err = None \<and> length bs < n then Some EOF else err))"

definition ReadSubfileAt :: "reader \<Rightarrow> int \<Rightarrow> int \<Rightarrow> reader_at" where
  "ReadSubfileAt base baseOffset sz n off =
     (if off < 0 \<or> off \<ge> sz then ([], Some EOF)
      else let remaining = sz - off;
               m = (if int n > remaining then nat remaining else n);
               (bs, err) = rd_ReadAt base m (baseOffset + off)
           in if err \<noteq> None \<and> err \<noteq> Some EOF then (bs, err)
              else if length bs < n then (bs, Some EOF)
              else (bs, None))"

definition ReadAll :: "reader \<Rightarrow> read_result" where
  "ReadAll file =
     (if rd_Size file < 0 \<or> rd_Size file > max_int64 then ([], Some (Errorf ''invalid file size %d''))
      else case ReadFullAt (rd_ReadAt file) (nat (rd_Size file)) 0 of
        (p, err) \<Rightarrow> (take (nat (rd_Size file)) (p @ replicate (nat (rd_Size file)) 0), err))"

text \<open>
  The optional \<open>off\<close> and \<open>size\<close> arguments after unpacking. A lazy stream implements \<open>KnownSize\<close>:
  \<open>known\<close> is \<open>None\<close> for other files, otherwise the pair the method returns.
\<close>

definition rangeArgs :: "int option \<Rightarrow> int option \<Rightarrow> int \<Rightarrow> go_error + int \<times> int" where
  "rangeArgs off_arg size_arg tot =
     (let off = case_option 0 id off_arg; sz = case_option tot id size_arg in
      if off < 0 \<or> sz < 0 \<or> off > tot \<or> sz > tot - off
      then Inl (Errorf ''%s: range outside file'') else Inr (off, sz))"

definition fileRangeArgs ::
    "string \<Rightarrow> reader \<Rightarrow> (int \<times> bool) option \<Rightarrow> int option \<Rightarrow> int option \<Rightarrow> go_error + int \<times> int" where
  "fileRangeArgs name file known off_arg size_arg =
     (case known of
        None \<Rightarrow> rangeArgs off_arg size_arg (rd_Size file)
      | Some (tot, True) \<Rightarrow> rangeArgs off_arg size_arg tot
      | Some (_, False) \<Rightarrow>
          (case size_arg of
             None \<Rightarrow> rangeArgs off_arg size_arg (rd_Size file)
           | Some sz \<Rightarrow>
               let off = case_option 0 id off_arg in
               if off < 0 \<or> sz < 0 \<or> sz > max_int64 - off then Inl (Errorf ''%s: range outside file'')
               else if (name = ''slice'' \<or> sz = 0) \<and> off + sz > 0
               then (case ReadFullAt (rd_ReadAt file) 1 (off + sz - 1) of
                       (_, Some e) \<Rightarrow> Inl (Wrapped ''%s: range outside file: %w'' e)
                     | (_, None) \<Rightarrow> Inr (off, sz))
               else Inr (off, sz)))"

text \<open>The \<open>bytes\<close> attribute of a file: the requested range, or the error of the reader.\<close>

definition Attr_bytes :: "reader \<Rightarrow> (int \<times> bool) option \<Rightarrow> int option \<Rightarrow> int option \<Rightarrow> go_error + bytes" where
  "Attr_bytes file known off_arg size_arg =
     (case fileRangeArgs ''bytes'' file known off_arg size_arg of
        Inl e \<Rightarrow> Inl e
      | Inr (off, sz) \<Rightarrow>
          (case ReadFullAt (rd_ReadAt file) (nat sz) off of
             (_, Some e) \<Rightarrow> Inl e
           | (data, None) \<Rightarrow> Inr data))"

definition Attr_slice :: "reader \<Rightarrow> (int \<times> bool) option \<Rightarrow> int option \<Rightarrow> int option \<Rightarrow> go_error + Slice" where
  "Attr_slice file known off_arg size_arg =
     (case fileRangeArgs ''slice'' file known off_arg size_arg of
        Inl e \<Rightarrow> Inl e
      | Inr (off, sz) \<Rightarrow> Inr \<lparr>sl_Base = file, sl_Offset = off, sl_Length = sz\<rparr>)"

text \<open>A Starlark value as far as these functions look at it.\<close>

datatype star_value = VReader reader | VString bytes | VBytes bytes | VOther

definition BytesForValue :: "star_value \<Rightarrow> int \<Rightarrow> read_result" where
  "BytesForValue value maximum =
     (if maximum < 0 then ([], Some (Errorf ''negative binary size limit''))
      else case value of
        VReader r \<Rightarrow> if rd_Size r < 0 \<or> rd_Size r > maximum
                     then ([], Some (Errorf ''input size %d exceeds limit %d'')) else ReadAll r
      | VString s \<Rightarrow> if int (length s) > maximum
                     then ([], Some (Errorf ''input size %d exceeds limit %d'')) else (s, None)
      | VBytes s \<Rightarrow> if int (length s) > maximum
                     then ([], Some (Errorf ''input size %d exceeds limit %d'')) else (s, None)
      | VOther \<Rightarrow> ([], Some (Errorf ''got %s, want file, string, or bytes'')))"

definition splice_file :: "reader \<Rightarrow> int \<Rightarrow> int \<Rightarrow> star_value \<Rightarrow> go_error + Composite" where
  "splice_file file offset remove value =
     (if offset < 0 \<or> remove < 0 \<or> offset > rd_Size file \<or> remove > rd_Size file - offset
      then Inl (Errorf ''invalid splice range'')
      else case (case value of VReader r \<Rightarrow> Some r | VString s \<Rightarrow> Some (Bytes_reader s)
                 | VBytes s \<Rightarrow> Some (Bytes_reader s) | VOther \<Rightarrow> None) of
        None \<Rightarrow> Inl (Errorf ''splice: want file, string or bytes'')
      | Some ins \<Rightarrow>
          Compose [\<lparr>rg_Source = Some file, rg_Offset = 0, rg_Length = offset\<rparr>,
                   \<lparr>rg_Source = Some ins, rg_Offset = 0, rg_Length = rd_Size ins\<rparr>,
                   \<lparr>rg_Source = Some file, rg_Offset = offset + remove,
                    rg_Length = rd_Size file - offset - remove\<rparr>])"

definition binary_digits :: "byte \<Rightarrow> string" where
  "binary_digits value = map (\<lambda>b. if bit value b then CHR ''1'' else CHR ''0'') [7,6,5,4,3,2,1,0]"

fun binaryString :: "bytes \<Rightarrow> string" where
  "binaryString [] = []"
| "binaryString [v] = binary_digits v"
| "binaryString (v # vs) = binary_digits v @ '' '' @ binaryString vs"


subsection \<open>Arithmetic\<close>

text \<open>Without overflow \<open>Align\<close> is the least multiple of the alignment that is not below the value.\<close>

lemma Align_eq:
  assumes "0 \<le> v" and "0 < a" and "v + a \<le> max_int64"
  shows "Align v a = (v + a - 1) div a * a"
proof -
  let ?x = "v + a - 1"
  have x: "0 \<le> ?x" using assms by linarith
  have q: "0 \<le> ?x div a" using assms(2) x by (simp add: pos_imp_zdiv_nonneg_iff)
  have "?x div a * a + ?x mod a = ?x" "0 \<le> ?x mod a" using assms(2) by simp_all
  then have m: "?x div a * a \<le> ?x" by linarith
  have m0: "0 \<le> ?x div a * a" using q assms(2) by simp
  have "?x div a * 1 \<le> ?x div a * a" using q assms(2) by (intro mult_left_mono) auto
  with m have "?x div a \<le> ?x" by simp
  then have "i64 (?x div a) = ?x div a" "i64 (?x div a * a) = ?x div a * a"
    using q m m0 assms(3) by (intro i64_nonneg; linarith)+
  moreover have "i64 (v + a) = v + a" "i64 ?x = ?x" using assms x by (intro i64_nonneg; linarith)+
  moreover have "?x sdiv a = ?x div a" using x assms(2) by (simp add: signed_divide_int_def sgn_if)
  ultimately show ?thesis using assms(2) by (simp add: Align_def)
qed

lemma Align_least:
  assumes "0 \<le> v" and "0 < a" and "v + a \<le> max_int64"
  shows "a dvd Align v a \<and> v \<le> Align v a \<and> Align v a < v + a"
proof -
  have "(v + a - 1) div a * a = v + a - 1 - (v + a - 1) mod a"
    by (simp add: minus_mod_eq_div_mult)
  moreover have "0 \<le> (v + a - 1) mod a" "(v + a - 1) mod a < a" using assms(2) by simp_all
  ultimately show ?thesis unfolding Align_eq [OF assms] by simp
qed

subsection \<open>What a composition reads as\<close>

text \<open>
  The contract of \<open>storage.Reader\<close>: a stable size and, for a request inside it, exactly the requested
  bytes (with \<open>io.EOF\<close> allowed beside a full buffer).
\<close>

definition reader_bytes :: "reader \<Rightarrow> bytes" where
  "reader_bytes r = fst (rd_ReadAt r (nat (rd_Size r)) 0)"

definition reader_ok :: "reader \<Rightarrow> bool" where
  "reader_ok r \<longleftrightarrow> length (reader_bytes r) = nat (rd_Size r) \<and>
     (\<forall>n off. 0 < n \<longrightarrow> 0 \<le> off \<longrightarrow> nat off + n \<le> length (reader_bytes r) \<longrightarrow>
        (\<exists>e. rd_ReadAt r n off = (segment (nat off) n (reader_bytes r), e) \<and> (e = None \<or> e = Some EOF)))"

lemma reader_okE:
  assumes "reader_ok r" and "0 < n" and "0 \<le> off" and "nat off + n \<le> length (reader_bytes r)"
  obtains e where "rd_ReadAt r n off = (segment (nat off) n (reader_bytes r), e)" and "e = None \<or> e = Some EOF"
  using assms unfolding reader_ok_def by metis

lemma Bytes_reader_ok [simp]: "reader_ok (Bytes_reader data)" "reader_bytes (Bytes_reader data) = data"
proof -
  show b: "reader_bytes (Bytes_reader data) = data"
    by (cases data) (simp_all add: reader_bytes_def Bytes_reader_def Bytes_ReadAt_def Let_def)
  have "Bytes_ReadAt data n off = (segment (nat off) n data, None)"
    if "0 < n" "0 \<le> off" "nat off + n \<le> length data" for n off
    using that by (simp add: Bytes_ReadAt_def segment_def Let_def)
  then show "reader_ok (Bytes_reader data)"
    unfolding reader_ok_def b by (simp add: Bytes_reader_def)
qed

definition range_bytes :: "range' \<Rightarrow> bytes" where
  "range_bytes r = segment (nat (rg_Offset r)) (nat (rg_Length r)) (reader_bytes (range_source r))"

definition composite_bytes :: "Composite \<Rightarrow> bytes" where
  "composite_bytes c = concat (map range_bytes (co_ranges c))"

fun ends_from :: "int \<Rightarrow> range' list \<Rightarrow> int list" where
  "ends_from a [] = []"
| "ends_from a (r # rs) = (a + rg_Length r) # ends_from (a + rg_Length r) rs"

definition range_ok :: "range' \<Rightarrow> bool" where
  "range_ok r \<longleftrightarrow> reader_ok (range_source r) \<and> 0 \<le> rg_Offset r \<and> 0 < rg_Length r \<and>
     rg_Offset r + rg_Length r \<le> rd_Size (range_source r)"

definition composite_inv :: "Composite \<Rightarrow> bool" where
  "composite_inv c \<longleftrightarrow> (\<forall>r \<in> set (co_ranges c). range_ok r) \<and> co_ends c = ends_from 0 (co_ranges c) \<and>
     co_size c = (\<Sum>r\<leftarrow>co_ranges c. rg_Length r)"

lemma ends_from_snoc:
  "ends_from a (rs @ [r]) = ends_from a rs @ [a + (\<Sum>r\<leftarrow>rs. rg_Length r) + rg_Length r]"
  by (induction rs arbitrary: a) simp_all

lemma length_ends_from [simp]: "length (ends_from a rs) = length rs"
  by (induction rs arbitrary: a) simp_all

lemma nth_ends_from:
  "i < length rs \<Longrightarrow> ends_from a rs ! i = a + (\<Sum>r\<leftarrow>take (Suc i) rs. rg_Length r)"
proof (induction rs arbitrary: a i)
  case (Cons r rs)
  then show ?case by (cases i) simp_all
qed simp

lemma range_bytes_length: "range_ok r \<Longrightarrow> length (range_bytes r) = nat (rg_Length r)"
  by (auto simp: range_ok_def range_bytes_def reader_ok_def)

lemma compose_from_inv:
  assumes "compose_from c rs = Inr c'" and "composite_inv c"
    and "\<And>r. r \<in> set rs \<Longrightarrow> reader_ok (range_source r)"
  shows "composite_inv c' \<and> composite_bytes c' = composite_bytes c @ concat (map range_bytes rs)"
  using assms
proof (induction c rs rule: compose_from.induct)
  case (2 c r rs)
  let ?c = "\<lparr>co_ranges = co_ranges c @ [r], co_ends = co_ends c @ [co_size c + rg_Length r],
    co_size = co_size c + rg_Length r\<rparr>"
  have g: "\<not> (rg_Source r = None \<or> rg_Offset r < 0 \<or> rg_Length r < 0 \<or> rd_Size (range_source r) < 0 \<or>
         rg_Offset r > rd_Size (range_source r) \<or> rg_Length r > rd_Size (range_source r) - rg_Offset r \<or>
         rg_Length r > max_int64 - co_size c)"
    using "2.prems"(1) by (simp split: if_splits)
  show ?case
  proof (cases "rg_Length r = 0")
    case True
    have "compose_from c rs = Inr c'"
      using "2.prems"(1) unfolding compose_from.simps if_not_P [OF g] if_P [OF True] .
    moreover have "range_bytes r = []" using True by (simp add: range_bytes_def)
    ultimately show ?thesis using "2.IH"(1) [OF g True] "2.prems"(2,3) by simp
  next
    case False
    with g have ok: "range_ok r" using "2.prems"(3) by (auto simp: range_ok_def)
    have step: "compose_from ?c rs = Inr c'"
      using "2.prems"(1) unfolding compose_from.simps if_not_P [OF g] if_not_P [OF False] .
    have "composite_inv ?c"
      using "2.prems"(2) ok by (auto simp: composite_inv_def ends_from_snoc)
    from "2.IH"(2) [OF g False step this] "2.prems"(3) show ?thesis
      by (simp add: composite_bytes_def)
  qed
qed simp

lemma Compose_inv:
  assumes "Compose rs = Inr c" and "\<And>r. r \<in> set rs \<Longrightarrow> reader_ok (range_source r)"
  shows "composite_inv c \<and> composite_bytes c = concat (map range_bytes rs)"
proof -
  let ?c0 = "\<lparr>co_ranges = [], co_ends = [], co_size = 0\<rparr>"
  have "composite_inv ?c0" "composite_bytes ?c0 = []"
    by (simp_all add: composite_inv_def composite_bytes_def)
  with compose_from_inv [of ?c0 rs c] assms show ?thesis by (simp add: Compose_def)
qed

lemma composite_start:
  assumes "composite_inv c" and "i \<le> length (co_ranges c)"
  shows "(if i > 0 then co_ends c ! (i - 1) else 0) = (\<Sum>r\<leftarrow>take i (co_ranges c). rg_Length r)"
  using assms by (cases i) (auto simp: composite_inv_def nth_ends_from)


lemma take_drop_append:
  "w \<le> length B \<Longrightarrow> take n (drop w (B @ C)) = segment w n B @ take (n - (length B - w)) C"
  by (simp add: segment_def)

lemma composite_loop_ok:
  assumes inv: "composite_inv c" and "i \<le> length (co_ranges c)"
    and "off = (\<Sum>r\<leftarrow>take i (co_ranges c). rg_Length r) + int w"
    and "w \<noteq> 0 \<Longrightarrow> i < length (co_ranges c) \<and> int w < rg_Length (co_ranges c ! i)"
    and "length p \<le> n"
  shows "composite_loop c n i off p =
    (p @ take (n - length p) (drop w (concat (map range_bytes (drop i (co_ranges c))))),
     if length p + (length (concat (map range_bytes (drop i (co_ranges c)))) - w) < n then Some EOF else None)"
  using assms(2-)
proof (induction "length (co_ranges c) - i" arbitrary: i off w p rule: less_induct)
  case less
  let ?rs = "co_ranges c"
  show ?case
  proof (cases "length p < n \<and> i < length ?rs")
    case False
    with less.prems show ?thesis by (subst composite_loop.simps) auto
  next
    case True
    define r where "r = ?rs ! i"
    define L where "L = nat (rg_Length r)"
    define C where "C = concat (map range_bytes (drop (Suc i) ?rs))"
    have ok: "range_ok r" using inv True by (simp add: composite_inv_def r_def)
    have L: "0 < L" "int L = rg_Length r" using ok by (simp_all add: L_def range_ok_def)
    have w: "w < L" using less.prems(3) True L by (cases "w = 0") (auto simp: r_def)
    have B: "length (range_bytes r) = L" using range_bytes_length [OF ok] by (simp add: L_def)
    have split: "concat (map range_bytes (drop i ?rs)) = range_bytes r @ C"
      using True by (simp add: C_def r_def Cons_nth_drop_Suc [symmetric])
    define m where "m = min (n - length p) (L - w)"
    have m: "0 < m" using True w by (simp add: m_def)
    have start: "off - (if i > 0 then co_ends c ! (i - 1) else 0) = int w"
      using composite_start [OF inv less.prems(1)] less.prems(2) by simp
    have count: "min (int (n - length p)) (rg_Length r - int w) = int m"
      using L w by (simp add: m_def of_nat_diff flip: L(2))
    have lb: "nat (rg_Offset r) + L \<le> length (reader_bytes (range_source r))"
      using ok by (auto simp: range_ok_def reader_ok_def L_def)
    have "nat (rg_Offset r + int w) + m \<le> length (reader_bytes (range_source r))"
      using lb ok w by (simp add: m_def range_ok_def)
    with reader_okE [of "range_source r" m "rg_Offset r + int w"] ok m obtain e where
      rd: "rd_ReadAt (range_source r) m (rg_Offset r + int w)
        = (segment (nat (rg_Offset r + int w)) m (reader_bytes (range_source r)), e)" and e: "e = None \<or> e = Some EOF"
      by (auto simp: range_ok_def)
    have seg: "segment (nat (rg_Offset r + int w)) m (reader_bytes (range_source r)) = segment w m (range_bytes r)"
      using ok w by (simp add: range_bytes_def range_ok_def m_def nat_add_distrib flip: L_def)
    have lm: "length (segment w m (range_bytes r)) = m" using B w by (simp add: m_def)
    have step: "composite_loop c n i off p = composite_loop c n (i + 1) (off + int m) (p @ segment w m (range_bytes r))"
      by (subst composite_loop.simps, unfold if_P [OF True] Let_def r_def [symmetric] start count nat_int
          rd prod.case seg lm) (use e in auto)
    show ?thesis
    proof (cases "n - length p \<le> L - w")
      case True': True
      then have "m = n - length p" by (simp add: m_def)
      with True lm B w True' show ?thesis
        unfolding step split by (subst composite_loop.simps) (auto simp: segment_def)
    next
      case False
      then have mL: "m = L - w" by (simp add: m_def)
      have off': "off + int m = (\<Sum>r\<leftarrow>take (i + 1) ?rs. rg_Length r) + int 0"
        using True less.prems(2) w L by (simp add: take_Suc_conv_app_nth mL of_nat_diff flip: r_def)
      have "composite_loop c n (i + 1) (off + int m) (p @ segment w m (range_bytes r)) =
        ((p @ segment w m (range_bytes r)) @ take (n - length (p @ segment w m (range_bytes r))) (drop 0 (concat (map range_bytes (drop (i + 1) ?rs)))),
         if length (p @ segment w m (range_bytes r)) + (length (concat (map range_bytes (drop (i + 1) ?rs))) - 0) < n
         then Some EOF else None)"
        by (rule less.hyps [OF _ _ off']) (use True lm False mL in auto)
      then show ?thesis
        unfolding step split using B w lm False mL by (auto simp: segment_def C_def)
    qed
  qed
qed


lemma composite_bytes_length: "composite_inv c \<Longrightarrow> int (length (composite_bytes c)) = co_size c"
proof -
  have "int (length (concat (map range_bytes rs))) = (\<Sum>r\<leftarrow>rs. rg_Length r)"
    if "\<And>r. r \<in> set rs \<Longrightarrow> range_ok r" for rs
    using that by (induction rs) (auto simp: range_bytes_length range_ok_def less_imp_le)
  then show "composite_inv c \<Longrightarrow> ?thesis" by (simp add: composite_inv_def composite_bytes_def)
qed

lemma ends_mono:
  assumes "composite_inv c" and "i \<le> j" and "j < length (co_ranges c)"
  shows "co_ends c ! i \<le> co_ends c ! j"
proof -
  have "(\<Sum>r\<leftarrow>take (Suc i) (co_ranges c). rg_Length r) \<le> (\<Sum>r\<leftarrow>take (Suc j) (co_ranges c). rg_Length r)"
  proof -
    have "take (Suc j) (co_ranges c) = take (Suc i) (co_ranges c) @ take (j - i) (drop (Suc i) (co_ranges c))"
      using assms(2) take_add [of "Suc i" "j - i" "co_ranges c"] by simp
    moreover have "0 \<le> (\<Sum>r\<leftarrow>take (j - i) (drop (Suc i) (co_ranges c)). rg_Length r)"
      using assms(1) by (intro sum_list_nonneg)
        (auto simp: composite_inv_def range_ok_def dest!: in_set_takeD in_set_dropD intro: less_imp_le)
    ultimately show ?thesis by simp
  qed
  then show ?thesis using assms by (simp add: composite_inv_def nth_ends_from)
qed

lemma Composite_ReadAt_ok:
  assumes inv: "composite_inv c" and "0 \<le> off" and "0 < n"
  shows "Composite_ReadAt c n off = Bytes_ReadAt (composite_bytes c) n off"
proof (cases "off < co_size c")
  case False
  with assms composite_bytes_length [OF inv] show ?thesis
    by (simp add: Composite_ReadAt_def Bytes_ReadAt_def)
next
  case True
  let ?f = "\<lambda>i. co_ends c ! i > off" and ?N = "length (co_ranges c)"
  define i where "i = sort_Search (length (co_ends c)) ?f"
  have len: "length (co_ends c) = ?N" using inv by (simp add: composite_inv_def)
  have mono: "\<And>k l. k \<le> l \<Longrightarrow> l < length (co_ends c) \<Longrightarrow> ?f k \<Longrightarrow> ?f l"
    using ends_mono [OF inv] len by (metis order_less_le_trans)
  have "i \<le> length (co_ends c) \<and> (\<forall>k < i. \<not> ?f k) \<and> (\<forall>k. i \<le> k \<and> k < length (co_ends c) \<longrightarrow> ?f k)"
    unfolding i_def by (rule sort_Search_least, rule mono)
  then have i: "i \<le> ?N" "\<And>k. k < i \<Longrightarrow> \<not> ?f k" "\<And>k. i \<le> k \<Longrightarrow> k < ?N \<Longrightarrow> ?f k"
    unfolding len by blast+
  have st: "(\<Sum>r\<leftarrow>take i (co_ranges c). rg_Length r) \<le> off"
    using composite_start [OF inv i(1)] i(2) [of "i - 1"] assms(2) by (auto split: if_splits)
  have iN: "i < ?N"
  proof (rule ccontr)
    assume "\<not> i < ?N"
    with i(1) have "i = ?N" by simp
    with st True inv show False by (simp add: composite_inv_def)
  qed
  define w where "w = nat (off - (\<Sum>r\<leftarrow>take i (co_ranges c). rg_Length r))"
  have off: "off = (\<Sum>r\<leftarrow>take i (co_ranges c). rg_Length r) + int w" using st by (simp add: w_def)
  have "co_ends c ! i > off" using i(3) iN by blast
  then have wl: "int w < rg_Length (co_ranges c ! i)"
    using inv iN off by (simp add: composite_inv_def nth_ends_from take_Suc_conv_app_nth)
  have "composite_loop c n i off [] =
    (take n (drop w (concat (map range_bytes (drop i (co_ranges c))))),
     if length (concat (map range_bytes (drop i (co_ranges c)))) - w < n then Some EOF else None)"
    using composite_loop_ok [OF inv i(1) off, of "[]" n] wl iN by simp
  moreover have "drop w (concat (map range_bytes (drop i (co_ranges c)))) = drop (nat off) (composite_bytes c)"
  proof -
    have pre: "int (length (concat (map range_bytes (take i (co_ranges c))))) = (\<Sum>r\<leftarrow>take i (co_ranges c). rg_Length r)"
    proof -
      have "composite_inv \<lparr>co_ranges = take i (co_ranges c), co_ends = ends_from 0 (take i (co_ranges c)),
          co_size = (\<Sum>r\<leftarrow>take i (co_ranges c). rg_Length r)\<rparr>"
        using inv by (auto simp: composite_inv_def dest: in_set_takeD)
      from composite_bytes_length [OF this] show ?thesis by (simp add: composite_bytes_def)
    qed
    have "composite_bytes c = concat (map range_bytes (take i (co_ranges c))) @ concat (map range_bytes (drop i (co_ranges c)))"
      by (simp add: composite_bytes_def flip: concat_append map_append)
    moreover have "nat off = length (concat (map range_bytes (take i (co_ranges c)))) + w"
      using off pre by linarith
    ultimately show ?thesis by simp
  qed
  moreover have "length (concat (map range_bytes (drop i (co_ranges c)))) - w = length (drop w (concat (map range_bytes (drop i (co_ranges c)))))"
    by (simp only: length_drop)
  ultimately show ?thesis
    using assms(2,3) True composite_bytes_length [OF inv]
    by (auto simp: Composite_ReadAt_def Bytes_ReadAt_def Let_def simp flip: i_def)
qed


text \<open>Composites and slices are readers again, so compositions nest.\<close>

definition Composite_reader :: "Composite \<Rightarrow> reader" where
  "Composite_reader c = \<lparr>rd_ReadAt = Composite_ReadAt c, rd_Size = co_size c\<rparr>"

definition Slice_reader :: "Slice \<Rightarrow> reader" where
  "Slice_reader f = \<lparr>rd_ReadAt = Slice_ReadAt f, rd_Size = sl_Length f\<rparr>"

lemma Composite_reader_ok:
  assumes "composite_inv c"
  shows "reader_ok (Composite_reader c)" and "reader_bytes (Composite_reader c) = composite_bytes c"
proof -
  note len = composite_bytes_length [OF assms]
  then have nl: "nat (co_size c) = length (composite_bytes c)" by linarith
  show b: "reader_bytes (Composite_reader c) = composite_bytes c"
  proof (cases "composite_bytes c")
    case Nil
    with len show ?thesis by (simp add: reader_bytes_def Composite_reader_def Composite_ReadAt_def)
  next
    case Cons
    then have "Composite_ReadAt c (nat (co_size c)) 0 = Bytes_ReadAt (composite_bytes c) (nat (co_size c)) 0"
      using Composite_ReadAt_ok [OF assms, of 0 "nat (co_size c)"] nl by simp
    with Cons nl show ?thesis by (simp add: reader_bytes_def Composite_reader_def Bytes_ReadAt_def Let_def)
  qed
  have "Composite_ReadAt c n off = (segment (nat off) n (composite_bytes c), None)"
    if "0 < n" "0 \<le> off" "nat off + n \<le> length (composite_bytes c)" for n off
    using that Composite_ReadAt_ok [OF assms that(2,1)] by (simp add: Bytes_ReadAt_def segment_def Let_def)
  then show "reader_ok (Composite_reader c)"
    unfolding reader_ok_def b by (simp add: Composite_reader_def nl)
qed

definition slice_ok :: "Slice \<Rightarrow> bool" where
  "slice_ok f \<longleftrightarrow> reader_ok (sl_Base f) \<and> 0 \<le> sl_Offset f \<and> 0 \<le> sl_Length f \<and>
     sl_Offset f + sl_Length f \<le> int (length (reader_bytes (sl_Base f)))"

definition slice_bytes :: "Slice \<Rightarrow> bytes" where
  "slice_bytes f = segment (nat (sl_Offset f)) (nat (sl_Length f)) (reader_bytes (sl_Base f))"

lemma Slice_ReadAt_ok:
  assumes ok: "slice_ok f" and "0 \<le> off" and "0 < n"
  shows "fst (Slice_ReadAt f n off) = fst (Bytes_ReadAt (slice_bytes f) n off) \<and>
    (snd (Slice_ReadAt f n off) = None \<or> snd (Slice_ReadAt f n off) = Some EOF) \<and>
    (length (fst (Slice_ReadAt f n off)) < n \<longrightarrow> snd (Slice_ReadAt f n off) = Some EOF)"
proof (cases "off < sl_Length f")
  case False
  with assms show ?thesis
    by (auto simp: Slice_ReadAt_def Bytes_ReadAt_def slice_ok_def slice_bytes_def min_def nat_le_eq_zle)
next
  case True
  define m where "m = (if int n > sl_Length f - off then nat (sl_Length f - off) else n)"
  have m: "0 < m" "m \<le> n" "int m \<le> sl_Length f - off" using True assms by (auto simp: m_def)
  have fits: "nat (sl_Offset f + off) + m \<le> length (reader_bytes (sl_Base f))" "0 \<le> sl_Offset f + off"
    using ok m assms(2) by (auto simp: slice_ok_def)
  obtain e where r: "rd_ReadAt (sl_Base f) m (sl_Offset f + off) =
      (segment (nat (sl_Offset f + off)) m (reader_bytes (sl_Base f)), e)" and e: "e = None \<or> e = Some EOF"
    using reader_okE [OF _ m(1) fits(2,1)] ok unfolding slice_ok_def by blast
  have sr: "Slice_ReadAt f n off = (segment (nat (sl_Offset f + off)) m (reader_bytes (sl_Base f)),
      if e = None \<and> m < n then Some EOF else e)"
    using True assms(2) fits r by (auto simp: Slice_ReadAt_def Let_def simp flip: m_def)
  have len: "length (slice_bytes f) = nat (sl_Length f)" using ok by (auto simp: slice_ok_def slice_bytes_def)
  have "nat (sl_Offset f + off) = nat (sl_Offset f) + nat off" using ok assms(2) by (simp add: slice_ok_def nat_add_distrib)
  moreover have "m = min n (nat (sl_Length f) - nat off)" using True assms(2) by (auto simp: m_def min_def)
  ultimately have "take n (drop (nat off) (slice_bytes f)) = segment (nat (sl_Offset f + off)) m (reader_bytes (sl_Base f))"
    by (simp add: slice_bytes_def segment_def drop_take add.commute)
  then have "fst (Bytes_ReadAt (slice_bytes f) n off) = fst (Slice_ReadAt f n off)"
    using True assms(2) len by (simp add: Bytes_ReadAt_def Let_def sr)
  with sr e fits show ?thesis by auto
qed

lemma Slice_reader_ok:
  assumes ok: "slice_ok f"
  shows "reader_ok (Slice_reader f)" and "reader_bytes (Slice_reader f) = slice_bytes f"
proof -
  have len: "length (slice_bytes f) = nat (sl_Length f)" using ok by (auto simp: slice_ok_def slice_bytes_def)
  show b: "reader_bytes (Slice_reader f) = slice_bytes f"
  proof (cases "sl_Length f > 0")
    case True
    with Slice_ReadAt_ok [OF ok, of 0 "nat (sl_Length f)"] len show ?thesis
      by (simp add: reader_bytes_def Slice_reader_def Bytes_ReadAt_def Let_def)
  next
    case False
    with len show ?thesis by (simp add: reader_bytes_def Slice_reader_def Slice_ReadAt_def)
  qed
  have "\<exists>e. Slice_ReadAt f n off = (segment (nat off) n (slice_bytes f), e) \<and> (e = None \<or> e = Some EOF)"
    if "0 < n" "0 \<le> off" "nat off + n \<le> length (slice_bytes f)" for n off
    using that Slice_ReadAt_ok [OF ok that(2,1)]
    by (cases "Slice_ReadAt f n off") (auto simp: Bytes_ReadAt_def segment_def Let_def)
  then show "reader_ok (Slice_reader f)"
    unfolding reader_ok_def b by (simp add: Slice_reader_def len)
qed

lemma ReadAll_ok:
  assumes "reader_ok r" and "0 \<le> rd_Size r" and "rd_Size r \<le> max_int64"
  shows "ReadAll r = (reader_bytes r, None)"
proof (cases "rd_Size r = 0")
  case True
  with assms show ?thesis
    by (auto simp: ReadAll_def ReadFullAt_def reader_ok_def ReadFullAt_loop.simps)
next
  case False
  with assms have pos: "0 < nat (rd_Size r)" and len: "nat 0 + nat (rd_Size r) \<le> length (reader_bytes r)"
    by (auto simp: reader_ok_def)
  obtain e where "rd_ReadAt r (nat (rd_Size r)) 0 = (segment (nat 0) (nat (rd_Size r)) (reader_bytes r), e)"
      and "e = None \<or> e = Some EOF"
    by (rule reader_okE [OF assms(1) pos _ len]) simp_all
  then have "rd_ReadAt r (nat (rd_Size r)) 0 = (reader_bytes r, e)" "e = None \<or> e = Some EOF"
    using assms(1) by (simp_all add: reader_ok_def)
  moreover have "length (reader_bytes r) = nat (rd_Size r)" using assms(1) by (simp add: reader_ok_def)
  ultimately have "ReadFullAt (rd_ReadAt r) (nat (rd_Size r)) 0 = (reader_bytes r, None)"
    unfolding ReadFullAt_def by (subst ReadFullAt_loop.simps) (use assms False in \<open>auto simp: ReadFullAt_loop.simps [of _ _ _ "reader_bytes r"]\<close>)
  then show ?thesis using assms by (simp add: ReadAll_def reader_ok_def)
qed


text \<open>What the \<open>slice\<close> attribute accepts is a slice inside its file.\<close>

lemma Attr_slice_ok:
  assumes "Attr_slice file None off_arg size_arg = Inr f" and "reader_ok file"
  shows "slice_ok f \<and> reader_ok (Slice_reader f)"
proof -
  have "slice_ok f"
    using assms by (auto simp: Attr_slice_def fileRangeArgs_def rangeArgs_def Let_def slice_ok_def reader_ok_def split: if_splits)
  then show ?thesis using Slice_reader_ok by blast
qed

interpretation composite: read_store composite_inv composite_bytes Composite_ReadAt
proof
  fix c off n
  assume "composite_inv c" "0 \<le> off" "nat off + n \<le> length (composite_bytes c)"
  then show "Composite_ReadAt c n off = (segment (nat off) n (composite_bytes c), None)"
    by (cases "n = 0") (auto simp: Composite_ReadAt_def [of _ 0] Composite_ReadAt_ok Bytes_ReadAt_def segment_def Let_def)
qed

text \<open>The bytes a splice argument stands for.\<close>

fun value_reader :: "star_value \<Rightarrow> reader option" where
  "value_reader (VReader r) = Some r"
| "value_reader (VString s) = Some (Bytes_reader s)"
| "value_reader (VBytes s) = Some (Bytes_reader s)"
| "value_reader VOther = None"

lemma splice_file_cases:
  assumes "splice_file file offset remove value = Inr c"
  obtains ins where "value_reader value = Some ins" and "0 \<le> offset" and "0 \<le> remove"
    and "offset + remove \<le> rd_Size file"
    and "Compose [\<lparr>rg_Source = Some file, rg_Offset = 0, rg_Length = offset\<rparr>,
                  \<lparr>rg_Source = Some ins, rg_Offset = 0, rg_Length = rd_Size ins\<rparr>,
                  \<lparr>rg_Source = Some file, rg_Offset = offset + remove,
                   rg_Length = rd_Size file - offset - remove\<rparr>] = Inr c"
  using assms by (cases "value") (auto simp: splice_file_def split: if_splits)

lemma splice_contents:
  assumes "splice_file file offset remove value = Inr c" and "reader_ok file"
    and "\<And>r. value = VReader r \<Longrightarrow> reader_ok r"
  shows "\<exists>ins. value_reader value = Some ins \<and> composite_inv c \<and>
    composite_bytes c = take (nat offset) (reader_bytes file) @ reader_bytes ins @
      drop (nat (offset + remove)) (reader_bytes file)"
proof -
  obtain ins where ins: "value_reader value = Some ins" and rng: "0 \<le> offset" "0 \<le> remove"
      "offset + remove \<le> rd_Size file"
    and c: "Compose [\<lparr>rg_Source = Some file, rg_Offset = 0, rg_Length = offset\<rparr>,
                  \<lparr>rg_Source = Some ins, rg_Offset = 0, rg_Length = rd_Size ins\<rparr>,
                  \<lparr>rg_Source = Some file, rg_Offset = offset + remove,
                   rg_Length = rd_Size file - offset - remove\<rparr>] = Inr c"
    by (rule splice_file_cases [OF assms(1)])
  have iok: "reader_ok ins" using ins assms(3) by (cases "value") auto
  have il: "length (reader_bytes ins) = nat (rd_Size ins)" and fl: "length (reader_bytes file) = nat (rd_Size file)"
    using iok assms(2) by (simp_all add: reader_ok_def)
  have "segment (nat (offset + remove)) (nat (rd_Size file - offset - remove)) (reader_bytes file) =
      drop (nat (offset + remove)) (reader_bytes file)"
    using rng fl by (simp add: segment_def)
  moreover have "composite_inv c \<and> composite_bytes c = segment 0 (nat offset) (reader_bytes file) @
      segment 0 (nat (rd_Size ins)) (reader_bytes ins) @
      segment (nat (offset + remove)) (nat (rd_Size file - offset - remove)) (reader_bytes file)"
  proof -
    have "composite_inv c \<and> composite_bytes c = concat (map range_bytes
       [\<lparr>rg_Source = Some file, rg_Offset = 0, rg_Length = offset\<rparr>,
        \<lparr>rg_Source = Some ins, rg_Offset = 0, rg_Length = rd_Size ins\<rparr>,
        \<lparr>rg_Source = Some file, rg_Offset = offset + remove, rg_Length = rd_Size file - offset - remove\<rparr>])"
      by (rule Compose_inv [OF c]) (use iok assms(2) in auto)
    then show ?thesis by (simp add: range_bytes_def)
  qed
  ultimately show ?thesis using ins il by (simp add: segment_def)
qed

subsection \<open>Properties\<close>

text \<open>
  C4. A composed file reads like the concatenation of its ranges: for every offset from zero on and every
  non-empty buffer, \<open>Composite.ReadAt\<close>, with its binary search and its walk over the ranges, returns the same
  bytes and the same error as \<open>Bytes.ReadAt\<close> over the concatenated bytes, end of file included. A negative
  offset is refused with an error of its own, and an empty buffer is filled without error at any other offset.
\<close>

theorem composite_reads_concatenation:
  assumes "Compose rs = Inr c" and "\<And>r. r \<in> set rs \<Longrightarrow> reader_ok (range_source r)"
  shows "Composite_ReadAt c n off =
    (if off < 0 then ([], Some (Errorf ''negative read offset''))
     else if n = 0 then ([], None)
     else Bytes_ReadAt (concat (map range_bytes rs)) n off)"
proof (cases "off < 0 \<or> n = 0")
  case True
  then show ?thesis by (auto simp: Composite_ReadAt_def)
next
  case False
  then show ?thesis using Compose_inv [OF assms] Composite_ReadAt_ok [of c off n] by simp
qed

definition two_ranges :: "range' list" where
  "two_ranges = [\<lparr>rg_Source = Some (Bytes_reader [1, 2, 3, 4]), rg_Offset = 1, rg_Length = 2\<rparr>,
                 \<lparr>rg_Source = Some (Bytes_reader [9, 8]), rg_Offset = 0, rg_Length = 2\<rparr>]"

lemma two_ranges_composed:
  "Compose two_ranges = Inr \<lparr>co_ranges = two_ranges, co_ends = [2, 4], co_size = 4\<rparr>"
  by (simp add: Compose_def two_ranges_def Bytes_reader_def)

theorem composite_reads_concatenation_witness:
  "Composite_ReadAt \<lparr>co_ranges = two_ranges, co_ends = [2, 4], co_size = 4\<rparr> 5 1 = ([3, 9, 8], Some EOF)"
proof -
  have "\<And>r. r \<in> set two_ranges \<Longrightarrow> reader_ok (range_source r)" by (auto simp: two_ranges_def)
  from composite_reads_concatenation [OF two_ranges_composed this, of 5 1] show ?thesis
    by (simp add: two_ranges_def range_bytes_def segment_def Bytes_ReadAt_def Let_def)
qed

text \<open>
  C5. Splicing: the file that \<open>splice(offset, remove, value)\<close> returns reads as the original up to
  \<open>offset\<close>, then the inserted bytes, then the original from \<open>offset + remove\<close> on; it is again a stable
  reader, so splices nest.
\<close>

theorem splice_reads:
  assumes "splice_file file offset remove value = Inr c" and "reader_ok file"
    and "\<And>r. value = VReader r \<Longrightarrow> reader_ok r"
  shows "reader_ok (Composite_reader c) \<and>
    (\<exists>ins. value_reader value = Some ins \<and>
      reader_bytes (Composite_reader c) = take (nat offset) (reader_bytes file) @ reader_bytes ins @
        drop (nat (offset + remove)) (reader_bytes file))"
  using splice_contents [OF assms] Composite_reader_ok by auto

theorem splice_reads_witness:
  "\<exists>c. splice_file (Bytes_reader [1, 2, 3, 4]) 1 2 (VString [7]) = Inr c \<and>
     reader_bytes (Composite_reader c) = [1, 7, 4]"
proof -
  obtain c where c: "splice_file (Bytes_reader [1, 2, 3, 4]) 1 2 (VString [7]) = Inr c"
    by (simp add: splice_file_def Compose_def Bytes_reader_def)
  with splice_reads [OF c] show ?thesis by auto
qed

end
