(* ===== verification/Guest_Memory.thy ===== *)
theory Guest_Memory
  imports Prelude
begin

text \<open>
  The guest address space of the emulators, \<open>src/emulator/cpu/memory.go\<close>: disjoint mapped regions
  under overlaid protections, a permission cache for reads, and the write tracking that keeps derived
  caches (the translation cache of the ARM64 processor) coherent.

  A \<open>*AddressSpace\<close> is a value with the identity \<open>as_ref\<close>; operations return it updated. The slices in the
  read cache are aliases of region bytes, so a cache entry names the region (by its start address), an
  offset and a length instead of holding bytes. Region and slice lengths are \<^typ>\<open>nat\<close>; addresses and sizes that the
  source keeps in a \<open>uint64\<close> are 64-bit words, whose arithmetic wraps.
\<close>

subsection \<open>State\<close>

type_synonym access = "8 word"

abbreviation (input) Read_access :: access where "Read_access \<equiv> 1"
abbreviation (input) Write_access :: access where "Write_access \<equiv> 2"
abbreviation (input) Execute_access :: access where "Execute_access \<equiv> 4"

record region =
  reg_start :: u64
  reg_data :: bytes
  reg_access :: access

record protection =
  pr_Start :: u64
  pr_Size :: u64
  pr_Access :: access

record permission_span =
  ps_start :: u64
  ps_data :: "(u64 \<times> nat \<times> nat) option"
  ps_access :: access

record mapping_view =
  mv_Start :: u64
  mv_Size :: u64
  mv_Base :: u64
  mv_Access :: access

record address_space =
  as_ref :: nat
  as_regions :: "region list"
  as_limit :: u64
  as_used :: u64
  as_protections :: "protection list"
  as_readCache :: "permission_span list"
  as_trackedPages :: "u64 list"
  as_trackedFilter :: "u64 list"
  as_trackedVersion :: u64

definition empty_readCache :: "permission_span list" where
  "empty_readCache = replicate 64 \<lparr>ps_start = 0, ps_data = None, ps_access = 0\<rparr>"

definition NewAddressSpace :: "nat \<Rightarrow> u64 \<Rightarrow> address_space" where
  "NewAddressSpace ref limit = \<lparr>as_ref = ref, as_regions = [], as_limit = limit, as_used = 0, as_protections = [],
     as_readCache = empty_readCache, as_trackedPages = [], as_trackedFilter = replicate 64 0, as_trackedVersion = 0\<rparr>"

subsection \<open>Write tracking\<close>

definition filter_bit :: "u64 \<Rightarrow> u64" where
  "filter_bit page = (page XOR drop_bit 12 page) AND 4095"

definition in_filter :: "u64 list \<Rightarrow> u64 \<Rightarrow> bool" where
  "in_filter flt page \<longleftrightarrow>
     (let b = filter_bit page
      in (flt ! unat (drop_bit 6 b)) AND (push_bit (unat (b AND 63)) 1) \<noteq> 0)"

definition TrackPageWrites :: "address_space \<Rightarrow> u64 \<Rightarrow> address_space" where
  "TrackPageWrites m address =
     (let page = drop_bit 12 address;
          b = filter_bit page;
          k = unat (drop_bit 6 b)
      in m\<lparr>as_trackedPages := List.insert page (as_trackedPages m),
           as_trackedFilter := (as_trackedFilter m)[k := (as_trackedFilter m ! k) OR push_bit (unat (b AND 63)) 1]\<rparr>)"

definition trackWrite :: "address_space \<Rightarrow> u64 \<Rightarrow> nat \<Rightarrow> address_space" where
  "trackWrite m address n =
     (if n = 0 \<or> as_trackedPages m = [] then m
      else let page = drop_bit 12 address; last_page = drop_bit 12 (address + of_nat n - 1)
           in if list_ex (\<lambda>k. let p = of_nat k in in_filter (as_trackedFilter m) p \<and> p \<in> set (as_trackedPages m))
                   [unat page ..< Suc (unat last_page)]
              then m\<lparr>as_trackedVersion := as_trackedVersion m + 1\<rparr> else m)"

subsection \<open>Lookup and permissions\<close>

text \<open>\<open>find\<close> returns a pointer into the sorted region slice: an index.\<close>

definition find_region :: "address_space \<Rightarrow> u64 \<Rightarrow> nat option" where
  "find_region m address =
     (let i = sort_Search (length (as_regions m)) (\<lambda>i. reg_start (as_regions m ! i) > address)
      in if i = 0 \<or> unat (address - reg_start (as_regions m ! (i - 1))) \<ge> length (reg_data (as_regions m ! (i - 1)))
         then None else Some (i - 1))"

definition protect_step :: "u64 \<Rightarrow> protection \<Rightarrow> access \<times> nat \<Rightarrow> access \<times> nat" where
  "protect_step address p = (\<lambda>(access, available).
     if address \<ge> pr_Start p \<and> address - pr_Start p < pr_Size p
     then (pr_Access p, min available (unat (pr_Size p - (address - pr_Start p))))
     else if pr_Start p > address \<and> unat (pr_Start p - address) < available
     then (access, unat (pr_Start p - address))
     else (access, available))"

definition accessAt :: "address_space \<Rightarrow> u64 \<Rightarrow> region \<Rightarrow> access \<times> nat" where
  "accessAt m address r =
     fold (protect_step address) (as_protections m)
       (reg_access r, length (reg_data r) - unat (address - reg_start r))"

definition validRange :: "u64 \<Rightarrow> int \<Rightarrow> bool" where
  "validRange address n \<longleftrightarrow> n \<ge> 0 \<and> (n = 0 \<or> of_int (n - 1) \<le> (-1 :: u64) - address)"

lemma find_region_data:
  "find_region m address = Some k \<Longrightarrow>
    unat (address - reg_start (as_regions m ! k)) < length (reg_data (as_regions m ! k))"
  by (auto simp: find_region_def Let_def split: if_splits)

lemma protect_step_pos: "0 < snd s \<Longrightarrow> 0 < snd (protect_step address p s)"
  by (auto simp: protect_step_def word_less_nat_alt unat_gt_0 split: prod.splits)

lemma fold_protect_step_pos: "0 < snd s \<Longrightarrow> 0 < snd (fold (protect_step address) ps s)"
  by (induction ps arbitrary: s) (simp_all add: protect_step_pos)

lemma accessAt_pos:
  "unat (address - reg_start r) < length (reg_data r) \<Longrightarrow> 0 < snd (accessAt m address r)"
  by (simp add: accessAt_def fold_protect_step_pos)

subsection \<open>The read cache\<close>

definition region_named :: "address_space \<Rightarrow> u64 \<Rightarrow> region option" where
  "region_named m start = List.find (\<lambda>r. reg_start r = start) (as_regions m)"

text \<open>The bytes a cache entry aliases; \<open>None\<close> is the nil slice.\<close>

definition span_bytes :: "address_space \<Rightarrow> permission_span \<Rightarrow> bytes option" where
  "span_bytes m e =
     (case ps_data e of
        None \<Rightarrow> None
      | Some (start, off, n) \<Rightarrow> map_option (\<lambda>r. segment off n (reg_data r)) (region_named m start))"

definition cache_index :: "u64 \<Rightarrow> nat" where
  "cache_index address = unat (drop_bit 12 address) mod 64"

definition cachedSpan :: "address_space \<Rightarrow> u64 \<Rightarrow> int \<Rightarrow> access \<Rightarrow> bytes option" where
  "cachedSpan m address n access =
     (let entry = as_readCache m ! cache_index address in
      if address < ps_start entry \<or> n < 0 \<or> ps_access entry AND access \<noteq> access then None
      else case span_bytes m entry of
        None \<Rightarrow> None
      | Some data \<Rightarrow>
          let offset = address - ps_start entry in
          if unat offset > length data \<or> nat n > length data - unat offset then None
          else Some (segment (unat offset) (nat n) data))"

definition span_start :: "address_space \<Rightarrow> u64 \<Rightarrow> region \<Rightarrow> u64" where
  "span_start m address r =
     fold (\<lambda>p start.
         if pr_Start p \<le> address
         then let start = max start (pr_Start p)
              in if address - pr_Start p \<ge> pr_Size p then max start (pr_Start p + pr_Size p) else start
         else start)
       (as_protections m) (max (reg_start r) (address AND NOT 4095))"

definition cacheSpan :: "address_space \<Rightarrow> u64 \<Rightarrow> region \<Rightarrow> address_space" where
  "cacheSpan m address r =
     (let start = span_start m address r;
          (access, available) = accessAt m start r;
          available = min available (4096 - unat (start AND 4095))
      in m\<lparr>as_readCache := (as_readCache m)[cache_index address :=
             \<lparr>ps_start = start, ps_data = Some (reg_start r, unat (start - reg_start r), available), ps_access = access\<rparr>]\<rparr>)"

subsection \<open>Checking, reading and writing\<close>

definition denied :: go_error where
  "denied = Errorf ''memory: access %d denied at %#x''"

function check_loop :: "address_space \<Rightarrow> u64 \<Rightarrow> nat \<Rightarrow> access \<Rightarrow> go_error option" where
  "check_loop m address remaining access =
     (if remaining = 0 then None
      else case find_region m address of
        None \<Rightarrow> Some denied
      | Some k \<Rightarrow>
          (let (permissions, available) = accessAt m address (as_regions m ! k) in
           if permissions AND access \<noteq> access then Some denied
           else let n = min remaining available
                in check_loop m (if remaining - n \<noteq> 0 then address + of_nat n else address) (remaining - n) access))"
  by pat_completeness auto
termination
proof (relation "measure (\<lambda>(m, address, remaining, access). remaining)", simp)
  fix m :: address_space and address remaining access k x permissions available n
  assume "remaining \<noteq> (0::nat)" "find_region m address = Some k" "x = accessAt m address (as_regions m ! k)"
    "(permissions, available) = x" "n = min remaining available"
  moreover from this accessAt_pos [OF find_region_data, of m address k m] have "0 < available" by (metis snd_conv)
  ultimately show "((m, if remaining - n \<noteq> 0 then address + word_of_nat n else address, remaining - n, access),
      m, address, remaining, access) \<in> measure (\<lambda>(m, address, remaining, access). remaining)"
    by simp
qed

declare check_loop.simps [simp del]

definition check :: "address_space \<Rightarrow> u64 \<Rightarrow> int \<Rightarrow> access \<Rightarrow> go_error option" where
  "check m address n access =
     (if \<not> validRange address n then Some (Errorf ''memory: range overflows at %#x'')
      else if cachedSpan m address n access \<noteq> None then None
      else check_loop m address (nat n) access)"

definition CheckMemory :: "address_space \<Rightarrow> u64 \<Rightarrow> int \<Rightarrow> access \<Rightarrow> go_error option" where
  "CheckMemory m address n access =
     (if access = 0 \<or> access AND NOT 7 \<noteq> 0 then Some (Errorf ''memory: invalid access %d'')
      else check m address n access)"

function read_loop :: "address_space \<Rightarrow> u64 \<Rightarrow> nat \<Rightarrow> go_error + bytes" where
  "read_loop m address n =
     (if n = 0 then Inr []
      else case find_region m address of
        None \<Rightarrow> Inl (Panic ''invalid memory address or nil pointer dereference'')
      | Some k \<Rightarrow>
          (let r = as_regions m ! k;
               bs = take n (drop (unat (address - reg_start r)) (reg_data r))
           in case read_loop m (if n - length bs \<noteq> 0 then address + of_nat (length bs) else address) (n - length bs) of
                Inl e \<Rightarrow> Inl e
              | Inr rest \<Rightarrow> Inr (bs @ rest)))"
  by pat_completeness auto
termination
  by (relation "measure (\<lambda>(m, address, n). n)") (auto dest: find_region_data)

declare read_loop.simps [simp del]

definition ReadMemory :: "address_space \<Rightarrow> u64 \<Rightarrow> nat \<Rightarrow> access \<Rightarrow> (go_error + bytes) \<times> address_space" where
  "ReadMemory m address n access =
     (if access \<noteq> Read_access \<and> access \<noteq> Execute_access
      then (Inl (Errorf ''memory: invalid read access %d''), m)
      else case cachedSpan m address (int n) access of
        Some source \<Rightarrow> (Inr source, m)
      | None \<Rightarrow>
          (let refill = (if validRange address (int n)
                         then map_option (\<lambda>k. cacheSpan m address (as_regions m ! k)) (find_region m address)
                         else None);
               m' = (case refill of None \<Rightarrow> m | Some filled \<Rightarrow> filled)
           in case Option.bind refill (\<lambda>filled. cachedSpan filled address (int n) access) of
                Some source \<Rightarrow> (Inr source, m')
              | None \<Rightarrow>
                  (case check m' address (int n) access of
                     Some e \<Rightarrow> (Inl e, m')
                   | None \<Rightarrow> (read_loop m' address n, m'))))"

function write_loop :: "address_space \<Rightarrow> u64 \<Rightarrow> bytes \<Rightarrow> go_error option \<times> address_space" where
  "write_loop m address source =
     (if source = [] then (None, m)
      else case find_region m address of
        None \<Rightarrow> (Some (Panic ''invalid memory address or nil pointer dereference''), m)
      | Some k \<Rightarrow>
          (let r = as_regions m ! k;
               off = unat (address - reg_start r);
               n = min (length source) (length (reg_data r) - off);
               m' = m\<lparr>as_regions := (as_regions m)[k := r\<lparr>reg_data := overwrite off (take n source) (reg_data r)\<rparr>]\<rparr>
           in write_loop m' (if length source - n \<noteq> 0 then address + of_nat n else address) (drop n source)))"
  by pat_completeness auto
termination
  by (relation "measure (\<lambda>(m, address, source). length source)") (auto dest: find_region_data)

declare write_loop.simps [simp del]

definition WriteMemory :: "address_space \<Rightarrow> u64 \<Rightarrow> bytes \<Rightarrow> go_error option \<times> address_space" where
  "WriteMemory m address source =
     (case check m address (int (length source)) Write_access of
        Some e \<Rightarrow> (Some e, m)
      | None \<Rightarrow> write_loop (trackWrite m address (length source)) address source)"

subsection \<open>Mapping, protecting, cloning\<close>

definition Map :: "address_space \<Rightarrow> u64 \<Rightarrow> bytes \<Rightarrow> access \<Rightarrow> go_error option \<times> address_space" where
  "Map m address data access =
     (if data = [] \<or> \<not> validRange address (int (length data)) \<or> access = 0 \<or> access AND NOT 7 \<noteq> 0
      then (Some (Errorf ''memory: invalid mapping at %#x''), m)
      else if of_nat (length data) > as_limit m - as_used m
      then (Some (Errorf ''memory: mapping exceeds %d-byte budget''), m)
      else let last_byte = address + of_nat (length data - 1) in
           if list_ex (\<lambda>r. address \<le> reg_start r + of_nat (length (reg_data r) - 1) \<and> reg_start r \<le> last_byte)
                (as_regions m)
           then (Some (Errorf ''memory: overlapping mapping at %#x''), m)
           else (None, m\<lparr>as_regions := sort_key reg_start
                            (as_regions m @ [\<lparr>reg_start = address, reg_data = data, reg_access = access\<rparr>]),
                         as_used := as_used m + of_nat (length data),
                         as_readCache := empty_readCache,
                         as_trackedVersion := as_trackedVersion m + 1\<rparr>))"

definition split_protection :: "u64 \<Rightarrow> u64 \<Rightarrow> protection \<Rightarrow> protection list" where
  "split_protection address last_byte p =
     (let pLast = pr_Start p + pr_Size p - 1 in
      if pLast < address \<or> pr_Start p > last_byte then [p]
      else (if pr_Start p < address
            then [\<lparr>pr_Start = pr_Start p, pr_Size = address - pr_Start p, pr_Access = pr_Access p\<rparr>] else []) @
           (if pLast > last_byte
            then [\<lparr>pr_Start = last_byte + 1, pr_Size = pLast - last_byte, pr_Access = pr_Access p\<rparr>] else []))"

fun unmap_from :: "address_space \<Rightarrow> u64 \<Rightarrow> region list \<Rightarrow> region list \<Rightarrow> go_error option \<times> address_space" where
  "unmap_from m address before [] = (Some (Errorf ''memory: no mapping starts at %#x''), m)"
| "unmap_from m address before (r # rs) =
     (if reg_start r = address
      then let last_byte = address + of_nat (length (reg_data r) - 1)
           in (None, m\<lparr>as_protections := concat (map (split_protection address last_byte) (as_protections m)),
                      as_used := as_used m - of_nat (length (reg_data r)),
                      as_regions := before @ rs,
                      as_readCache := empty_readCache,
                      as_trackedVersion := as_trackedVersion m + 1\<rparr>)
      else unmap_from m address (before @ [r]) rs)"

definition Unmap :: "address_space \<Rightarrow> u64 \<Rightarrow> go_error option \<times> address_space" where
  "Unmap m address = unmap_from m address [] (as_regions m)"

function previous_loop :: "address_space \<Rightarrow> u64 \<Rightarrow> nat \<Rightarrow> go_error + protection list" where
  "previous_loop m location remaining =
     (if remaining = 0 then Inr []
      else case find_region m location of
        None \<Rightarrow> Inl (Panic ''invalid memory address or nil pointer dereference'')
      | Some k \<Rightarrow>
          (let (permissions, available) = accessAt m location (as_regions m ! k);
               n = min remaining available
           in map_sum id (\<lambda>rest. \<lparr>pr_Start = location, pr_Size = of_nat n, pr_Access = permissions\<rparr> # rest)
                (previous_loop m (if remaining - n \<noteq> 0 then location + of_nat n else location) (remaining - n))))"
  by pat_completeness auto
termination
proof (relation "measure (\<lambda>(m, location, remaining). remaining)", simp)
  fix m :: address_space and location remaining k x permissions available n
  assume "remaining \<noteq> (0::nat)" "find_region m location = Some k" "x = accessAt m location (as_regions m ! k)"
    "(permissions, available) = x" "n = min remaining available"
  moreover from this accessAt_pos [OF find_region_data, of m location k m] have "0 < available" by (metis snd_conv)
  ultimately show "((m, if remaining - n \<noteq> 0 then location + word_of_nat n else location, remaining - n),
      m, location, remaining) \<in> measure (\<lambda>(m, location, remaining). remaining)"
    by simp
qed

declare previous_loop.simps [simp del]

definition Protect :: "address_space \<Rightarrow> u64 \<Rightarrow> int \<Rightarrow> access \<Rightarrow> (go_error + protection list) \<times> address_space" where
  "Protect m address n access =
     (if n \<le> 0 \<or> access AND NOT 7 \<noteq> 0 then (Inl (Errorf ''memory: invalid protection''), m)
      else case check m address n 0 of
        Some e \<Rightarrow> (Inl e, m)
      | None \<Rightarrow>
          (case previous_loop m address (nat n) of
             Inl e \<Rightarrow> (Inl e, m)
           | Inr previous \<Rightarrow>
               (Inr previous, m\<lparr>as_protections := as_protections m @
                                   [\<lparr>pr_Start = address, pr_Size = of_int n, pr_Access = access\<rparr>],
                                 as_readCache := empty_readCache,
                                 as_trackedVersion := as_trackedVersion m + 1\<rparr>)))"

text \<open>\<open>Clone\<close> makes a new object; write subscriptions and cached spans stay with the original.\<close>

definition Clone :: "nat \<Rightarrow> address_space \<Rightarrow> address_space" where
  "Clone ref m = (NewAddressSpace ref (as_limit m))
     \<lparr>as_used := as_used m, as_protections := as_protections m, as_regions := as_regions m\<rparr>"

text \<open>A slice is shorter than \<open>2 ^ 63\<close> bytes; the second guard states it where termination needs it.\<close>

function mappings_from :: "address_space \<Rightarrow> region \<Rightarrow> nat \<Rightarrow> mapping_view list" where
  "mappings_from m r offset =
     (if offset < length (reg_data r) \<and> length (reg_data r) < 2 ^ 63
      then let address = reg_start r + of_nat offset;
               (access, available) = accessAt m address r
           in \<lparr>mv_Start = address, mv_Size = of_nat available, mv_Base = reg_start r, mv_Access = access\<rparr> #
              mappings_from m r (offset + available)
      else [])"
  by pat_completeness auto
termination
proof (relation "measure (\<lambda>(m, r, offset). length (reg_data r) - offset)", simp)
  fix m :: address_space and r :: region and offset address x access available
  assume "offset < length (reg_data r) \<and> length (reg_data r) < 2 ^ 63" "address = reg_start r + word_of_nat offset"
    "x = accessAt m address r" "(access, available) = x"
  moreover from this have "unat (address - reg_start r) = offset" by (simp add: unat_of_nat take_bit_nat_eq_self)
  ultimately have "0 < available" using accessAt_pos [of address r m] by (metis snd_conv)
  with \<open>offset < _ \<and> _\<close> show "((m, r, offset + available), m, r, offset) \<in> measure (\<lambda>(m, r, offset). length (reg_data r) - offset)"
    by auto
qed

declare mappings_from.simps [simp del]

definition Mappings :: "address_space \<Rightarrow> mapping_view list" where
  "Mappings m = concat (map (\<lambda>r. mappings_from m r 0) (as_regions m))"

end
