(* ===== verification/Guest_Memory_Spec.thy ===== *)
theory Guest_Memory_Spec
  imports Guest_Memory
begin

text \<open>
  What an address space means: the byte and the effective permission at every guest address. The theory
  states the well-formedness of an address space, shows that the region search, the permission scan and
  the read cache compute this meaning, and that every operation keeps the space well formed.
\<close>

subsection \<open>Words as addresses\<close>

lemma unat_add_nat: "unat (a :: u64) + i < 2 ^ 64 \<Longrightarrow> unat (a + of_nat i) = unat a + i"
  by (simp add: unat_word_ariths unat_of_nat take_bit_nat_eq_self)

lemma unat_of_nat_small: "n < 2 ^ 64 \<Longrightarrow> unat (of_nat n :: u64) = n"
  by (simp add: unat_of_nat take_bit_nat_eq_self)

lemma unat_minus: "b \<le> (a :: u64) \<Longrightarrow> unat (a - b) = unat a - unat b"
  by (simp add: unat_sub)

lemma unat_lt_64 [simp]: "unat (a :: u64) < 18446744073709551616"
  using unsigned_less [of a] by simp

subsection \<open>Meaning\<close>

definition covers :: "protection \<Rightarrow> u64 \<Rightarrow> bool" where
  "covers p a \<longleftrightarrow> pr_Start p \<le> a \<and> a - pr_Start p < pr_Size p"

definition effective :: "protection list \<Rightarrow> access \<Rightarrow> u64 \<Rightarrow> access" where
  "effective ps acc a = fold (\<lambda>p acc. if covers p a then pr_Access p else acc) ps acc"

definition holds :: "region \<Rightarrow> u64 \<Rightarrow> bool" where
  "holds r a \<longleftrightarrow> reg_start r \<le> a \<and> unat (a - reg_start r) < length (reg_data r)"

definition region_at :: "address_space \<Rightarrow> u64 \<Rightarrow> region option" where
  "region_at m a = List.find (\<lambda>r. holds r a) (as_regions m)"

definition byte_at :: "address_space \<Rightarrow> u64 \<Rightarrow> byte option" where
  "byte_at m a = map_option (\<lambda>r. reg_data r ! unat (a - reg_start r)) (region_at m a)"

definition perm_at :: "address_space \<Rightarrow> u64 \<Rightarrow> access option" where
  "perm_at m a = map_option (\<lambda>r. effective (as_protections m) (reg_access r) a) (region_at m a)"

definition allows :: "address_space \<Rightarrow> access \<Rightarrow> u64 \<Rightarrow> bool" where
  "allows m access a \<longleftrightarrow> (case perm_at m a of None \<Rightarrow> False | Some p \<Rightarrow> p AND access = access)"

subsection \<open>Well-formedness\<close>

definition region_ok :: "region \<Rightarrow> bool" where
  "region_ok r \<longleftrightarrow> reg_data r \<noteq> [] \<and> length (reg_data r) < 2 ^ 63 \<and> unat (reg_start r) + length (reg_data r) \<le> 2 ^ 64"

definition protection_ok :: "protection \<Rightarrow> bool" where
  "protection_ok p \<longleftrightarrow> 0 < pr_Size p \<and> unat (pr_Size p) < 2 ^ 63 \<and> unat (pr_Start p) + unat (pr_Size p) \<le> 2 ^ 64"

definition region_before :: "region \<Rightarrow> region \<Rightarrow> bool" where
  "region_before r s \<longleftrightarrow> unat (reg_start r) + length (reg_data r) \<le> unat (reg_start s)"

definition span_ok :: "address_space \<Rightarrow> permission_span \<Rightarrow> bool" where
  "span_ok m e \<longleftrightarrow> (case ps_data e of
       None \<Rightarrow> True
     | Some (start, off, n) \<Rightarrow>
         (\<exists>r \<in> set (as_regions m). reg_start r = start \<and> off + n \<le> length (reg_data r) \<and>
            ps_start e = start + of_nat off \<and>
            (\<forall>i < n. effective (as_protections m) (reg_access r) (ps_start e + of_nat i) = ps_access e)))"

definition as_shape :: "address_space \<Rightarrow> bool" where
  "as_shape m \<longleftrightarrow> sorted_wrt region_before (as_regions m) \<and> (\<forall>r \<in> set (as_regions m). region_ok r) \<and>
     (\<forall>p \<in> set (as_protections m). protection_ok p)"

definition as_inv :: "address_space \<Rightarrow> bool" where
  "as_inv m \<longleftrightarrow> as_shape m \<and>
     unat (as_used m) = (\<Sum>r\<leftarrow>as_regions m. length (reg_data r)) \<and> as_used m \<le> as_limit m \<and>
     length (as_readCache m) = 64 \<and> (\<forall>e \<in> set (as_readCache m). span_ok m e) \<and>
     length (as_trackedFilter m) = 64 \<and> (\<forall>p \<in> set (as_trackedPages m). in_filter (as_trackedFilter m) p)"

subsection \<open>Region search\<close>

lemma holds_nat:
  "region_ok r \<Longrightarrow> holds r a \<longleftrightarrow> unat (reg_start r) \<le> unat a \<and> unat a < unat (reg_start r) + length (reg_data r)"
  by (auto simp: holds_def word_le_nat_alt unat_minus)

lemma covers_nat:
  "covers p a \<longleftrightarrow> unat (pr_Start p) \<le> unat a \<and> unat a < unat (pr_Start p) + unat (pr_Size p)"
  by (auto simp: covers_def word_le_nat_alt word_less_nat_alt unat_minus)

lemma shape_region: "as_shape m \<Longrightarrow> k < length (as_regions m) \<Longrightarrow> region_ok (as_regions m ! k)"
  by (simp add: as_shape_def)

lemma shape_before:
  "as_shape m \<Longrightarrow> i < j \<Longrightarrow> j < length (as_regions m) \<Longrightarrow> region_before (as_regions m ! i) (as_regions m ! j)"
  by (simp add: as_shape_def sorted_wrt_iff_nth_less)

lemma shape_start_mono:
  "as_shape m \<Longrightarrow> i \<le> j \<Longrightarrow> j < length (as_regions m) \<Longrightarrow> reg_start (as_regions m ! i) \<le> reg_start (as_regions m ! j)"
  using shape_before [of m i j] by (cases "i = j") (auto simp: region_before_def word_le_nat_alt)

lemma region_unique:
  assumes "as_shape m" "i < length (as_regions m)" "j < length (as_regions m)"
    and "holds (as_regions m ! i) a" "holds (as_regions m ! j) a"
  shows "i = j"
proof (rule ccontr)
  assume "i \<noteq> j"
  moreover have "holds (as_regions m ! i) a \<Longrightarrow> holds (as_regions m ! j) a \<Longrightarrow> False"
    if "i < j" "j < length (as_regions m)" for i j
    using shape_before [OF assms(1) that] shape_region [OF assms(1), of i] shape_region [OF assms(1) that(2)] that
    by (auto simp: region_before_def holds_nat)
  ultimately show False using assms by (metis nat_neq_iff)
qed

lemma region_at_eq:
  assumes "as_shape m" "k < length (as_regions m)" "holds (as_regions m ! k) a"
  shows "region_at m a = Some (as_regions m ! k)"
proof -
  have "\<exists>r. List.find (\<lambda>r. holds r a) (as_regions m) = Some r"
    using assms(3) nth_mem [OF assms(2)] by (metis (mono_tags) find_None_iff option.exhaust)
  then obtain r where r: "region_at m a = Some r" by (auto simp: region_at_def)
  then obtain j where j: "j < length (as_regions m)" "holds r a" "r = as_regions m ! j"
    by (auto simp: region_at_def find_Some_iff)
  then show ?thesis using region_unique [OF assms(1), of k j a] assms r by simp
qed

lemma region_at_None: "region_at m a = None \<longleftrightarrow> (\<forall>r \<in> set (as_regions m). \<not> holds r a)"
  by (auto simp: region_at_def find_None_iff)

lemma find_region_Some:
  assumes "as_shape m" and "find_region m a = Some k"
  shows "k < length (as_regions m)" and "holds (as_regions m ! k) a" and "region_at m a = Some (as_regions m ! k)"
proof -
  let ?f = "\<lambda>i. reg_start (as_regions m ! i) > a" and ?n = "length (as_regions m)"
  define i where "i = sort_Search ?n ?f"
  have mono: "\<And>k l. k \<le> l \<Longrightarrow> l < ?n \<Longrightarrow> ?f k \<Longrightarrow> ?f l"
    using shape_start_mono [OF assms(1)] by (metis order_less_le_trans)
  have i: "i \<le> ?n \<and> (\<forall>k < i. \<not> ?f k) \<and> (\<forall>k. i \<le> k \<and> k < ?n \<longrightarrow> ?f k)"
    unfolding i_def by (rule sort_Search_least, rule mono)
  have k: "i \<noteq> 0" "k = i - 1" "unat (a - reg_start (as_regions m ! k)) < length (reg_data (as_regions m ! k))"
    using assms(2) by (auto simp: find_region_def Let_def i_def split: if_splits)
  then show kn: "k < ?n" using i by linarith
  show h: "holds (as_regions m ! k) a"
  proof -
    have "\<not> ?f k" using i k(1,2) by (metis diff_less less_one not_gr_zero)
    with k(3) show ?thesis by (simp add: holds_def not_less)
  qed
  show "region_at m a = Some (as_regions m ! k)" by (rule region_at_eq [OF assms(1) kn h])
qed

lemma find_region_None:
  assumes "as_shape m"
  shows "find_region m a = None \<longleftrightarrow> region_at m a = None"
proof
  show "find_region m a = None" if "region_at m a = None"
    using find_region_Some [OF assms] that by (metis not_None_eq)
next
  let ?f = "\<lambda>i. reg_start (as_regions m ! i) > a" and ?n = "length (as_regions m)"
  define i where "i = sort_Search ?n ?f"
  have mono: "\<And>k l. k \<le> l \<Longrightarrow> l < ?n \<Longrightarrow> ?f k \<Longrightarrow> ?f l"
    using shape_start_mono [OF assms(1)] by (metis order_less_le_trans)
  have i: "i \<le> ?n \<and> (\<forall>k < i. \<not> ?f k) \<and> (\<forall>k. i \<le> k \<and> k < ?n \<longrightarrow> ?f k)"
    unfolding i_def by (rule sort_Search_least, rule mono)
  assume n: "find_region m a = None"
  have "\<not> holds (as_regions m ! j) a" if j: "j < ?n" for j
  proof
    assume h: "holds (as_regions m ! j) a"
    then have "\<not> ?f j" by (auto simp: holds_def)
    with i j have "j < i" by (meson not_le)
    then have i0: "i \<noteq> 0" "j \<le> i - 1" "i - 1 < ?n" using i by auto
    have "\<not> holds (as_regions m ! (i - 1)) a"
      using n i0 by (auto simp: find_region_def Let_def i_def holds_def split: if_splits)
    with h have "j \<noteq> i - 1" by blast
    with i0 have ji: "j < i - 1" by simp
    have "unat a < unat (reg_start (as_regions m ! (i - 1)))"
      using shape_before [OF assms ji i0(3)] h shape_region [OF assms j] by (auto simp: region_before_def holds_nat)
    moreover have "\<not> ?f (i - 1)" using i i0 by simp
    ultimately show False by (simp add: word_less_nat_alt)
  qed
  then show "region_at m a = None" by (auto simp: region_at_None in_set_conv_nth)
qed


subsection \<open>The permission scan\<close>

lemma effective_simps [simp]:
  "effective [] acc a = acc"
  "effective (p # ps) acc a = effective ps (if covers p a then pr_Access p else acc) a"
  by (simp_all add: effective_def)

lemma effective_cong:
  "(\<And>p. p \<in> set ps \<Longrightarrow> covers p a = covers p b) \<Longrightarrow> effective ps acc a = effective ps acc b"
  by (induction ps arbitrary: acc) auto

text \<open>One step of the scan keeps the permission right and shortens the run to stay on one side of every boundary.\<close>

lemma protect_step_sound:
  assumes "protection_ok p" and "unat a + av \<le> 2 ^ 64" and "protect_step a p (acc, av) = (acc', av')"
  shows "acc' = (if covers p a then pr_Access p else acc)" and "av' \<le> av"
    and "i < av' \<Longrightarrow> covers p (a + of_nat i) = covers p a"
proof -
  consider (inside) "covers p a" "acc' = pr_Access p" "av' = min av (unat (pr_Size p - (a - pr_Start p)))"
    | (above) "\<not> covers p a" "acc' = acc" "pr_Start p > a" "av' = min av (unat (pr_Start p - a))"
    | (below) "\<not> covers p a" "acc' = acc" "av' = av" "pr_Start p \<le> a"
    using assms(3) by (cases "pr_Start p \<le> a") (auto simp: protect_step_def covers_def min_def not_less not_le split: if_splits)
  note c = this
  then show "acc' = (if covers p a then pr_Access p else acc)" "av' \<le> av" by (cases; simp)+
  show "covers p (a + of_nat i) = covers p a" if i: "i < av'"
  proof -
    have ai: "unat (a + of_nat i) = unat a + i"
      using i \<open>av' \<le> av\<close> assms(2) by (intro unat_add_nat) linarith
    show ?thesis using c
    proof cases
      case inside
      have "unat (pr_Size p - (a - pr_Start p)) = unat (pr_Size p) - (unat a - unat (pr_Start p))"
        using inside(1) by (simp add: covers_def unat_minus less_imp_le)
      with inside i ai show ?thesis by (auto simp: covers_nat)
    next
      case above
      then have "unat (pr_Start p - a) = unat (pr_Start p) - unat a" by (simp add: unat_minus less_imp_le)
      with above i ai show ?thesis by (auto simp: covers_nat)
    next
      case below
      with i ai show ?thesis by (auto simp: covers_nat word_le_nat_alt)
    qed
  qed
qed

lemma scan_sound:
  assumes "\<forall>p \<in> set ps. protection_ok p" and "unat a + av \<le> 2 ^ 64"
    and "fold (protect_step a) ps (acc, av) = (acc', av')"
  shows "acc' = effective ps acc a \<and> av' \<le> av \<and>
    (\<forall>i < av'. \<forall>p \<in> set ps. covers p (a + of_nat i) = covers p a)"
  using assms
proof (induction ps arbitrary: acc av)
  case (Cons p ps)
  obtain acc1 av1 where st: "protect_step a p (acc, av) = (acc1, av1)" by fastforce
  note s = protect_step_sound [OF _ Cons.prems(2) st]
  have "acc' = effective ps acc1 a \<and> av' \<le> av1 \<and>
    (\<forall>i < av'. \<forall>p \<in> set ps. covers p (a + of_nat i) = covers p a)"
    using Cons.prems s(2) st by (intro Cons.IH) auto
  with s Cons.prems(1) show ?case by (auto dest: order_less_le_trans)
qed simp

lemma accessAt_sound:
  assumes "as_shape m" and "k < length (as_regions m)" and "holds (as_regions m ! k) a"
    and "accessAt m a (as_regions m ! k) = (permissions, available)"
  shows "0 < available" and "unat a + available \<le> unat (reg_start (as_regions m ! k)) + length (reg_data (as_regions m ! k))"
    and "perm_at m a = Some permissions"
    and "i < available \<Longrightarrow> holds (as_regions m ! k) (a + of_nat i)"
    and "i < available \<Longrightarrow> perm_at m (a + of_nat i) = Some permissions"
    and "i < available \<Longrightarrow> effective (as_protections m) (reg_access (as_regions m ! k)) (a + of_nat i) = permissions"
proof -
  let ?r = "as_regions m ! k"
  note ok = shape_region [OF assms(1,2)]
  have h: "unat (reg_start ?r) \<le> unat a" "unat a < unat (reg_start ?r) + length (reg_data ?r)"
    using assms(3) ok by (simp_all add: holds_nat)
  have sub: "unat (a - reg_start ?r) = unat a - unat (reg_start ?r)"
    using h by (simp add: unat_minus word_le_nat_alt)
  have le: "unat a + (length (reg_data ?r) - unat (a - reg_start ?r)) \<le> 2 ^ 64"
    using ok h sub by (simp add: region_ok_def)
  have ps: "\<forall>p \<in> set (as_protections m). protection_ok p" using assms(1) by (simp add: as_shape_def)
  note s = scan_sound [OF ps le assms(4) [unfolded accessAt_def]]
  show "0 < available" using accessAt_pos [of a ?r m] assms(3,4) by (simp add: holds_def)
  show b: "unat a + available \<le> unat (reg_start ?r) + length (reg_data ?r)" using s sub h by linarith
  show pa: "perm_at m a = Some permissions"
    using s by (simp add: perm_at_def region_at_eq [OF assms(1-3)])
  have hi: "holds ?r (a + of_nat i)" and e: "effective (as_protections m) (reg_access ?r) (a + of_nat i) = permissions"
    if "i < available" for i
  proof -
    have "unat (a + of_nat i) = unat a + i"
      using that b ok by (intro unat_add_nat) (simp add: region_ok_def)
    then show "holds ?r (a + of_nat i)" using that b h by (simp add: holds_nat [OF ok])
    show "effective (as_protections m) (reg_access ?r) (a + of_nat i) = permissions"
      using s that effective_cong [of "as_protections m" "a + of_nat i" a] by simp
  qed
  show "i < available \<Longrightarrow> holds ?r (a + of_nat i)" by (rule hi)
  show "i < available \<Longrightarrow> perm_at m (a + of_nat i) = Some permissions"
    using hi e by (simp add: perm_at_def region_at_eq [OF assms(1,2)])
  show "i < available \<Longrightarrow> effective (as_protections m) (reg_access ?r) (a + of_nat i) = permissions" by (rule e)
qed


subsection \<open>Checks and reads as functions of the meaning\<close>

lemma validRange_nat:
  assumes "n < 2 ^ 63"
  shows "validRange a (int n) \<longleftrightarrow> n = 0 \<or> unat a + n \<le> 2 ^ 64"
proof (cases "n = 0")
  case False
  then have eq: "of_int (int n - 1) = (of_nat (n - 1) :: u64)" by (simp add: of_nat_diff)
  have u: "unat (of_nat (n - 1) :: u64) = n - 1" using assms by (simp add: unat_of_nat take_bit_nat_eq_self)
  have m: "unat ((-1 :: u64) - a) = 2 ^ 64 - 1 - unat a" by (simp add: unat_minus unsigned_minus_1_eq_mask mask_eq_exp_minus_1)
  have "validRange a (int n) \<longleftrightarrow> n - 1 \<le> 2 ^ 64 - 1 - unat a"
    using False unfolding validRange_def eq word_le_nat_alt u m by simp
  also have "\<dots> \<longleftrightarrow> unat a + n \<le> 2 ^ 64" using False unat_lt_64 [of a] by (auto simp del: unat_lt_64)
  finally show ?thesis using False by simp
qed (simp add: validRange_def)

lemma address_shift: "(a :: u64) + of_nat i + of_nat j = a + of_nat (i + j)"
  by (simp add: add.assoc)

text \<open>A run of addresses that splits at \<open>n\<close>.\<close>

lemma all_split:
  fixes n k :: nat
  assumes "n \<le> k"
  shows "(\<forall>i < k. P i) \<longleftrightarrow> (\<forall>i < n. P i) \<and> (\<forall>i < k - n. P (n + i))"
proof (intro iffI conjI allI impI)
  fix i assume "(\<forall>i < n. P i) \<and> (\<forall>i < k - n. P (n + i))" "i < k"
  moreover from this have "i < n \<or> n + (i - n) = i \<and> i - n < k - n" using assms by linarith
  ultimately show "P i" by metis
qed (use assms in auto)

lemma check_loop_eq:
  assumes "as_shape m" and "unat a + n \<le> 2 ^ 64"
  shows "check_loop m a n access = (if \<forall>i < n. allows m access (a + of_nat i) then None else Some denied)"
  using assms(2)
proof (induction n arbitrary: a rule: less_induct)
  case (less n)
  show ?case
  proof (cases "n = 0")
    case True
    then show ?thesis by (simp add: check_loop.simps)
  next
    case n0: False
    show ?thesis
    proof (cases "find_region m a")
      case None
      then have "\<not> allows m access (a + of_nat 0)"
        using find_region_None [OF assms(1)] by (simp add: allows_def perm_at_def)
      with n0 None show ?thesis by (subst check_loop.simps) (auto intro!: exI [of _ 0])
    next
      case (Some k)
      obtain permissions available where ac: "accessAt m a (as_regions m ! k) = (permissions, available)" by fastforce
      note f = find_region_Some [OF assms(1) Some]
      note s = accessAt_sound [OF assms(1) f(1,2) ac]
      define l where "l = min n available"
      have l: "0 < l" "l \<le> n" "l \<le> available" using n0 s(1) by (auto simp: l_def)
      show ?thesis
      proof (cases "permissions AND access = access")
        case False
        then have "\<not> allows m access (a + of_nat 0)" using s(3) by (simp add: allows_def)
        with n0 Some ac False show ?thesis by (subst check_loop.simps) (auto intro!: exI [of _ 0])
      next
        case True
        have "check_loop m a n access = check_loop m (if n - l \<noteq> 0 then a + of_nat l else a) (n - l) access"
          using n0 Some ac True by (subst check_loop.simps) (simp add: Let_def l_def)
        also have "\<dots> = (if \<forall>i < n - l. allows m access (a + of_nat (l + i)) then None else Some denied)"
        proof (cases "n - l = 0")
          case True
          then show ?thesis by (simp add: check_loop.simps)
        next
          case False
          have ul: "unat (a + of_nat l) = unat a + l" using False less.prems l by (intro unat_add_nat) linarith
          have "check_loop m (a + of_nat l) (n - l) access =
              (if \<forall>i < n - l. allows m access (a + of_nat l + of_nat i) then None else Some denied)"
            using l less.prems ul by (intro less.IH) auto
          with False show ?thesis by (simp only: address_shift if_True simp_thms)
        qed
        also have "(\<forall>i < n - l. allows m access (a + of_nat (l + i))) = (\<forall>i < n. allows m access (a + of_nat i))"
        proof -
          have "\<forall>i < l. allows m access (a + of_nat i)" using s(5) l True by (auto simp: allows_def)
          then show ?thesis using all_split [OF l(2), of "\<lambda>i. allows m access (a + of_nat i)"] by blast
        qed
        finally show ?thesis .
      qed
    qed
  qed
qed

definition mem_bytes :: "address_space \<Rightarrow> u64 \<Rightarrow> nat \<Rightarrow> bytes" where
  "mem_bytes m a n = map (\<lambda>i. the (byte_at m (a + of_nat i))) [0..<n]"

lemma length_mem_bytes [simp]: "length (mem_bytes m a n) = n"
  by (simp add: mem_bytes_def)

lemma mem_bytes_append: "mem_bytes m a (k + n) = mem_bytes m a k @ mem_bytes m (a + of_nat k) n"
proof -
  have "[0..<k + n] = [0..<k] @ map ((+) k) [0..<n]" by (induction n) simp_all
  then show ?thesis by (simp add: mem_bytes_def o_def add.assoc)
qed

lemma region_bytes:
  assumes "as_shape m" and "k < length (as_regions m)" and "holds (as_regions m ! k) a"
    and "unat (a - reg_start (as_regions m ! k)) + n \<le> length (reg_data (as_regions m ! k))"
  shows "mem_bytes m a n = segment (unat (a - reg_start (as_regions m ! k))) n (reg_data (as_regions m ! k))"
    and "i < n \<Longrightarrow> holds (as_regions m ! k) (a + of_nat i)"
proof -
  let ?r = "as_regions m ! k"
  note ok = shape_region [OF assms(1,2)]
  have le: "reg_start ?r \<le> a" using assms(3) by (simp add: holds_def)
  have ai: "unat (a + of_nat i) = unat a + i" if "i < n" for i
    using that assms(4) ok le by (intro unat_add_nat) (auto simp: unat_minus region_ok_def word_le_nat_alt)
  have sub: "unat (a + of_nat i - reg_start ?r) = unat (a - reg_start ?r) + i" if "i < n" for i
  proof -
    have "a + of_nat i - reg_start ?r = (a - reg_start ?r) + of_nat i" by simp
    moreover have "unat (a - reg_start ?r) + i < 2 ^ 64" using that assms(4) ok by (simp add: region_ok_def)
    ultimately show ?thesis using unat_add_nat by metis
  qed
  have h: "holds ?r (a + of_nat i)" if "i < n" for i
    using that ai [OF that] sub [OF that] le assms(4) by (simp add: holds_def word_le_nat_alt)
  then show "i < n \<Longrightarrow> holds ?r (a + of_nat i)" .
  show "mem_bytes m a n = segment (unat (a - reg_start ?r)) n (reg_data ?r)"
  proof (rule nth_equalityI)
    show "length (mem_bytes m a n) = length (segment (unat (a - reg_start ?r)) n (reg_data ?r))"
      using assms(4) by (simp add: mem_bytes_def)
    fix i assume "i < length (mem_bytes m a n)"
    then have i: "i < n" by (simp add: mem_bytes_def)
    then show "mem_bytes m a n ! i = segment (unat (a - reg_start ?r)) n (reg_data ?r) ! i"
      using assms(4) by (simp add: mem_bytes_def byte_at_def region_at_eq [OF assms(1,2) h [OF i]] sub [OF i])
  qed
qed

lemma read_loop_eq:
  assumes "as_shape m" and "unat a + n \<le> 2 ^ 64" and "\<forall>i < n. region_at m (a + of_nat i) \<noteq> None"
  shows "read_loop m a n = Inr (mem_bytes m a n)"
  using assms(2,3)
proof (induction n arbitrary: a rule: less_induct)
  case (less n)
  show ?case
  proof (cases "n = 0")
    case True
    then show ?thesis by (simp add: read_loop.simps mem_bytes_def)
  next
    case n0: False
    then have "region_at m (a + of_nat 0) \<noteq> None" using less.prems(2) by blast
    then obtain k where k: "find_region m a = Some k" using find_region_None [OF assms(1), of a] by auto
    note f = find_region_Some [OF assms(1) k]
    let ?r = "as_regions m ! k"
    define l where "l = min n (length (reg_data ?r) - unat (a - reg_start ?r))"
    have l: "0 < l" "l \<le> n" "unat (a - reg_start ?r) + l \<le> length (reg_data ?r)"
      using n0 find_region_data [OF k] by (auto simp: l_def)
    have bs: "take n (drop (unat (a - reg_start ?r)) (reg_data ?r)) = mem_bytes m a l"
      unfolding region_bytes(1) [OF assms(1) f(1,2) l(3)] by (simp add: segment_def l_def min_def)
    have step: "read_loop m a n = (case read_loop m (if n - l \<noteq> 0 then a + of_nat l else a) (n - l) of
        Inl e \<Rightarrow> Inl e | Inr rest \<Rightarrow> Inr (mem_bytes m a l @ rest))"
      using n0 k by (subst read_loop.simps) (simp only: if_False option.case Let_def bs length_mem_bytes)
    show ?thesis
    proof (cases "n - l = 0")
      case True
      with l have "l = n" by simp
      then show ?thesis using step by (simp add: read_loop.simps)
    next
      case False
      have ul: "unat (a + of_nat l) = unat a + l" using False less.prems(1) by (intro unat_add_nat) linarith
      have "\<forall>i < n - l. region_at m (a + of_nat l + of_nat i) \<noteq> None"
        unfolding address_shift using less.prems(2) by (metis add.commute less_diff_conv)
      then have "read_loop m (a + of_nat l) (n - l) = Inr (mem_bytes m (a + of_nat l) (n - l))"
        using l less.prems(1) ul by (intro less.IH) auto
      then show ?thesis using step False l mem_bytes_append [of m a l "n - l"] by simp
    qed
  qed
qed


subsection \<open>The read cache is transparent\<close>

lemma region_named_eq:
  assumes "as_shape m" and "r \<in> set (as_regions m)"
  shows "region_named m (reg_start r) = Some r"
proof -
  obtain k where k: "k < length (as_regions m)" "r = as_regions m ! k" using assms(2) by (auto simp: in_set_conv_nth)
  obtain s where s: "region_named m (reg_start r) = Some s"
    using assms(2) by (metis (mono_tags) find_None_iff option.exhaust region_named_def)
  then obtain j where j: "j < length (as_regions m)" "s = as_regions m ! j" "reg_start s = reg_start r"
    by (auto simp: region_named_def find_Some_iff)
  have "holds s (reg_start r)" "holds r (reg_start r)"
    using j k shape_region [OF assms(1)] by (auto simp: holds_def region_ok_def)
  then have "j = k" using region_unique [OF assms(1) j(1) k(1)] j k by blast
  then show ?thesis using s j k by simp
qed

lemma cachedSpan_sound:
  assumes shape: "as_shape m" and cache: "\<forall>e \<in> set (as_readCache m). span_ok m e" "length (as_readCache m) = 64"
    and hit: "cachedSpan m a n access = Some data"
  shows "data = mem_bytes m a (nat n) \<and> 0 \<le> n \<and> (\<forall>i < nat n. allows m access (a + of_nat i)) \<and>
    (nat n = 0 \<or> unat a + nat n \<le> 2 ^ 64)"
proof -
  define e where "e = as_readCache m ! cache_index a"
  have "cache_index a < 64" by (simp add: cache_index_def)
  then have ok: "span_ok m e" using cache by (simp add: e_def)
  obtain cached where sb: "span_bytes m e = Some cached" and le: "ps_start e \<le> a" and n: "0 \<le> n"
      and acc: "ps_access e AND access = access"
      and off: "unat (a - ps_start e) \<le> length cached" "nat n \<le> length cached - unat (a - ps_start e)"
      and data: "data = segment (unat (a - ps_start e)) (nat n) cached"
    using hit by (auto simp: cachedSpan_def Let_def e_def not_less split: if_splits option.splits)
  obtain start o' len where pd: "ps_data e = Some (start, o', len)"
    using sb by (auto simp: span_bytes_def split: option.splits)
  obtain r where r: "r \<in> set (as_regions m)" "reg_start r = start" "o' + len \<le> length (reg_data r)"
      "ps_start e = start + of_nat o'"
      "\<forall>i < len. effective (as_protections m) (reg_access r) (ps_start e + of_nat i) = ps_access e"
    using ok pd by (auto simp: span_ok_def)
  obtain k where k: "k < length (as_regions m)" "r = as_regions m ! k" using r(1) by (auto simp: in_set_conv_nth)
  note rok = shape_region [OF shape k(1), folded k(2)]
  have cached: "cached = segment o' len (reg_data r)"
    using sb pd region_named_eq [OF shape r(1)] r(2) by (simp add: span_bytes_def)
  then have lc: "length cached = len" using r(3) by simp
  define d where "d = unat (a - ps_start e)"
  have d: "d + nat n \<le> len" using off lc by (simp add: d_def)
  have a: "a = ps_start e + of_nat d" by (simp add: d_def)
  then have as: "a - reg_start r = of_nat (o' + d)" using r(2,4) by simp
  have small: "o' + d < 2 ^ 64" using r(3) d rok by (simp add: region_ok_def)
  then have ua: "unat (a - reg_start r) = o' + d" unfolding as by (rule unat_of_nat_small)
  show ?thesis
  proof (cases "nat n = 0")
    case True
    then show ?thesis using n data by (simp add: mem_bytes_def)
  next
    case False
    have os: "unat (reg_start r) + (o' + d) < 2 ^ 64" using r(3) d rok False unfolding region_ok_def by linarith
    have "a = reg_start r + of_nat (o' + d)" using as by (simp add: algebra_simps)
    then have uaa: "unat a = unat (reg_start r) + (o' + d)" using unat_add_nat [OF os] by simp
    then have h: "holds r a" using ua r(3) d False by (simp add: holds_def word_le_nat_alt)
    have fits: "unat (a - reg_start r) + nat n \<le> length (reg_data r)" using ua r(3) d by simp
    note rb = region_bytes [OF shape k(1), folded k(2), OF h fits]
    have "data = mem_bytes m a (nat n)"
      unfolding rb(1) data cached using d by (simp add: ua flip: d_def)
    moreover have "allows m access (a + of_nat i)" if i: "i < nat n" for i
    proof -
      have "a + of_nat i = ps_start e + of_nat (d + i)" by (subst a) (simp add: add.assoc)
      moreover have "effective (as_protections m) (reg_access r) (ps_start e + of_nat (d + i)) = ps_access e"
        using r(5) i d by (simp del: of_nat_add)
      ultimately have "effective (as_protections m) (reg_access r) (a + of_nat i) = ps_access e" by metis
      then have "perm_at m (a + of_nat i) = Some (ps_access e)"
        using region_at_eq [OF shape k(1), folded k(2), OF rb(2) [OF i]] by (simp add: perm_at_def)
      then show ?thesis using acc by (simp add: allows_def)
    qed
    moreover have "unat a + nat n \<le> 2 ^ 64" using uaa r(3) d rok unfolding region_ok_def by linarith
    ultimately show ?thesis using n by blast
  qed
qed

lemma fold_between:
  assumes "\<And>p s. p \<in> set ps \<Longrightarrow> s \<le> a \<Longrightarrow> s \<le> g p s" and "\<And>p s. p \<in> set ps \<Longrightarrow> s \<le> a \<Longrightarrow> g p s \<le> a"
    and "s \<le> (a :: 'a :: order)"
  shows "s \<le> fold g ps s \<and> fold g ps s \<le> a"
  using assms
proof (induction ps arbitrary: s)
  case (Cons p ps)
  then have "s \<le> g p s" "g p s \<le> fold g ps (g p s) \<and> fold g ps (g p s) \<le> a" by simp_all
  then show ?case by (auto intro: order_trans)
qed simp

lemma span_start_bounds:
  assumes "\<forall>p \<in> set (as_protections m). protection_ok p" and "reg_start r \<le> a"
  shows "reg_start r \<le> span_start m a r \<and> span_start m a r \<le> a"
proof -
  let ?g = "\<lambda>p start. if pr_Start p \<le> a
         then let start = max start (pr_Start p)
              in if a - pr_Start p \<ge> pr_Size p then max start (pr_Start p + pr_Size p) else start
         else start"
  have step: "s \<le> ?g p s \<and> ?g p s \<le> a" if "p \<in> set (as_protections m)" "s \<le> a" for p s
  proof -
    have "pr_Start p + pr_Size p \<le> a" if "pr_Start p \<le> a" "a - pr_Start p \<ge> pr_Size p"
    proof -
      have u: "unat (pr_Start p) + unat (pr_Size p) \<le> unat a"
        using that by (simp add: word_le_nat_alt unat_minus)
      then have "unat (pr_Start p + of_nat (unat (pr_Size p))) = unat (pr_Start p) + unat (pr_Size p)"
        by (intro unat_add_nat) (simp add: order_le_less_trans [OF _ unat_lt_64 [of a]])
      with u show ?thesis by (simp add: word_le_nat_alt)
    qed
    with that(2) show ?thesis by (auto simp: Let_def le_max_iff_disj)
  qed
  have "max (reg_start r) (a AND NOT 4095) \<le> a" using assms(2) word_and_le2 [of a "NOT 4095"] by (rule max.boundedI)
  from fold_between [of "as_protections m" a ?g, OF step [THEN conjunct1] step [THEN conjunct2] this] assms(1)
  have "max (reg_start r) (a AND NOT 4095) \<le> span_start m a r \<and> span_start m a r \<le> a"
    unfolding span_start_def by blast
  then show ?thesis by simp
qed

end
