(* ===== verification/Guest_Memory_Ops.thy ===== *)
theory Guest_Memory_Ops
  imports Guest_Memory_Spec
begin

text \<open>
  The operations of the address space against its meaning: reads and checks are functions of the byte and
  permission views whatever the read cache holds, a write changes exactly the bytes of its range or nothing,
  and mapping, unmapping and protecting keep the space well formed.
\<close>

subsection \<open>Reading\<close>

definition mem_check :: "address_space \<Rightarrow> u64 \<Rightarrow> nat \<Rightarrow> access \<Rightarrow> go_error option" where
  "mem_check m a n access =
     (if n \<noteq> 0 \<and> unat a + n > 2 ^ 64 then Some (Errorf ''memory: range overflows at %#x'')
      else if \<forall>i < n. allows m access (a + of_nat i) then None else Some denied)"

definition mem_read :: "address_space \<Rightarrow> u64 \<Rightarrow> nat \<Rightarrow> access \<Rightarrow> go_error + bytes" where
  "mem_read m a n access =
     (if access \<noteq> Read_access \<and> access \<noteq> Execute_access then Inl (Errorf ''memory: invalid read access %d'')
      else case mem_check m a n access of Some e \<Rightarrow> Inl e | None \<Rightarrow> Inr (mem_bytes m a n))"

lemma as_invD:
  assumes "as_inv m"
  shows "as_shape m" and "\<forall>e \<in> set (as_readCache m). span_ok m e" and "length (as_readCache m) = 64"
    and "length (as_trackedFilter m) = 64"
  using assms by (simp_all add: as_inv_def)

lemma validRange_check:
  "n < 2 ^ 63 \<Longrightarrow> \<not> validRange a (int n) \<longleftrightarrow> n \<noteq> 0 \<and> unat a + n > 2 ^ 64"
  by (auto simp: validRange_nat)

lemma check_eq:
  assumes "as_inv m" and "n < 2 ^ 63"
  shows "check m a (int n) access = mem_check m a n access"
proof (cases "validRange a (int n)")
  case False
  with assms(2) show ?thesis by (simp add: check_def mem_check_def validRange_check)
next
  case True
  then have v: "n = 0 \<or> unat a + n \<le> 2 ^ 64" using validRange_nat [OF assms(2)] by simp
  show ?thesis
  proof (cases "cachedSpan m a (int n) access")
    case (Some data)
    from cachedSpan_sound [OF as_invD(1-3) [OF assms(1)] this] Some True v show ?thesis
      by (auto simp: check_def mem_check_def)
  next
    case None
    have "check_loop m a n access = (if \<forall>i < n. allows m access (a + of_nat i) then None else Some denied)"
    proof (cases "n = 0")
      case False
      then show ?thesis using v by (intro check_loop_eq as_invD(1) [OF assms(1)]) simp
    qed (simp add: check_loop.simps)
    with None True v show ?thesis by (auto simp: check_def mem_check_def)
  qed
qed

text \<open>Filling the read cache changes nothing else and keeps every entry honest.\<close>

definition cache_only :: "address_space \<Rightarrow> address_space \<Rightarrow> bool" where
  "cache_only m m' \<longleftrightarrow> m' = m\<lparr>as_readCache := as_readCache m'\<rparr>"

lemma cache_only_refl [simp]: "cache_only m m"
  by (simp add: cache_only_def)

lemma cache_only_trans: "cache_only m m' \<Longrightarrow> cache_only m' m'' \<Longrightarrow> cache_only m m''"
  unfolding cache_only_def by (metis (mono_tags, lifting) address_space.surjective address_space.update_convs(6))

lemma cache_only_fields:
  assumes "cache_only m m'"
  shows "as_ref m' = as_ref m" "as_regions m' = as_regions m" "as_protections m' = as_protections m"
    "as_limit m' = as_limit m" "as_used m' = as_used m" "as_trackedPages m' = as_trackedPages m"
    "as_trackedFilter m' = as_trackedFilter m" "as_trackedVersion m' = as_trackedVersion m"
proof -
  have e: "m' = m\<lparr>as_readCache := as_readCache m'\<rparr>" using assms by (simp add: cache_only_def)
  show "as_ref m' = as_ref m" "as_regions m' = as_regions m" "as_protections m' = as_protections m"
    "as_limit m' = as_limit m" "as_used m' = as_used m" "as_trackedPages m' = as_trackedPages m"
    "as_trackedFilter m' = as_trackedFilter m" "as_trackedVersion m' = as_trackedVersion m"
    by (subst e, simp)+
qed

lemma meaning_cong:
  assumes "as_regions m' = as_regions m"
  shows "region_at m' = region_at m" and "byte_at m' = byte_at m" and "mem_bytes m' = mem_bytes m"
    and "as_protections m' = as_protections m \<Longrightarrow> perm_at m' = perm_at m"
    and "as_protections m' = as_protections m \<Longrightarrow> allows m' = allows m"
    and "as_protections m' = as_protections m \<Longrightarrow> span_ok m' = span_ok m"
    and "as_protections m' = as_protections m \<Longrightarrow> as_shape m' = as_shape m"
  using assms
  by (auto simp: fun_eq_iff region_at_def byte_at_def mem_bytes_def perm_at_def allows_def span_ok_def as_shape_def
      split: option.splits)

lemma mem_read_cong:
  "as_regions m' = as_regions m \<Longrightarrow> as_protections m' = as_protections m \<Longrightarrow> mem_read m' = mem_read m"
  "as_regions m' = as_regions m \<Longrightarrow> as_protections m' = as_protections m \<Longrightarrow> mem_check m' = mem_check m"
  using meaning_cong [of m' m] by (auto simp: fun_eq_iff mem_read_def mem_check_def)

lemma cacheSpan_inv:
  assumes inv: "as_inv m" and k: "find_region m a = Some k"
  shows "as_inv (cacheSpan m a (as_regions m ! k)) \<and> cache_only m (cacheSpan m a (as_regions m ! k))"
proof -
  let ?r = "as_regions m ! k"
  note sh = as_invD(1) [OF inv]
  note f = find_region_Some [OF sh k]
  define st where "st = span_start m a ?r"
  obtain access av where ac: "accessAt m st ?r = (access, av)" by fastforce
  define e where "e = \<lparr>ps_start = st,
      ps_data = Some (reg_start ?r, unat (st - reg_start ?r), min av (4096 - unat (st AND 4095))), ps_access = access\<rparr>"
  have cs: "cacheSpan m a ?r = m\<lparr>as_readCache := (as_readCache m)[cache_index a := e]\<rparr>"
    by (simp add: cacheSpan_def Let_def e_def ac flip: st_def)
  have b: "reg_start ?r \<le> st" "st \<le> a"
    using span_start_bounds [of m ?r a] sh f(2) by (auto simp: st_def as_shape_def holds_def)
  have ok: "region_ok ?r" by (rule shape_region [OF sh f(1)])
  have "holds ?r st" using b f(2) ok by (auto simp: holds_nat word_le_nat_alt)
  note s = accessAt_sound [OF sh f(1) this ac]
  have fits: "unat (st - reg_start ?r) + av \<le> length (reg_data ?r)"
    using s(2) b by (simp add: unat_minus word_le_nat_alt)
  have "span_ok m e"
    using fits s(6) nth_mem [OF f(1)] unfolding span_ok_def e_def
    by (auto intro!: bexI [of _ ?r] simp del: nth_mem)
  then have "\<forall>e' \<in> set ((as_readCache m)[cache_index a := e]). span_ok m e'"
    using as_invD(2) [OF inv] set_update_subset_insert [of "as_readCache m" "cache_index a" e] by blast
  moreover have "span_ok (cacheSpan m a ?r) = span_ok m" "as_shape (cacheSpan m a ?r) = as_shape m"
    by (intro meaning_cong; simp add: cs)+
  ultimately show ?thesis using inv by (auto simp: as_inv_def cs cache_only_def)
qed


lemma cachedSpan_mem_read:
  assumes "as_inv m" and "cachedSpan m a (int n) access = Some data" and "access = Read_access \<or> access = Execute_access"
  shows "mem_read m a n access = Inr data"
  using cachedSpan_sound [OF as_invD(1-3) [OF assms(1)] assms(2)] assms(3)
  by (auto simp: mem_read_def mem_check_def)

lemma ReadMemory_eq:
  assumes inv: "as_inv m" and "n < 2 ^ 63"
  shows "fst (ReadMemory m a n access) = mem_read m a n access \<and>
    as_inv (snd (ReadMemory m a n access)) \<and> cache_only m (snd (ReadMemory m a n access))"
proof (cases "access = Read_access \<or> access = Execute_access")
  case False
  with inv show ?thesis by (simp add: ReadMemory_def mem_read_def)
next
  case acc: True
  show ?thesis
  proof (cases "cachedSpan m a (int n) access")
    case (Some data)
    with inv acc cachedSpan_mem_read [OF inv Some acc] show ?thesis by (auto simp: ReadMemory_def)
  next
    case None
    define refill where "refill = (if validRange a (int n)
        then map_option (\<lambda>k. cacheSpan m a (as_regions m ! k)) (find_region m a) else None)"
    define m' where "m' = (case refill of None \<Rightarrow> m | Some filled \<Rightarrow> filled)"
    have m': "as_inv m' \<and> cache_only m m'"
      using cacheSpan_inv [OF inv] inv by (auto simp: m'_def refill_def split: option.splits)
    note same = cache_only_fields [OF m' [THEN conjunct2]]
    have mr: "mem_read m' = mem_read m" using same by (intro mem_read_cong)
    have hit: "mem_read m' a n access = Inr data"
      if "Option.bind refill (\<lambda>filled. cachedSpan filled a (int n) access) = Some data" for data
      using that m' cachedSpan_mem_read [OF _ _ acc, of m' a n data] by (auto simp: m'_def bind_eq_Some_conv)
    have rd: "ReadMemory m a n access =
        (case Option.bind refill (\<lambda>filled. cachedSpan filled a (int n) access) of
           Some source \<Rightarrow> (Inr source, m')
         | None \<Rightarrow> (case check m' a (int n) access of Some e \<Rightarrow> (Inl e, m') | None \<Rightarrow> (read_loop m' a n, m')))"
    proof -
      have "\<not> (access \<noteq> Read_access \<and> access \<noteq> Execute_access)" using acc by blast
      then show ?thesis unfolding ReadMemory_def m'_def refill_def Let_def by (simp only: None if_False option.case)
    qed
    have chk: "check m' a (int n) access = mem_check m' a n access" using m' assms(2) by (intro check_eq) simp_all
    have rl: "read_loop m' a n = Inr (mem_bytes m' a n)" if "mem_check m' a n access = None"
    proof (cases "n = 0")
      case False
      show ?thesis
      proof (rule read_loop_eq)
        show "as_shape m'" using m' as_invD(1) by blast
        show "unat a + n \<le> 2 ^ 64" using that False by (auto simp: mem_check_def split: if_splits)
        show "\<forall>i < n. region_at m' (a + of_nat i) \<noteq> None"
          using that by (auto simp: mem_check_def allows_def perm_at_def split: if_splits option.splits)
      qed
    qed (simp add: read_loop.simps mem_bytes_def)
    have "mem_read m' a n access = (case mem_check m' a n access of Some e \<Rightarrow> Inl e | None \<Rightarrow> Inr (mem_bytes m' a n))"
      using acc by (auto simp: mem_read_def)
    with rd chk rl hit m' mr show ?thesis by (auto split: option.splits)
  qed
qed

lemma ReadMemory_cases:
  assumes "as_inv m" and "n < 2 ^ 63"
  obtains m' where "ReadMemory m a n access = (mem_read m a n access, m')" and "as_inv m'" and "cache_only m m'"
  using ReadMemory_eq [OF assms, of a access] by (metis prod.collapse)

subsection \<open>Writing\<close>

text \<open>Two region lists that differ in bytes only.\<close>

definition same_layout :: "region list \<Rightarrow> region list \<Rightarrow> bool" where
  "same_layout rs rs' \<longleftrightarrow> list_all2 (\<lambda>r s. reg_start s = reg_start r \<and> reg_access s = reg_access r \<and>
     length (reg_data s) = length (reg_data r)) rs rs'"

lemma same_layout_nth:
  assumes "same_layout rs rs'"
  shows "length rs' = length rs" and "k < length rs \<Longrightarrow> reg_start (rs' ! k) = reg_start (rs ! k) \<and>
    reg_access (rs' ! k) = reg_access (rs ! k) \<and> length (reg_data (rs' ! k)) = length (reg_data (rs ! k))"
  using assms by (auto simp: same_layout_def list_all2_conv_all_nth)

lemma same_layout_refl [simp]: "same_layout rs rs"
  by (simp add: same_layout_def list_all2_refl)

lemma same_layout_trans: "same_layout rs rs' \<Longrightarrow> same_layout rs' rs'' \<Longrightarrow> same_layout rs rs''"
  by (auto simp: same_layout_def list_all2_conv_all_nth)

lemma layout_region_at:
  assumes "same_layout (as_regions m) (as_regions m')"
  shows "region_at m' a = None \<longleftrightarrow> region_at m a = None"
    and "map_option reg_access (region_at m' a) = map_option reg_access (region_at m a)"
proof -
  let ?rs = "as_regions m" and ?rs' = "as_regions m'"
  have "map_option (\<lambda>r. (reg_start r, reg_access r)) (List.find (\<lambda>r. holds r a) rs') =
      map_option (\<lambda>r. (reg_start r, reg_access r)) (List.find (\<lambda>r. holds r a) rs)" if "same_layout rs rs'" for rs rs'
    using that unfolding same_layout_def by (induction rs rs' rule: list_all2_induct) (auto simp: holds_def)
  from this [OF assms] show "region_at m' a = None \<longleftrightarrow> region_at m a = None"
    and "map_option reg_access (region_at m' a) = map_option reg_access (region_at m a)"
    unfolding region_at_def
    by (cases "List.find (\<lambda>r. holds r a) ?rs"; cases "List.find (\<lambda>r. holds r a) ?rs'"; simp)+
qed

lemma layout_perm_at:
  assumes "same_layout (as_regions m) (as_regions m')" and "as_protections m' = as_protections m"
  shows "perm_at m' = perm_at m" and "allows m' = allows m"
proof -
  have "perm_at m' a = perm_at m a" for a
    using layout_region_at [OF assms(1), of a] assms(2)
    by (cases "region_at m a"; cases "region_at m' a") (auto simp: perm_at_def)
  then show p: "perm_at m' = perm_at m" by (rule ext)
  show "allows m' = allows m" by (intro ext) (simp add: allows_def p)
qed

lemma layout_shape:
  assumes "same_layout (as_regions m) (as_regions m')" and "as_protections m' = as_protections m" and "as_shape m"
  shows "as_shape m'"
proof -
  note l = same_layout_nth [OF assms(1)]
  have "region_ok (as_regions m' ! k)" if "k < length (as_regions m)" for k
    using shape_region [OF assms(3) that] l(2) [OF that] unfolding region_ok_def by (metis length_0_conv)
  moreover have "region_before (as_regions m' ! i) (as_regions m' ! j)" if "i < j" "j < length (as_regions m)" for i j
    using shape_before [OF assms(3) that] l(2) [of i] l(2) [of j] that by (simp add: region_before_def)
  ultimately show ?thesis using assms(2,3) l(1)
    by (auto simp: as_shape_def sorted_wrt_iff_nth_less in_set_conv_nth)
qed


text \<open>The loop of \<open>WriteMemory\<close> on mapped addresses: the bytes of the range become the source, no others change.\<close>

definition written :: "address_space \<Rightarrow> u64 \<Rightarrow> bytes \<Rightarrow> u64 \<Rightarrow> byte option" where
  "written m a source b =
     (if unat a \<le> unat b \<and> unat b < unat a + length source then Some (source ! (unat b - unat a)) else byte_at m b)"

lemma write_region_bytes:
  assumes sh: "as_shape m" and k: "k < length (as_regions m)" and h: "holds (as_regions m ! k) a"
    and fits: "unat (a - reg_start (as_regions m ! k)) + length bs \<le> length (reg_data (as_regions m ! k))"
    and m': "m' = m\<lparr>as_regions := (as_regions m)[k := (as_regions m ! k)
        \<lparr>reg_data := overwrite (unat (a - reg_start (as_regions m ! k))) bs (reg_data (as_regions m ! k))\<rparr>]\<rparr>"
  shows "same_layout (as_regions m) (as_regions m')" and "byte_at m' b = written m a bs b"
proof -
  let ?r = "as_regions m ! k"
  define d where "d = unat (a - reg_start ?r)"
  define r' where "r' = ?r\<lparr>reg_data := overwrite d bs (reg_data ?r)\<rparr>"
  have m'': "as_regions m' = (as_regions m)[k := r']" by (simp add: m' r'_def d_def)
  have len: "length (overwrite d bs (reg_data ?r)) = length (reg_data ?r)" using fits by (simp add: d_def)
  show lay: "same_layout (as_regions m) (as_regions m')"
    using k len by (auto simp: m'' same_layout_def list_all2_conv_all_nth nth_list_update r'_def)
  have sh': "as_shape m'" by (rule layout_shape [OF lay _ sh]) (simp add: m')
  have le: "reg_start ?r \<le> a" "unat (reg_start ?r) \<le> unat a" using h by (auto simp: holds_def word_le_nat_alt)
  have da: "d = unat a - unat (reg_start ?r)" using le by (simp add: d_def unat_minus)
  note ok = shape_region [OF sh k]
  show "byte_at m' b = written m a bs b"
  proof (cases "holds ?r b")
    case True
    then have hb: "holds (as_regions m' ! k) b" using k len by (simp add: m'' r'_def holds_def)
    have rb: "region_at m' b = Some r'" using region_at_eq [OF sh' _ hb] k by (simp add: m'')
    have b: "unat (b - reg_start ?r) = unat b - unat (reg_start ?r)" "unat (reg_start ?r) \<le> unat b"
        "unat b < unat (reg_start ?r) + length (reg_data ?r)"
      using True ok by (auto simp: unat_minus holds_nat word_le_nat_alt)
    have "byte_at m b = Some (reg_data ?r ! (unat b - unat (reg_start ?r)))"
      by (simp add: byte_at_def region_at_eq [OF sh k True] b(1))
    moreover have "byte_at m' b = Some (overwrite d bs (reg_data ?r) ! (unat b - unat (reg_start ?r)))"
      by (simp add: byte_at_def rb r'_def b(1))
    ultimately show ?thesis using b le da fits by (auto simp: written_def nth_overwrite d_def [symmetric])
  next
    case False
    have out: "\<not> (unat a \<le> unat b \<and> unat b < unat a + length bs)"
      using False fits le da ok by (auto simp: holds_nat d_def [symmetric])
    have "region_at m' b = region_at m b"
    proof (cases "region_at m b")
      case None
      then show ?thesis using layout_region_at(1) [OF lay] by simp
    next
      case (Some s)
      then obtain j where j: "j < length (as_regions m)" "s = as_regions m ! j" "holds s b"
        by (auto simp: region_at_def find_Some_iff)
      then have "j \<noteq> k" using False by blast
      then have "as_regions m' ! j = s" using j by (simp add: m'')
      then show ?thesis using region_at_eq [OF sh' _] j Some by (simp add: m'')
    qed
    then show ?thesis unfolding written_def if_not_P [OF out] by (simp add: byte_at_def)
  qed
qed


lemma regions_only_trans:
  fixes m :: address_space
  assumes "m1 = m\<lparr>as_regions := rs\<rparr>" and "m' = m1\<lparr>as_regions := rs'\<rparr>"
  shows "m' = m\<lparr>as_regions := as_regions m'\<rparr>"
  unfolding assms by simp

lemma write_loop_eq:
  assumes "as_shape m" and "unat a + length source \<le> 2 ^ 64"
    and "\<forall>i < length source. region_at m (a + of_nat i) \<noteq> None"
  shows "\<exists>m'. write_loop m a source = (None, m') \<and> m' = m\<lparr>as_regions := as_regions m'\<rparr> \<and>
    same_layout (as_regions m) (as_regions m') \<and> (\<forall>b. byte_at m' b = written m a source b)"
  using assms
proof (induction "length source" arbitrary: m a source rule: less_induct)
  case less
  show ?case
  proof (cases "source = []")
    case True
    then show ?thesis by (subst write_loop.simps) (auto simp: written_def)
  next
    case ne: False
    then have "region_at m (a + of_nat 0) \<noteq> None" using less.prems(3) by blast
    then obtain k where k: "find_region m a = Some k" using find_region_None [OF less.prems(1), of a] by auto
    note f = find_region_Some [OF less.prems(1) k]
    let ?r = "as_regions m ! k"
    define d where "d = unat (a - reg_start ?r)"
    define l where "l = min (length source) (length (reg_data ?r) - d)"
    have l: "0 < l" "l \<le> length source" "d + l \<le> length (reg_data ?r)"
      using ne find_region_data [OF k] by (auto simp: l_def d_def)
    define m1 where "m1 = m\<lparr>as_regions := (as_regions m)[k := ?r\<lparr>reg_data := overwrite d (take l source) (reg_data ?r)\<rparr>]\<rparr>"
    have lt: "length (take l source) = l" using l by simp
    have w1: "same_layout (as_regions m) (as_regions m1)" "byte_at m1 b = written m a (take l source) b" for b
      using write_region_bytes [OF less.prems(1) f(1,2), of "take l source" m1] l lt by (simp_all add: m1_def d_def)
    have sh1: "as_shape m1" by (rule layout_shape [OF w1(1) _ less.prems(1)]) (simp add: m1_def)
    have step: "write_loop m a source = write_loop m1 (if length source - l \<noteq> 0 then a + of_nat l else a) (drop l source)"
      using ne k by (subst write_loop.simps) (simp add: Let_def m1_def l_def d_def)
    show ?thesis
    proof (cases "length source - l = 0")
      case True
      then have "take l source = source" "write_loop m a source = (None, m1)" using step l
        by (simp_all add: write_loop.simps [of m1 a "[]"])
      then show ?thesis using w1 by (auto simp: m1_def)
    next
      case False
      have ul: "unat (a + of_nat l) = unat a + l" using False less.prems(2) by (intro unat_add_nat) linarith
      have sm: "length (drop l source) < length source" "unat (a + of_nat l) + length (drop l source) \<le> 2 ^ 64"
        using l less.prems(2) ul False by (simp_all add: ul)
      have mp: "\<forall>i < length (drop l source). region_at m1 (a + of_nat l + of_nat i) \<noteq> None"
        unfolding address_shift layout_region_at(1) [OF w1(1)] using less.prems(3)
        by (metis add.commute length_drop less_diff_conv)
      obtain m' where m': "write_loop m1 (a + of_nat l) (drop l source) = (None, m')"
          "m' = m1\<lparr>as_regions := as_regions m'\<rparr>" "same_layout (as_regions m1) (as_regions m')"
          "\<And>b. byte_at m' b = written m1 (a + of_nat l) (drop l source) b"
        using less.hyps [OF sm(1) sh1 sm(2) mp] by blast
      have "byte_at m' b = written m a source b" for b
      proof -
        consider "unat b < unat a" | "unat a \<le> unat b" "unat b < unat a + l" | "unat a + l \<le> unat b" by linarith
        then show ?thesis unfolding m'(4) written_def ul w1(2) using l by cases auto
      qed
      moreover have "m' = m\<lparr>as_regions := as_regions m'\<rparr>"
        by (rule regions_only_trans [OF m1_def m'(2)])
      ultimately show ?thesis using step m' False same_layout_trans [OF w1(1) m'(3)] by auto
    qed
  qed
qed


subsection \<open>Write tracking\<close>

abbreviation page_of :: "u64 \<Rightarrow> u64" where
  "page_of a \<equiv> drop_bit 12 a"

lemma unat_page: "unat (page_of a) = unat a div 4096"
  by (simp add: unsigned_drop_bit_eq drop_bit_eq_div [where 'a = nat] take_bit_nat_eq_self)

text \<open>The pages of a range are exactly the page numbers between those of its ends.\<close>

lemma range_pages:
  assumes "0 < n"
  shows "(\<exists>i < n. (a + i) div 4096 = k) \<longleftrightarrow> a div 4096 \<le> k \<and> k \<le> (a + n - 1) div (4096 :: nat)"
proof
  assume "\<exists>i < n. (a + i) div 4096 = k"
  then show "a div 4096 \<le> k \<and> k \<le> (a + n - 1) div 4096" by (auto intro!: div_le_mono)
next
  assume k: "a div 4096 \<le> k \<and> k \<le> (a + n - 1) div 4096"
  show "\<exists>i < n. (a + i) div 4096 = k"
  proof (cases "k = a div 4096")
    case True
    then show ?thesis using assms by (intro exI [of _ 0]) simp
  next
    case False
    with k have "a < k * 4096" "k * 4096 \<le> a + n - 1" by linarith+
    then show ?thesis by (intro exI [of _ "k * 4096 - a"]) simp
  qed
qed

definition touches :: "u64 \<Rightarrow> nat \<Rightarrow> u64 \<Rightarrow> bool" where
  "touches a n page \<longleftrightarrow> (\<exists>i < n. page_of (a + of_nat i) = page)"

lemma touches_nat:
  assumes "0 < n" and "unat a + n \<le> 2 ^ 64"
  shows "touches a n page \<longleftrightarrow> unat a div 4096 \<le> unat page \<and> unat page \<le> (unat a + n - 1) div 4096"
proof -
  have "page_of (a + of_nat i) = page \<longleftrightarrow> (unat a + i) div 4096 = unat page" if "i < n" for i
    using unat_add_nat [of a i] that assms(2) by (simp add: word_unat_eq_iff unat_page)
  then show ?thesis unfolding touches_def using range_pages [OF assms(1), of "unat a" "unat page"] by auto
qed

lemma trackWrite_eq:
  assumes "as_inv m" and "n = 0 \<or> unat a + n \<le> 2 ^ 64"
  shows "trackWrite m a n =
    (if \<exists>p \<in> set (as_trackedPages m). touches a n p then m\<lparr>as_trackedVersion := as_trackedVersion m + 1\<rparr> else m)"
proof (cases "n = 0 \<or> as_trackedPages m = []")
  case True
  then show ?thesis by (auto simp: trackWrite_def touches_def)
next
  case False
  then have n: "0 < n" "unat a + n \<le> 2 ^ 64" using assms(2) by auto
  have lst: "unat (page_of (a + of_nat n - 1)) = (unat a + n - 1) div 4096"
  proof -
    have e: "a + of_nat n - 1 = a + of_nat (n - 1)" using n(1) by (simp add: of_nat_diff)
    have "unat a + (n - 1) < 2 ^ 64" using n by linarith
    from unat_add_nat [OF this] n(1) show ?thesis unfolding e unat_page by simp
  qed
  have flt: "\<forall>p \<in> set (as_trackedPages m). in_filter (as_trackedFilter m) p" using assms(1) by (simp add: as_inv_def)
  have "list_ex (\<lambda>k. in_filter (as_trackedFilter m) (of_nat k) \<and> of_nat k \<in> set (as_trackedPages m))
      [unat (page_of a) ..< Suc (unat (page_of (a + of_nat n - 1)))] \<longleftrightarrow>
    (\<exists>p \<in> set (as_trackedPages m). touches a n p)" (is "?l \<longleftrightarrow> ?r")
  proof
    assume ?l
    then obtain k where k: "unat a div 4096 \<le> k" "k \<le> (unat a + n - 1) div 4096" "of_nat k \<in> set (as_trackedPages m)"
      unfolding list_ex_iff lst unfolding unat_page set_upt by (auto simp: less_Suc_eq_le simp del: upt_Suc)
    have "k < 2 ^ 64" using k(2) n div_le_dividend [of "unat a + n - 1" 4096] by linarith
    then have "unat (of_nat k :: u64) = k" by (rule unat_of_nat_small)
    then have "touches a n (of_nat k)" unfolding touches_nat [OF n] using k(1,2) by simp
    with k(3) show ?r by blast
  next
    assume ?r
    then obtain p where p: "p \<in> set (as_trackedPages m)" "touches a n p" by blast
    then have "unat p \<in> set [unat (page_of a) ..< Suc (unat (page_of (a + of_nat n - 1)))]"
      unfolding touches_nat [OF n] lst unfolding unat_page set_upt by simp
    with p flt show ?l unfolding list_ex_iff by (intro bexI [of _ "unat p"]) auto
  qed
  with False show ?thesis by (simp add: trackWrite_def Let_def)
qed


lemma layout_span_ok:
  assumes "same_layout (as_regions m) (as_regions m')" and "as_protections m' = as_protections m" and "span_ok m e"
  shows "span_ok m' e"
proof (cases "ps_data e")
  case (Some d)
  obtain start off n where d: "d = (start, off, n)" by (metis prod_cases3)
  obtain k where k: "k < length (as_regions m)" "reg_start (as_regions m ! k) = start"
      "off + n \<le> length (reg_data (as_regions m ! k))" "ps_start e = start + of_nat off"
      "\<forall>i < n. effective (as_protections m) (reg_access (as_regions m ! k)) (ps_start e + of_nat i) = ps_access e"
    using assms(3) Some d by (auto simp: span_ok_def in_set_conv_nth)
  note l = same_layout_nth(2) [OF assms(1) k(1)]
  have "as_regions m' ! k \<in> set (as_regions m')" using k(1) same_layout_nth(1) [OF assms(1)] by simp
  then show ?thesis unfolding span_ok_def Some d using k l assms(2) by auto
qed (simp add: span_ok_def)

lemma layout_sum:
  "same_layout rs rs' \<Longrightarrow> (\<Sum>r\<leftarrow>rs'. length (reg_data r)) = (\<Sum>r\<leftarrow>rs. length (reg_data r))"
  unfolding same_layout_def by (induction rs rs' rule: list_all2_induct) auto

text \<open>A write is all or nothing, and it changes the bytes of its range and nothing else.\<close>

lemma WriteMemory_eq:
  assumes inv: "as_inv m" and len: "length source < 2 ^ 63"
  shows "case mem_check m a (length source) Write_access of
      Some e \<Rightarrow> WriteMemory m a source = (Some e, m)
    | None \<Rightarrow> \<exists>m'. WriteMemory m a source = (None, m') \<and> as_inv m' \<and> as_protections m' = as_protections m \<and>
        same_layout (as_regions m) (as_regions m') \<and> (\<forall>b. byte_at m' b = written m a source b) \<and>
        as_ref m' = as_ref m \<and> as_trackedPages m' = as_trackedPages m \<and>
        as_trackedVersion m' = as_trackedVersion m +
          (if \<exists>p \<in> set (as_trackedPages m). touches a (length source) p then 1 else 0)"
proof -
  have chk: "check m a (int (length source)) Write_access = mem_check m a (length source) Write_access"
    by (rule check_eq [OF inv len])
  show ?thesis
  proof (cases "mem_check m a (length source) Write_access")
    case (Some e)
    then show ?thesis using chk by (simp add: WriteMemory_def)
  next
    case None
    define mt where "mt = trackWrite m a (length source)"
    have v: "length source = 0 \<or> unat a + length source \<le> 2 ^ 64"
      using None by (auto simp: mem_check_def split: if_splits)
    have al: "\<forall>i < length source. allows m Write_access (a + of_nat i)"
      using None by (auto simp: mem_check_def split: if_splits)
    note tr = trackWrite_eq [OF inv v]
    have mt: "as_regions mt = as_regions m" "as_protections mt = as_protections m" by (simp_all add: mt_def tr)
    note same = meaning_cong [OF mt(1)]
    have mp: "\<forall>i < length source. region_at mt (a + of_nat i) \<noteq> None"
      unfolding same(1) using al by (auto simp: allows_def perm_at_def split: option.splits)
    have sh: "as_shape mt" unfolding same(7) [OF mt(2)] by (rule as_invD(1) [OF inv])
    have "\<exists>m'. write_loop mt a source = (None, m') \<and> m' = mt\<lparr>as_regions := as_regions m'\<rparr> \<and>
        same_layout (as_regions mt) (as_regions m') \<and> (\<forall>b. byte_at m' b = written mt a source b)"
    proof (cases "source = []")
      case True
      then show ?thesis by (subst write_loop.simps) (auto simp: written_def)
    next
      case False
      then show ?thesis using v sh mp by (intro write_loop_eq) simp_all
    qed
    then obtain m' where m': "write_loop mt a source = (None, m')" and e: "m' = mt\<lparr>as_regions := as_regions m'\<rparr>"
        and lay: "same_layout (as_regions m) (as_regions m')" and b: "\<And>b. byte_at m' b = written m a source b"
      unfolding mt(1) written_def same(2) by blast
    have f: "as_protections m' = as_protections m" "as_used m' = as_used m" "as_limit m' = as_limit m"
        "as_readCache m' = as_readCache m" "as_trackedFilter m' = as_trackedFilter m"
        "as_trackedPages m' = as_trackedPages m" "as_ref m' = as_ref m" "as_trackedVersion m' = as_trackedVersion mt"
      by (subst e, simp add: mt_def tr)+
    have "as_inv m'"
      using inv layout_shape [OF lay f(1)] layout_span_ok [OF lay f(1)] layout_sum [OF lay]
      by (simp add: as_inv_def f)
    moreover have "as_trackedVersion m' = as_trackedVersion m +
        (if \<exists>p \<in> set (as_trackedPages m). touches a (length source) p then 1 else 0)"
      unfolding f(8) mt_def tr by simp
    moreover have "WriteMemory m a source = (None, m')"
      using None chk m' by (simp add: WriteMemory_def flip: mt_def)
    ultimately show ?thesis using None lay b f by simp
  qed
qed

end
