(* ===== verification/Guest_Memory_Maps.thy ===== *)
theory Guest_Memory_Maps
  imports Guest_Memory_Ops
begin

text \<open>
  Mapping, unmapping and protecting, the address spaces a program can reach, and the properties of the
  guest memory.
\<close>

subsection \<open>Mapping\<close>

lemma span_ok_empty: "e \<in> set empty_readCache \<Longrightarrow> span_ok m e"
  by (auto simp: empty_readCache_def span_ok_def)

lemma length_empty_readCache [simp]: "length empty_readCache = 64"
  by (simp add: empty_readCache_def)

lemma NewAddressSpace_inv: "as_inv (NewAddressSpace ref limit)"
  by (auto simp: as_inv_def as_shape_def NewAddressSpace_def span_ok_empty)

lemma region_ok_pos: "region_ok r \<Longrightarrow> 0 < length (reg_data r)"
  by (simp add: region_ok_def)

text \<open>Regions that are pairwise apart are in order once they are sorted by their start.\<close>

definition apart :: "region \<Rightarrow> region \<Rightarrow> bool" where
  "apart r s \<longleftrightarrow> region_before r s \<or> region_before s r"

lemma shape_apart:
  assumes "as_shape m"
  shows "distinct (as_regions m)" and "r \<in> set (as_regions m) \<Longrightarrow> s \<in> set (as_regions m) \<Longrightarrow> r \<noteq> s \<Longrightarrow> apart r s"
proof -
  have "region_before r s \<Longrightarrow> region_ok s \<Longrightarrow> region_ok r \<Longrightarrow> r \<noteq> s" for r s
    by (auto simp: region_before_def region_ok_def)
  then show "distinct (as_regions m)"
    using shape_before [OF assms] shape_region [OF assms] unfolding distinct_conv_nth
    by (metis linorder_neqE_nat order_less_trans)
  show "r \<in> set (as_regions m) \<Longrightarrow> s \<in> set (as_regions m) \<Longrightarrow> r \<noteq> s \<Longrightarrow> apart r s"
    using shape_before [OF assms] unfolding apart_def in_set_conv_nth by (metis linorder_neqE_nat)
qed

lemma sort_apart:
  assumes "distinct rs" and "\<And>r s. r \<in> set rs \<Longrightarrow> s \<in> set rs \<Longrightarrow> r \<noteq> s \<Longrightarrow> apart r s"
    and "\<And>r. r \<in> set rs \<Longrightarrow> region_ok r"
  shows "sorted_wrt region_before (sort_key reg_start rs)"
  unfolding sorted_wrt_iff_nth_less
proof (intro allI impI)
  let ?xs = "sort_key reg_start rs"
  fix i j assume ij: "i < j" "j < length ?xs"
  have mem: "?xs ! i \<in> set rs" "?xs ! j \<in> set rs" using ij nth_mem [of i ?xs] nth_mem [of j ?xs] by simp_all
  have "?xs ! i \<noteq> ?xs ! j" using assms(1) ij by (simp add: nth_eq_iff_index_eq)
  then have "apart (?xs ! i) (?xs ! j)" using assms(2) mem by blast
  moreover have "reg_start (?xs ! i) \<le> reg_start (?xs ! j)"
    using sorted_nth_mono [OF sorted_sort_key [of reg_start rs], of i j] ij by simp
  ultimately show "region_before (?xs ! i) (?xs ! j)"
    using assms(3) [OF mem(2)] region_ok_pos [OF assms(3) [OF mem(2)]] by (auto simp: apart_def region_before_def word_le_nat_alt simp del: length_greater_0_conv)
qed

lemma Map_inv:
  assumes inv: "as_inv m" and len: "length data < 2 ^ 63" and ok: "Map m a data access = (None, m')"
  shows "as_inv m'" and "as_trackedVersion m' = as_trackedVersion m + 1"
    and "as_protections m' = as_protections m" and "as_trackedPages m' = as_trackedPages m" and "as_ref m' = as_ref m"
    and "set (as_regions m') = insert \<lparr>reg_start = a, reg_data = data, reg_access = access\<rparr> (set (as_regions m))"
proof -
  let ?r = "\<lparr>reg_start = a, reg_data = data, reg_access = access\<rparr>"
  note sh = as_invD(1) [OF inv]
  have v: "data \<noteq> []" "validRange a (int (length data))"
      and bud: "\<not> of_nat (length data) > as_limit m - as_used m"
      and ov: "\<forall>r \<in> set (as_regions m). \<not> (a \<le> reg_start r + of_nat (length (reg_data r) - 1) \<and>
            reg_start r \<le> a + of_nat (length data - 1))"
      and m': "m' = m\<lparr>as_regions := sort_key reg_start (as_regions m @ [?r]), as_used := as_used m + of_nat (length data),
           as_readCache := empty_readCache, as_trackedVersion := as_trackedVersion m + 1\<rparr>"
    using ok by (auto simp: Map_def Let_def list_ex_iff not_less split: if_splits)
  have end_ok: "unat a + length data \<le> 2 ^ 64" using v validRange_nat [OF len] by auto
  have rok: "region_ok ?r" using v len end_ok by (simp add: region_ok_def)
  have last_byte: "unat (reg_start r + of_nat (length (reg_data r) - 1)) = unat (reg_start r) + (length (reg_data r) - 1)"
    if "region_ok r" for r
    using that region_ok_pos [OF that] by (intro unat_add_nat) (simp add: region_ok_def del: length_greater_0_conv, linarith)
  have ap: "apart r ?r" if "r \<in> set (as_regions m)" for r
  proof -
    have "region_ok r" using that sh by (simp add: as_shape_def)
    note l = last_byte [OF this] last_byte [OF rok]
    have "\<not> (unat a \<le> unat (reg_start r) + (length (reg_data r) - 1) \<and> unat (reg_start r) \<le> unat a + (length data - 1))"
      using ov that l by (auto simp: word_le_nat_alt)
    then show ?thesis using region_ok_pos [OF rok] region_ok_pos [OF \<open>region_ok r\<close>]
      by (auto simp: apart_def region_before_def simp del: length_greater_0_conv)
  qed
  have "?r \<notin> set (as_regions m)" using ap [of ?r] v(1) by (auto simp: apart_def region_before_def)
  then have dis: "distinct (as_regions m @ [?r])" using shape_apart(1) [OF sh] by simp
  have "sorted_wrt region_before (sort_key reg_start (as_regions m @ [?r]))"
    using dis shape_apart(2) [OF sh] ap rok sh by (intro sort_apart) (auto simp: as_shape_def apart_def)
  moreover have "(\<Sum>r\<leftarrow>sort_key reg_start (as_regions m @ [?r]). length (reg_data r)) =
      (\<Sum>r\<leftarrow>as_regions m. length (reg_data r)) + length data"
    using dis sum_list_distinct_conv_sum_set [of "as_regions m @ [?r]" "\<lambda>r. length (reg_data r)"]
      sum_list_distinct_conv_sum_set [of "sort_key reg_start (as_regions m @ [?r])" "\<lambda>r. length (reg_data r)"]
    by simp
  moreover have used: "unat (as_used m + of_nat (length data)) = unat (as_used m) + length data"
      "as_used m + of_nat (length data) \<le> as_limit m"
  proof -
    have "unat (of_nat (length data) :: u64) = length data" using len by (intro unat_of_nat_small) simp
    then have b: "unat (as_used m) + length data \<le> unat (as_limit m)"
      using bud inv by (auto simp: not_less as_inv_def word_le_nat_alt unat_minus)
    then show u: "unat (as_used m + of_nat (length data)) = unat (as_used m) + length data"
      using unat_lt_64 [of "as_limit m"] by (intro unat_add_nat) (simp add: order_le_less_trans)
    show "as_used m + of_nat (length data) \<le> as_limit m" using b u by (simp add: word_le_nat_alt)
  qed
  ultimately show "as_inv m'" using inv rok span_ok_empty
    by (auto simp: as_inv_def as_shape_def m')
  show "as_trackedVersion m' = as_trackedVersion m + 1" "as_protections m' = as_protections m"
    "as_trackedPages m' = as_trackedPages m" "as_ref m' = as_ref m" "set (as_regions m') = insert ?r (set (as_regions m))"
    by (auto simp: m')
qed


subsection \<open>Unmapping\<close>

declare length_greater_0_conv [simp del]

lemma unmap_from_cases:
  assumes "unmap_from m a before rs = (err, m')"
  shows "(\<exists>pre r post. rs = pre @ r # post \<and> reg_start r = a \<and> err = None \<and>
      m' = m\<lparr>as_protections := concat (map (split_protection a (a + of_nat (length (reg_data r) - 1))) (as_protections m)),
             as_used := as_used m - of_nat (length (reg_data r)), as_regions := before @ pre @ post,
             as_readCache := empty_readCache, as_trackedVersion := as_trackedVersion m + 1\<rparr>) \<or>
    (\<forall>r \<in> set rs. reg_start r \<noteq> a) \<and> err \<noteq> None \<and> m' = m"
  using assms
proof (induction m a before rs rule: unmap_from.induct)
  case (2 m a before r rs)
  show ?case
  proof (cases "reg_start r = a")
    case True
    with "2.prems" show ?thesis by (intro disjI1 exI [of _ "[]"]) (auto simp: Let_def)
  next
    case False
    with "2.prems" have "unmap_from m a (before @ [r]) rs = (err, m')" by simp
    from "2.IH" [OF False this] show ?thesis
    proof (elim disjE exE conjE)
      fix pre q post
      assume "rs = pre @ q # post" "reg_start q = a" "err = None"
        "m' = m\<lparr>as_protections := concat (map (split_protection a (a + of_nat (length (reg_data q) - 1))) (as_protections m)),
             as_used := as_used m - of_nat (length (reg_data q)), as_regions := (before @ [r]) @ pre @ post,
             as_readCache := empty_readCache, as_trackedVersion := as_trackedVersion m + 1\<rparr>"
      then show ?thesis by (intro disjI1 exI [of _ "r # pre"] exI [of _ q] exI [of _ post]) simp
    qed (use False in auto)
  qed
qed auto

text \<open>Cutting a protection at a region keeps it well formed and keeps what it covers outside the region.\<close>

lemma split_protection_sound:
  assumes p: "protection_ok p" and r: "region_ok r" and "reg_start r = a"
    and l: "last_byte = a + of_nat (length (reg_data r) - 1)"
  shows "\<forall>q \<in> set (split_protection a last_byte p). protection_ok q \<and> pr_Access q = pr_Access p"
    and "\<not> holds r b \<Longrightarrow> (\<exists>q \<in> set (split_protection a last_byte p). covers q b) \<longleftrightarrow> covers p b"
proof -
  let ?n = "length (reg_data r)"
  note pos = region_ok_pos [OF r]
  have l': "unat last_byte = unat a + (?n - 1)"
    unfolding l using r pos assms(3) by (intro unat_add_nat) (simp add: region_ok_def del: length_greater_0_conv, linarith)
  have sz: "0 < unat (pr_Size p)" "unat (pr_Start p) + unat (pr_Size p) \<le> 2 ^ 64" "unat (pr_Size p) < 2 ^ 63"
    using p by (auto simp: protection_ok_def unat_gt_0)
  define pLast where "pLast = pr_Start p + pr_Size p - 1"
  have pl: "unat pLast = unat (pr_Start p) + (unat (pr_Size p) - 1)"
  proof -
    have "pLast = pr_Start p + of_nat (unat (pr_Size p) - 1)"
      using sz(1) by (simp add: pLast_def of_nat_diff)
    moreover have "unat (pr_Start p) + (unat (pr_Size p) - 1) < 2 ^ 64" using sz by linarith
    ultimately show ?thesis using unat_add_nat by metis
  qed
  have h: "holds r b \<longleftrightarrow> unat a \<le> unat b \<and> unat b \<le> unat last_byte"
    using pos unfolding holds_nat [OF r] l' assms(3) by arith
  have low: "unat (a - pr_Start p) = unat a - unat (pr_Start p)" if "pr_Start p < a"
    using that by (simp add: unat_minus less_imp_le)
  have high: "unat (last_byte + 1) = unat last_byte + 1" "unat (pLast - last_byte) = unat pLast - unat last_byte"
    if "pLast > last_byte"
  proof -
    have "unat pLast < 2 ^ 64" by simp
    then have "unat last_byte + 1 < 2 ^ 64" using that unfolding word_less_nat_alt by linarith
    then show "unat (last_byte + 1) = unat last_byte + 1" using unat_add_nat [of last_byte 1] by simp
    show "unat (pLast - last_byte) = unat pLast - unat last_byte" using that by (simp add: unat_minus less_imp_le)
  qed
  show "\<forall>q \<in> set (split_protection a last_byte p). protection_ok q \<and> pr_Access q = pr_Access p"
    using p low high pl sz
    by (auto simp: split_protection_def Let_def protection_ok_def word_less_nat_alt not_less simp flip: pLast_def)
  show "(\<exists>q \<in> set (split_protection a last_byte p). covers q b) \<longleftrightarrow> covers p b" if "\<not> holds r b"
  proof -
    have cp: "covers p b \<longleftrightarrow> unat (pr_Start p) \<le> unat b \<and> unat b \<le> unat pLast" using sz pl by (auto simp: covers_nat)
    have al: "unat a \<le> unat last_byte" using l' by simp
    show ?thesis
    proof (cases "pLast < a \<or> pr_Start p > last_byte")
      case True
      then show ?thesis by (auto simp: split_protection_def Let_def simp flip: pLast_def)
    next
      case False
      have c1: "covers \<lparr>pr_Start = pr_Start p, pr_Size = a - pr_Start p, pr_Access = pr_Access p\<rparr> b \<longleftrightarrow>
          unat (pr_Start p) \<le> unat b \<and> unat b < unat a" if "pr_Start p < a"
        using low [OF that] that by (auto simp: covers_nat word_less_nat_alt)
      have c2: "covers \<lparr>pr_Start = last_byte + 1, pr_Size = pLast - last_byte, pr_Access = pr_Access p\<rparr> b \<longleftrightarrow>
          unat last_byte < unat b \<and> unat b \<le> unat pLast" if "pLast > last_byte"
        using high [OF that] that by (auto simp: covers_nat word_less_nat_alt)
      have "(\<exists>q \<in> set (split_protection a last_byte p). covers q b) \<longleftrightarrow>
          pr_Start p < a \<and> unat (pr_Start p) \<le> unat b \<and> unat b < unat a \<or>
          pLast > last_byte \<and> unat last_byte < unat b \<and> unat b \<le> unat pLast"
        using False c1 c2 by (auto simp: split_protection_def Let_def simp flip: pLast_def)
      also have "\<dots> \<longleftrightarrow> covers p b"
        using that al False unfolding h cp word_less_nat_alt by auto
      finally show ?thesis .
    qed
  qed
qed


lemma effective_append: "effective (ps @ qs) acc b = effective qs (effective ps acc b) b"
  by (simp add: effective_def)

lemma effective_uniform:
  "\<forall>q \<in> set qs. pr_Access q = A \<Longrightarrow> effective qs acc b = (if \<exists>q \<in> set qs. covers q b then A else acc)"
  by (induction qs arbitrary: acc) auto

lemma effective_split:
  assumes "\<And>p. p \<in> set ps \<Longrightarrow> (\<forall>q \<in> set (f p). pr_Access q = pr_Access p) \<and> ((\<exists>q \<in> set (f p). covers q b) \<longleftrightarrow> covers p b)"
  shows "effective (concat (map f ps)) acc b = effective ps acc b"
  using assms
proof (induction ps arbitrary: acc)
  case (Cons p ps)
  have u: "\<forall>q \<in> set (f p). pr_Access q = pr_Access p" "(\<exists>q \<in> set (f p). covers q b) \<longleftrightarrow> covers p b"
    using Cons.prems [of p] by simp_all
  have "effective (concat (map f ps)) acc' b = effective ps acc' b" for acc'
    by (rule Cons.IH, rule Cons.prems) simp
  then show ?case by (simp add: effective_append effective_uniform [OF u(1)] u(2))
qed simp

lemma find_remove:
  assumes "\<not> P r"
  shows "List.find P (pre @ r # post) = List.find P (pre @ post)"
  using assms by (induction pre) auto

text \<open>Unmapping removes the bytes of one region; every other byte and permission stays.\<close>

lemma Unmap_sound:
  assumes inv: "as_inv m" and ok: "Unmap m a = (None, m')"
  shows "as_inv m'" and "as_trackedVersion m' = as_trackedVersion m + 1"
    and "as_trackedPages m' = as_trackedPages m" and "as_ref m' = as_ref m"
    and "\<exists>r \<in> set (as_regions m). reg_start r = a \<and>
      (\<forall>b. if holds r b then region_at m' b = None else byte_at m' b = byte_at m b \<and> perm_at m' b = perm_at m b)"
proof -
  note sh = as_invD(1) [OF inv]
  obtain pre r post where rs: "as_regions m = pre @ r # post" and ra: "reg_start r = a"
      and m': "m' = m\<lparr>as_protections := concat (map (split_protection a (a + of_nat (length (reg_data r) - 1))) (as_protections m)),
             as_used := as_used m - of_nat (length (reg_data r)), as_regions := pre @ post,
             as_readCache := empty_readCache, as_trackedVersion := as_trackedVersion m + 1\<rparr>"
    using unmap_from_cases [OF ok [unfolded Unmap_def]] by auto
  have rok: "region_ok r" and rm: "r \<in> set (as_regions m)" using sh rs by (auto simp: as_shape_def)
  note sp = split_protection_sound [OF _ rok ra refl]
  have pok: "\<forall>p \<in> set (as_protections m). protection_ok p" using sh by (simp add: as_shape_def)
  have sh': "as_shape m'"
    using sh rs sp(1) pok by (auto simp: as_shape_def m' sorted_wrt_append)
  have "unat (as_used m) = (\<Sum>r\<leftarrow>pre @ post. length (reg_data r)) + length (reg_data r)"
    using inv rs by (simp add: as_inv_def)
  moreover have "unat (of_nat (length (reg_data r)) :: u64) = length (reg_data r)"
    using rok by (intro unat_of_nat_small) (simp add: region_ok_def)
  moreover have "of_nat (length (reg_data r)) \<le> as_used m" using calculation by (simp add: word_le_nat_alt)
  ultimately have "unat (as_used m - of_nat (length (reg_data r))) = (\<Sum>r\<leftarrow>pre @ post. length (reg_data r))"
      "as_used m - of_nat (length (reg_data r)) \<le> as_limit m"
    using inv by (auto simp: unat_minus as_inv_def word_le_nat_alt)
  then show "as_inv m'" using inv sh' span_ok_empty by (auto simp: as_inv_def m')
  show "as_trackedVersion m' = as_trackedVersion m + 1" "as_trackedPages m' = as_trackedPages m" "as_ref m' = as_ref m"
    by (simp_all add: m')
  have "region_at m' b = None" if "holds r b" for b
  proof -
    have "\<not> holds s b" if "s \<in> set (pre @ post)" for s
    proof
      assume "holds s b"
      have "apart s r" using that shape_apart [OF sh] rs by (intro shape_apart(2) [OF sh]) auto
      moreover have "region_ok s" using that sh rs by (auto simp: as_shape_def)
      ultimately show False using \<open>holds s b\<close> \<open>holds r b\<close> rok by (auto simp: apart_def region_before_def holds_nat)
    qed
    then show ?thesis by (auto simp: region_at_None m')
  qed
  moreover have "byte_at m' b = byte_at m b \<and> perm_at m' b = perm_at m b" if h: "\<not> holds r b" for b
  proof -
    have reg: "region_at m' b = region_at m b"
      unfolding region_at_def rs find_remove [of "\<lambda>r. holds r b", OF h] by (simp add: m')
    have "effective (as_protections m') acc b = effective (as_protections m) acc b" for acc
      using sp(1) [of _] sp(2) [OF _ h] pok by (auto simp: m' intro!: effective_split)
    with reg show ?thesis by (simp add: byte_at_def perm_at_def)
  qed
  ultimately show "\<exists>r \<in> set (as_regions m). reg_start r = a \<and>
      (\<forall>b. if holds r b then region_at m' b = None else byte_at m' b = byte_at m b \<and> perm_at m' b = perm_at m b)"
    using rm ra by (intro bexI [of _ r]) auto
qed

subsection \<open>Protecting\<close>

lemma previous_loop_ok:
  assumes "as_shape m" and "unat a + n \<le> 2 ^ 64" and "\<forall>i < n. region_at m (a + of_nat i) \<noteq> None"
  shows "\<exists>ps. previous_loop m a n = Inr ps"
  using assms(2,3)
proof (induction n arbitrary: a rule: less_induct)
  case (less n)
  show ?case
  proof (cases "n = 0")
    case True
    then show ?thesis by (simp add: previous_loop.simps)
  next
    case n0: False
    then have "region_at m (a + of_nat 0) \<noteq> None" using less.prems(2) by blast
    then obtain k where k: "find_region m a = Some k" using find_region_None [OF assms(1), of a] by auto
    obtain permissions available where ac: "accessAt m a (as_regions m ! k) = (permissions, available)" by fastforce
    define l where "l = min n available"
    have l: "0 < l" "l \<le> n" using n0 accessAt_pos [OF find_region_data [OF k], of m] ac by (auto simp: l_def)
    have ul: "unat (a + of_nat l) = unat a + l" if "n - l \<noteq> 0" using that less.prems(1) by (intro unat_add_nat) linarith
    have "\<exists>ps. previous_loop m (if n - l \<noteq> 0 then a + of_nat l else a) (n - l) = Inr ps"
    proof (cases "n - l = 0")
      case False
      have "\<forall>i < n - l. region_at m (a + of_nat l + of_nat i) \<noteq> None"
        unfolding address_shift using less.prems(2) by (metis add.commute less_diff_conv)
      then show ?thesis using less.IH [of "n - l" "a + of_nat l"] ul [OF False] False less.prems(1) l by auto
    qed (simp add: previous_loop.simps)
    then obtain ps where "previous_loop m (if n - l \<noteq> 0 then a + of_nat l else a) (n - l) = Inr ps" by blast
    then show ?thesis using n0 k ac unfolding l_def
      by (subst previous_loop.simps) (simp only: if_False option.case Let_def prod.case map_sum.simps, blast)
  qed
qed


lemma Protect_sound:
  assumes inv: "as_inv m" and len: "n < 2 ^ 63"
  shows "if 0 < n \<and> access AND NOT 7 = 0 \<and> mem_check m a n 0 = None
    then \<exists>ps m'. Protect m a (int n) access = (Inr ps, m') \<and> as_inv m' \<and> as_regions m' = as_regions m \<and>
      as_trackedVersion m' = as_trackedVersion m + 1 \<and> as_trackedPages m' = as_trackedPages m \<and> as_ref m' = as_ref m \<and>
      (\<forall>b. perm_at m' b = (if unat a \<le> unat b \<and> unat b < unat a + n then Some access else perm_at m b))
    else \<exists>e. Protect m a (int n) access = (Inl e, m)"
proof (cases "0 < n \<and> access AND NOT 7 = 0 \<and> mem_check m a n 0 = None")
  case False
  then show ?thesis using check_eq [OF inv len, of a 0] by (auto simp: Protect_def split: option.splits)
next
  case True
  have chk: "check m a (int n) 0 = None" using check_eq [OF inv len, of a 0] True by simp
  have fit: "unat a + n \<le> 2 ^ 64" and al: "\<forall>i < n. allows m 0 (a + of_nat i)"
    using True by (auto simp: mem_check_def split: if_splits)
  have mapped: "\<forall>i < n. region_at m (a + of_nat i) \<noteq> None"
    using al by (auto simp: allows_def perm_at_def split: option.splits)
  obtain ps where ps: "previous_loop m a n = Inr ps"
    using previous_loop_ok [OF as_invD(1) [OF inv] fit mapped] by blast
  define p where "p = \<lparr>pr_Start = a, pr_Size = of_int (int n), pr_Access = access\<rparr>"
  define m' where "m' = m\<lparr>as_protections := as_protections m @ [p], as_readCache := empty_readCache,
      as_trackedVersion := as_trackedVersion m + 1\<rparr>"
  have pr: "Protect m a (int n) access = (Inr ps, m')" using True chk ps by (simp add: Protect_def m'_def p_def)
  have sz: "unat (pr_Size p) = n" using len by (simp add: p_def unat_of_nat_small)
  then have pok: "protection_ok p" using True len fit by (simp add: protection_ok_def p_def word_less_nat_alt)
  have "as_shape m'" using as_invD(1) [OF inv] pok by (auto simp: as_shape_def m'_def)
  then have inv': "as_inv m'" using inv span_ok_empty by (auto simp: as_inv_def m'_def)
  have "perm_at m' b = (if unat a \<le> unat b \<and> unat b < unat a + n then Some access else perm_at m b)" for b
  proof -
    have cov: "covers p b \<longleftrightarrow> unat a \<le> unat b \<and> unat b < unat a + n" by (simp add: covers_nat sz) (simp add: p_def)
    have "region_at m b \<noteq> None" if "covers p b"
    proof -
      have "unat b - unat a < n" "unat a \<le> unat b" using that cov by auto
      moreover from this have "a + of_nat (unat b - unat a) = b"
        by (simp add: of_nat_diff)
      ultimately show ?thesis using mapped by metis
    qed
    moreover have "region_at m' b = region_at m b" by (rule meaning_cong(1) [THEN fun_cong]) (simp add: m'_def)
    ultimately show ?thesis using cov
      by (auto simp: perm_at_def m'_def effective_append p_def split: option.splits if_splits)
  qed
  then show ?thesis using True pr inv' by (auto simp: m'_def)
qed


subsection \<open>Subscriptions\<close>

lemma filter_slot: "unat (drop_bit 6 (filter_bit p)) < 64" "unat (filter_bit p AND 63) < 64"
proof -
  have "unat (x AND 63 :: u64) < 64" for x
    using word_and_le1 [of x 63] by (simp add: word_le_nat_alt)
  then show "unat (drop_bit 6 (filter_bit p)) < 64" "unat (filter_bit p AND 63) < 64"
    by (simp_all add: filter_bit_def)
qed

lemma in_filter_update:
  assumes "length flt = 64" and "k < 64"
  shows "in_filter flt p \<Longrightarrow> in_filter (flt[k := (flt ! k) OR x]) p"
    and "k = unat (drop_bit 6 (filter_bit p)) \<Longrightarrow> x = push_bit (unat (filter_bit p AND 63)) 1 \<Longrightarrow>
      in_filter (flt[k := (flt ! k) OR x]) p"
proof -
  let ?j = "unat (drop_bit 6 (filter_bit p))" and ?b = "push_bit (unat (filter_bit p AND 63)) (1 :: u64)"
  have mono: "(w OR x) AND b \<noteq> 0" if "w AND b \<noteq> 0" for w x b :: u64
    using that unfolding word_ao_dist by (metis or_eq_0_iff)
  show "in_filter flt p \<Longrightarrow> in_filter (flt[k := (flt ! k) OR x]) p"
    using mono assms by (cases "k = ?j") (auto simp: in_filter_def Let_def nth_list_update)
  have "?b \<noteq> 0" using filter_slot(2) [of p] by (simp add: push_bit_eq_0_iff)
  then show "k = ?j \<Longrightarrow> x = ?b \<Longrightarrow> in_filter (flt[k := (flt ! k) OR x]) p"
    using assms by (simp add: in_filter_def Let_def word_ao_absorbs)
qed

lemma TrackPageWrites_inv:
  assumes "as_inv m"
  shows "as_inv (TrackPageWrites m a)"
proof -
  let ?p = "page_of a"
  have "in_filter (as_trackedFilter (TrackPageWrites m a)) q" if "q \<in> insert ?p (set (as_trackedPages m))" for q
    using that in_filter_update [of "as_trackedFilter m" "unat (drop_bit 6 (filter_bit ?p))"] assms filter_slot(1) [of ?p]
    by (auto simp: TrackPageWrites_def Let_def as_inv_def)
  moreover have "span_ok (TrackPageWrites m a) = span_ok m" "as_shape (TrackPageWrites m a) = as_shape m"
    by (intro meaning_cong; simp add: TrackPageWrites_def Let_def)+
  ultimately show ?thesis using assms
    unfolding as_inv_def by (auto simp: TrackPageWrites_def Let_def)
qed


subsection \<open>Reachable address spaces\<close>

text \<open>Every operation of the package, on slices of a length Go can represent.\<close>

inductive space_step :: "address_space \<Rightarrow> address_space \<Rightarrow> bool" where
  map_step: "length data < 2 ^ 63 \<Longrightarrow> space_step m (snd (Map m a data access))"
| unmap_step: "space_step m (snd (Unmap m a))"
| protect_step': "n < 2 ^ 63 \<Longrightarrow> space_step m (snd (Protect m a (int n) access))"
| read_step: "n < 2 ^ 63 \<Longrightarrow> space_step m (snd (ReadMemory m a n access))"
| write_step: "length source < 2 ^ 63 \<Longrightarrow> space_step m (snd (WriteMemory m a source))"
| track_step: "space_step m (TrackPageWrites m a)"
| clone_step: "space_step m (Clone ref m)"

inductive space_reachable :: "address_space \<Rightarrow> bool" where
  new_space: "space_reachable (NewAddressSpace ref limit)"
| next_space: "space_reachable m \<Longrightarrow> space_step m m' \<Longrightarrow> space_reachable m'"

lemma Clone_inv: "as_inv m \<Longrightarrow> as_inv (Clone ref m)"
  by (auto simp: as_inv_def Clone_def NewAddressSpace_def as_shape_def span_ok_empty)

lemma Map_error: "Map m a data access = (Some e, m') \<Longrightarrow> m' = m"
  by (auto simp: Map_def Let_def split: if_splits)

lemma Unmap_error: "Unmap m a = (Some e, m') \<Longrightarrow> m' = m"
  using unmap_from_cases [of m a "[]" "as_regions m"] by (auto simp: Unmap_def)

lemma space_step_inv: "space_step m m' \<Longrightarrow> as_inv m \<Longrightarrow> as_inv m'"
proof (induction rule: space_step.induct)
  case (map_step data m a access)
  then show ?case
    by (cases "Map m a data access"; cases "fst (Map m a data access)") (auto dest: Map_error Map_inv(1))
next
  case (unmap_step m a)
  then show ?case by (cases "Unmap m a"; cases "fst (Unmap m a)") (auto dest: Unmap_error Unmap_sound(1))
next
  case (protect_step' n m a access)
  then show ?case using Protect_sound [of m n access a] by (auto split: if_splits)
next
  case (read_step n m a access)
  then show ?case using ReadMemory_eq by blast
next
  case (write_step source m a)
  then show ?case using WriteMemory_eq [of m source a] by (auto split: option.splits)
qed (auto intro: TrackPageWrites_inv Clone_inv)

lemma space_reachable_inv: "space_reachable m \<Longrightarrow> as_inv m"
  by (induction rule: space_reachable.induct) (auto intro: NewAddressSpace_inv space_step_inv)

subsection \<open>Properties\<close>

definition demo_space :: address_space where
  "demo_space = snd (Map (NewAddressSpace 0 16) 0x1000 [1, 2, 3, 4] 3)"

lemma demo_space_eq:
  "demo_space = \<lparr>as_ref = 0, as_regions = [\<lparr>reg_start = 0x1000, reg_data = [1, 2, 3, 4], reg_access = 3\<rparr>],
     as_limit = 16, as_used = 4, as_protections = [], as_readCache = empty_readCache,
     as_trackedPages = [], as_trackedFilter = replicate 64 0, as_trackedVersion = 1\<rparr>"
  by (simp add: demo_space_def Map_def NewAddressSpace_def validRange_def)

lemma demo_space_reachable: "space_reachable demo_space"
  unfolding demo_space_def by (rule next_space [OF new_space map_step]) simp

text \<open>
  C19. Whatever sequence of operations a program runs on an address space, its mappings stay sorted, non-empty
  and disjoint, the budget counter is the exact sum of the mapped lengths and never exceeds the limit, and every
  entry of the read cache still describes bytes of a live mapping under one effective permission.
\<close>

theorem guest_space_invariant:
  assumes "space_reachable m"
  shows "sorted_wrt region_before (as_regions m) \<and> (\<forall>r \<in> set (as_regions m). region_ok r) \<and>
    unat (as_used m) = (\<Sum>r\<leftarrow>as_regions m. length (reg_data r)) \<and> as_used m \<le> as_limit m \<and>
    (\<forall>e \<in> set (as_readCache m). span_ok m e)"
  using space_reachable_inv [OF assms] by (simp add: as_inv_def as_shape_def)

theorem guest_space_invariant_witness:
  "unat (as_used demo_space) = (\<Sum>r\<leftarrow>as_regions demo_space. length (reg_data r))"
  using guest_space_invariant [OF demo_space_reachable] by blast

text \<open>
  C20. The read cache is transparent: a read of any reachable address space returns what the same read returns on
  a clone, whose cache is empty; it succeeds exactly when every byte of the range is mapped and grants the
  access, and then it returns those bytes.
\<close>

theorem guest_read_cache_transparent:
  assumes "space_reachable m" and "n < 2 ^ 63"
  shows "fst (ReadMemory m a n access) = fst (ReadMemory (Clone ref m) a n access) \<and>
    (\<forall>data. fst (ReadMemory m a n access) = Inr data \<longleftrightarrow>
      (access = Read_access \<or> access = Execute_access) \<and> (n = 0 \<or> unat a + n \<le> 2 ^ 64) \<and>
      (\<forall>i < n. allows m access (a + of_nat i)) \<and> data = map (\<lambda>i. the (byte_at m (a + of_nat i))) [0..<n])"
proof -
  note inv = space_reachable_inv [OF assms(1)]
  have "mem_read (Clone ref m) = mem_read m" by (intro mem_read_cong) (simp_all add: Clone_def)
  then have e1: "fst (ReadMemory m a n access) = fst (ReadMemory (Clone ref m) a n access)"
    using ReadMemory_eq [OF inv assms(2)] ReadMemory_eq [OF Clone_inv [OF inv] assms(2)] by simp
  have e2: "fst (ReadMemory m a n access) = mem_read m a n access" using ReadMemory_eq [OF inv assms(2)] by simp
  have e3: "mem_read m a n access = Inr data \<longleftrightarrow>
      (access = Read_access \<or> access = Execute_access) \<and> (n = 0 \<or> unat a + n \<le> 2 ^ 64) \<and>
      (\<forall>i < n. allows m access (a + of_nat i)) \<and> data = mem_bytes m a n" for data
  proof -
    define P where "P \<longleftrightarrow> (\<forall>i < n. allows m access (a + of_nat i))"
    show ?thesis unfolding mem_read_def mem_check_def P_def [symmetric] by (cases P) (auto simp: not_less)
  qed
  show ?thesis using e1 e3 unfolding e2 mem_bytes_def by blast
qed

theorem guest_read_cache_transparent_witness:
  "fst (ReadMemory demo_space 0x1001 2 Read_access) = Inr [2, 3]"
proof -
  have small: "(2 :: nat) < 2 ^ 63" and fit: "(2 :: nat) = 0 \<or> unat (0x1001 :: u64) + 2 \<le> 2 ^ 64" by simp_all
  have al: "\<forall>i < 2. allows demo_space Read_access (0x1001 + of_nat i)"
    by (auto simp: allows_def perm_at_def region_at_def holds_def demo_space_eq less_2_cases_iff)
  have bs: "[2, 3] = map (\<lambda>i. the (byte_at demo_space (0x1001 + of_nat i))) [0..<2]"
    by (simp add: byte_at_def region_at_def holds_def demo_space_eq upt_rec)
  show ?thesis
    by (rule guest_read_cache_transparent [OF demo_space_reachable small, THEN conjunct2, THEN spec, THEN iffD2],
        intro conjI, rule disjI1, rule refl, rule fit, rule al, rule bs)
qed

text \<open>
  C21. A guest write is all or nothing: it is refused with the address space unchanged unless every byte of the
  range is mapped and writable, and otherwise exactly the bytes of the range become the source while every
  permission and every other byte stays as it was.
\<close>

theorem guest_write_atomic:
  assumes "space_reachable m" and "length source < 2 ^ 63"
  shows "if (source = [] \<or> unat a + length source \<le> 2 ^ 64) \<and> (\<forall>i < length source. allows m Write_access (a + of_nat i))
    then \<exists>m'. WriteMemory m a source = (None, m') \<and> perm_at m' = perm_at m \<and>
      (\<forall>b. byte_at m' b = (if unat a \<le> unat b \<and> unat b < unat a + length source
                           then Some (source ! (unat b - unat a)) else byte_at m b))
    else \<exists>e. WriteMemory m a source = (Some e, m)"
proof (cases "mem_check m a (length source) Write_access")
  case (Some e)
  then have "\<not> ((source = [] \<or> unat a + length source \<le> 2 ^ 64) \<and> (\<forall>i < length source. allows m Write_access (a + of_nat i)))"
    unfolding mem_check_def by (auto split: if_splits)
  then show ?thesis
    using WriteMemory_eq [OF space_reachable_inv [OF assms(1)] assms(2), of a] Some by simp
next
  case None
  then have ok: "(source = [] \<or> unat a + length source \<le> 2 ^ 64) \<and> (\<forall>i < length source. allows m Write_access (a + of_nat i))"
    unfolding mem_check_def by (simp add: not_less split: if_splits)
  obtain m' where "WriteMemory m a source = (None, m')" "as_protections m' = as_protections m"
      "same_layout (as_regions m) (as_regions m')" "\<forall>b. byte_at m' b = written m a source b"
    using WriteMemory_eq [OF space_reachable_inv [OF assms(1)] assms(2), of a] None by auto
  then show ?thesis unfolding if_P [OF ok] written_def using layout_perm_at(1) by blast
qed

theorem guest_write_atomic_witness:
  "\<exists>e. WriteMemory demo_space 0x1003 [9, 9] = (Some e, demo_space)"
proof -
  have "\<not> allows demo_space Write_access (0x1003 + of_nat 1)"
    by (simp add: allows_def perm_at_def region_at_def demo_space_eq holds_def)
  then show ?thesis using guest_write_atomic [OF demo_space_reachable, of "[9, 9]" "0x1003"]
    by (auto split: if_splits)
qed

text \<open>
  C22. Write tracking: a successful write changes the tracked version exactly when it touches a page some cache
  subscribed to, whatever the Bloom filter in front of the page set says, and mapping, unmapping and protecting
  always change it. A cache that compares versions therefore never misses a change.
\<close>

theorem guest_tracking_sound:
  assumes "space_reachable m" and "length source < 2 ^ 63"
  shows "(\<forall>m'. WriteMemory m a source = (None, m') \<longrightarrow>
      (as_trackedVersion m' \<noteq> as_trackedVersion m) = (\<exists>p \<in> set (as_trackedPages m). touches a (length source) p)) \<and>
    (\<forall>m'. Map m a source access = (None, m') \<longrightarrow> as_trackedVersion m' \<noteq> as_trackedVersion m) \<and>
    (\<forall>m'. Unmap m a = (None, m') \<longrightarrow> as_trackedVersion m' \<noteq> as_trackedVersion m) \<and>
    (\<forall>ps m'. Protect m a n access = (Inr ps, m') \<longrightarrow> as_trackedVersion m' \<noteq> as_trackedVersion m)"
proof (intro conjI allI impI)
  note inv = space_reachable_inv [OF assms(1)]
  fix m'
  show "WriteMemory m a source = (None, m') \<Longrightarrow>
      (as_trackedVersion m' \<noteq> as_trackedVersion m) = (\<exists>p \<in> set (as_trackedPages m). touches a (length source) p)"
    using WriteMemory_eq [OF inv assms(2), of a] by (auto split: option.splits if_splits)
  show "Map m a source access = (None, m') \<Longrightarrow> as_trackedVersion m' \<noteq> as_trackedVersion m"
    using Map_inv(2) [OF inv assms(2)] by simp
  show "Unmap m a = (None, m') \<Longrightarrow> as_trackedVersion m' \<noteq> as_trackedVersion m"
    using Unmap_sound(2) [OF inv] by simp
  fix ps
  show "Protect m a n access = (Inr ps, m') \<Longrightarrow> as_trackedVersion m' \<noteq> as_trackedVersion m"
    by (auto simp: Protect_def split: if_splits option.splits sum.splits)
qed

theorem guest_tracking_sound_witness:
  "\<exists>m'. WriteMemory (TrackPageWrites demo_space 0x1008) 0x1002 [7] = (None, m') \<and> as_trackedVersion m' \<noteq> 1"
proof -
  let ?m = "TrackPageWrites demo_space 0x1008"
  have r: "space_reachable ?m" by (rule next_space [OF demo_space_reachable track_step])
  have "mem_check ?m 0x1002 1 Write_access = None"
    by (simp add: mem_check_def allows_def perm_at_def region_at_def holds_def TrackPageWrites_def Let_def demo_space_eq)
  then obtain m' where m': "WriteMemory ?m 0x1002 [7] = (None, m')"
    using WriteMemory_eq [OF space_reachable_inv [OF r], of "[7]" "0x1002"] by auto
  have "as_trackedVersion ?m = 1" "touches 0x1002 1 1" "1 \<in> set (as_trackedPages ?m)"
    by (simp_all add: TrackPageWrites_def Let_def demo_space_eq touches_def)
  then show ?thesis using guest_tracking_sound [OF r, of "[7]" "0x1002"] m' by auto
qed

end
