(* ===== verification/Arm64_State.thy ===== *)
theory Arm64_State
  imports Guest_Memory
begin

text \<open>
  The register state of the ARM64 interpreter, \<open>src/emulator/arm64/cpu.go\<close> and \<open>system.go\<close>: the processor
  record, register reads and writes, the arithmetic helpers and the system registers. Registers and immediates are
  64- and 32-bit words; register numbers, widths and lane sizes, which the source keeps in small
  unsigned integers, are \<^typ>\<open>nat\<close>. The scratch buffers of \<open>CPU\<close> (\<open>stepMemory\<close>, \<open>fetch\<close>, \<open>transfer\<close>) live for one
  instruction and are local to the operations here.
\<close>

subsection \<open>State\<close>

datatype (plugins only: code) instruction_class =
    opUnknown | opPairwise | opVectorCompare | opVectorCompareZero | opDataCache | opICacheAll | opICacheAddress
  | opVectorExtract | opAddWide | opVectorSum | opShiftLong | opAcquireRelease | opVectorSingleStructure
  | opVectorAddSub | opVectorInsert | opCSDB | opReverseBits | opAddLong | opShiftNarrow | opVectorEqual
  | opClearExclusive | opExclusive | opAtomicReadModifyWrite | opMultiplyLong | opMultiplyHigh | opPointerAuthHint
  | opVectorToGeneral | opGeneralToVector | opVectorStructures | opVectorLogical | opVectorDuplicate | opTLBI
  | opBarrier | opAddressTranslate | opDAIFImmediate | opSystem | opCurrentEL | opVectorImmediate | opNop
  | opReturn | opBranchReg | opBranchLinkReg | opBranchImmediate | opBranchConditional | opCompareBranch
  | opTestBranch | opAddress | opMoveWide | opAddSub | opAddCarry | opLogical | opBitfield | opExtract
  | opConditionalCompare | opConditionalSelect | opCountLeadingZeros | opReverseBytes | opDataTwoSource
  | opMultiplyAdd | opLoadStorePair | opLoadStore | opLoadLiteral

record decodeEntry =
  de_word :: u32
  de_class :: instruction_class

record translationEntry =
  te_virtual :: u64
  te_physical :: u64
  te_attributes :: u64
  te_access :: access
  te_valid :: bool

record translationCache =
  tc_memory :: "nat option"
  tc_version :: u64
  tc_entries :: "translationEntry list"

record CPU =
  c_DisableDecodeCache :: bool
  c_decodeCache :: "decodeEntry list"
  c_DisableTranslationCache :: bool
  c_translations :: translationCache
  c_exclusiveAddress :: u64
  c_exclusiveSize :: u64
  c_exclusiveValid :: bool
  c_x :: "u64 list"
  c_sp :: u64
  c_pc :: u64
  c_nzcv :: u64
  c_currentEL :: u64
  c_daif :: u64
  c_cycles :: u64
  c_pmcr :: u64
  c_pmcnten :: u64
  c_divider :: u64
  c_pmovs :: u64
  c_pminten :: u64
  c_pmfilter :: u64
  c_pmuser :: u64
  c_ticks :: u64
  c_frequency :: u64
  c_system :: "u64 list"
  c_q :: "bytes list"

datatype Effect = Continue | Call | Return | Halt

subsection \<open>Bits\<close>

text \<open>The bit field \<open>i>>s & m\<close> of an instruction word, as a number.\<close>

definition fld :: "u32 \<Rightarrow> nat \<Rightarrow> u32 \<Rightarrow> nat" where
  "fld i s m = unat (drop_bit s i AND m)"

abbreviation rd_of :: "u32 \<Rightarrow> nat" where "rd_of i \<equiv> fld i 0 31"
abbreviation rn_of :: "u32 \<Rightarrow> nat" where "rn_of i \<equiv> fld i 5 31"
abbreviation rm_of :: "u32 \<Rightarrow> nat" where "rm_of i \<equiv> fld i 16 31"

definition width_of :: "u32 \<Rightarrow> nat" where
  "width_of i = (if bit i 31 then 64 else 32)"

definition mask64 :: "nat \<Rightarrow> u64" where
  "mask64 n = (if n = 64 then NOT 0 else push_bit n 1 - 1)"

definition sext :: "u64 \<Rightarrow> nat \<Rightarrow> u64" where
  "sext v n = (if n > 64 then 0 else signed_drop_bit (64 - n) (push_bit (64 - n) v))"

text \<open>\<open>bits.TrailingZeros32\<close>, \<open>bits.Len32\<close>, \<open>bits.LeadingZeros64\<close> and \<open>bits.Reverse64\<close>.\<close>

definition TrailingZeros32 :: "u32 \<Rightarrow> nat" where
  "TrailingZeros32 w = length (takeWhile (\<lambda>k. \<not> bit w k) [0..<32])"

definition Len32 :: "u32 \<Rightarrow> nat" where
  "Len32 w = length (dropWhile (\<lambda>k. \<not> bit w k) (rev [0..<32]))"

definition LeadingZeros64 :: "u64 \<Rightarrow> nat" where
  "LeadingZeros64 w = length (takeWhile (\<lambda>k. \<not> bit w k) (rev [0..<64]))"

definition Reverse64 :: "u64 \<Rightarrow> u64" where
  "Reverse64 w = fold (\<lambda>k v. if bit w k then v OR push_bit (63 - k) 1 else v) [0..<64] 0"

definition rotate64 :: "u64 \<Rightarrow> nat \<Rightarrow> nat \<Rightarrow> u64" where
  "rotate64 v n width = (let n = n mod width in (drop_bit n v OR push_bit (width - n) v) AND mask64 width)"

definition shift64 :: "u64 \<Rightarrow> nat \<Rightarrow> nat \<Rightarrow> nat \<Rightarrow> u64" where
  "shift64 v kind n width =
     (let v = v AND mask64 width in
      if kind = 0 then push_bit n v AND mask64 width
      else if kind = 1 then drop_bit n v
      else if kind = 2 then signed_drop_bit n (sext v width) AND mask64 width
      else rotate64 v n width)"

text \<open>\<open>DecodeBitMasks\<close>: \<open>None\<close> is the result \<open>(0, 0, false)\<close>.\<close>

definition bitMasks :: "u32 \<Rightarrow> u32 \<Rightarrow> u32 \<Rightarrow> nat \<Rightarrow> bool \<Rightarrow> (u64 \<times> u64) option" where
  "bitMasks n imms immr width immediate =
     (let len1 = Len32 (push_bit 6 n OR (NOT imms AND 63)) in
      if len1 < 2 then None
      else let esize = 2 ^ (len1 - 1) in
      if esize > width then None
      else let levels = (of_nat (esize - 1) :: u32);
               s = unat (imms AND levels);
               r = unat (immr AND levels) in
      if immediate \<and> s = esize - 1 then None
      else let welem = rotate64 (mask64 (s + 1)) r esize;
               telem = mask64 (unat ((of_nat s - of_nat r :: u32) AND levels) + 1);
               js = map ((*) esize) [0..<width div esize]
           in Some (fold (\<lambda>j w. w OR push_bit j welem) js 0, fold (\<lambda>j t. t OR push_bit j telem) js 0))"

subsection \<open>Registers\<close>

definition r_reg :: "CPU \<Rightarrow> nat \<Rightarrow> bool \<Rightarrow> u64" where
  "r_reg c n sp = (if n = 31 then if sp then c_sp c else 0 else c_x c ! n)"

definition w_reg :: "CPU \<Rightarrow> nat \<Rightarrow> u64 \<Rightarrow> nat \<Rightarrow> bool \<Rightarrow> CPU" where
  "w_reg c n v width sp =
     (let v = v AND mask64 width in
      if n = 31 then if sp then c\<lparr>c_sp := v\<rparr> else c
      else c\<lparr>c_x := (c_x c)[n := v]\<rparr>)"

definition condition :: "CPU \<Rightarrow> nat \<Rightarrow> bool" where
  "condition c cond =
     (let n = bit (c_nzcv c) 31; z = bit (c_nzcv c) 30; carry = bit (c_nzcv c) 29; v = bit (c_nzcv c) 28;
          k = cond div 2;
          ok = (if k = 0 then z else if k = 1 then carry else if k = 2 then n else if k = 3 then v
                else if k = 4 then carry \<and> \<not> z else if k = 5 then n = v
                else if k = 6 then n = v \<and> \<not> z else k = 7)
      in if odd cond \<and> cond \<noteq> 15 then \<not> ok else ok)"

text \<open>\<open>bits.Add64\<close> gives the 64-bit sum and its carry out.\<close>

definition add_flags :: "u64 \<Rightarrow> u64 \<Rightarrow> u64 \<Rightarrow> bool \<Rightarrow> nat \<Rightarrow> u64" where
  "add_flags a b res co width =
     (if drop_bit (width - 1) res \<noteq> 0 then push_bit 31 1 else 0) OR
     (if res = 0 then push_bit 30 1 else 0) OR
     (if co then push_bit 29 1 else 0) OR
     (if drop_bit (width - 1) (NOT (a XOR b) AND (a XOR res)) AND 1 \<noteq> 0 then push_bit 28 1 else 0)"

definition add_op :: "CPU \<Rightarrow> u64 \<Rightarrow> u64 \<Rightarrow> u64 \<Rightarrow> nat \<Rightarrow> bool \<Rightarrow> u64 \<times> CPU" where
  "add_op c a b carry width flags =
     (let a = a AND mask64 width;
          b = b AND mask64 width;
          full = a + b + carry;
          co = (if width = 32 then drop_bit 32 full \<noteq> 0 else unat a + unat b + unat carry \<ge> 2 ^ 64);
          res = full AND mask64 width
      in (res, if flags then c\<lparr>c_nzcv := add_flags a b res co width\<rparr> else c))"

subsection \<open>Register transfer\<close>

definition reg_bytes :: "u64 \<Rightarrow> nat \<Rightarrow> bytes" where
  "reg_bytes v n = map (\<lambda>k. ucast (drop_bit (8 * k) v)) [0..<n]"

definition lane :: "bytes \<Rightarrow> nat \<Rightarrow> nat \<Rightarrow> u64" where
  "lane bs j n = fold (\<lambda>k v. v OR push_bit (8 * k) (ucast (bs ! (j + k)))) [0..<n] 0"

definition zero16 :: bytes where
  "zero16 = replicate 16 0"

definition storeReg :: "CPU \<Rightarrow> nat \<Rightarrow> nat \<Rightarrow> bool \<Rightarrow> bytes" where
  "storeReg c len n simd =
     (if simd then take len (c_q c ! n) else reg_bytes (r_reg c n False) len)"

definition loadReg :: "CPU \<Rightarrow> bytes \<Rightarrow> nat \<Rightarrow> bool \<Rightarrow> bool \<Rightarrow> CPU" where
  "loadReg c src n simd sgnd =
     (if simd then c\<lparr>c_q := (c_q c)[n := overwrite 0 src zero16]\<rparr>
      else let v = lane src 0 (length src)
           in w_reg c n (if sgnd then sext v (length src * 8) else v) 64 False)"

subsection \<open>System registers\<close>

definition systemRegisters :: "(string \<times> u32) list" where
  "systemRegisters =
    [(''sctlr_el1'', 0xc080), (''ttbr0_el1'', 0xc100), (''ttbr1_el1'', 0xc101),
     (''tcr_el1'', 0xc102), (''mair_el1'', 0xc510), (''vbar_el1'', 0xc600),
     (''cpacr_el1'', 0xc082), (''tpidr_el0'', 0xde82), (''tpidrro_el0'', 0xde83), (''tpidr_el1'', 0xc684),
     (''par_el1'', 0xc3a0),
     (''id_aa64isar0_el1'', 0xc030), (''id_aa64isar1_el1'', 0xc031), (''id_aa64isar2_el1'', 0xc032),
     (''id_aa64pfr0_el1'', 0xc020), (''id_aa64pfr1_el1'', 0xc021), (''id_aa64dfr0_el1'', 0xc028),
     (''id_aa64mmfr0_el1'', 0xc038), (''midr_el1'', 0xc000), (''mpidr_el1'', 0xc005),
     (''ctr_el0'', 0xd801), (''dczid_el0'', 0xd807),
     (''id_aa64mmfr1_el1'', 0xc039), (''id_aa64mmfr2_el1'', 0xc03a)]"

text \<open>The position of the first entry that satisfies \<open>P\<close>.\<close>

definition index_where :: "('a \<Rightarrow> bool) \<Rightarrow> 'a list \<Rightarrow> nat option" where
  "index_where P xs = (let k = length (takeWhile (\<lambda>x. \<not> P x) xs) in if k < length xs then Some k else None)"

definition systemIndex :: "string \<Rightarrow> nat option" where
  "systemIndex name = index_where (\<lambda>(n, _). n = name) systemRegisters"

definition empty_translations :: translationCache where
  "empty_translations = \<lparr>tc_memory = None, tc_version = 0,
     tc_entries = replicate 256 \<lparr>te_virtual = 0, te_physical = 0, te_attributes = 0, te_access = 0, te_valid = False\<rparr>\<rparr>"

definition ClearTranslationCache :: "CPU \<Rightarrow> CPU" where
  "ClearTranslationCache c = c\<lparr>c_translations := empty_translations\<rparr>"

text \<open>
  \<open>strings.ToLower\<close> on the ASCII letters of a name, and \<open>strconv.Atoi\<close>: an optional sign and decimal digits.
\<close>

definition lower_char :: "char \<Rightarrow> char" where
  "lower_char ch = (let k = (of_char ch :: nat) in if 65 \<le> k \<and> k \<le> 90 then char_of (k + 32) else ch)"

definition ToLower :: "string \<Rightarrow> string" where
  "ToLower = map lower_char"

definition is_digit :: "char \<Rightarrow> bool" where
  "is_digit ch = (let k = (of_char ch :: nat) in 48 \<le> k \<and> k \<le> 57)"

definition digits_value :: "string \<Rightarrow> int" where
  "digits_value ds = foldl (\<lambda>v ch. 10 * v + int (of_char ch) - 48) 0 ds"

definition Atoi :: "string \<Rightarrow> int option" where
  "Atoi s =
     (let (neg, ds) = (case s of [] \<Rightarrow> (False, [])
                       | ch # cs \<Rightarrow> if ch = CHR ''-'' then (True, cs) else if ch = CHR ''+'' then (False, cs) else (False, s))
      in if ds = [] \<or> \<not> list_all is_digit ds then None
         else let v = (if neg then - digits_value ds else digits_value ds)
              in if v < min_int64 \<or> v > max_int64 then None else Some v)"

text \<open>The number of a general register \<open>x0\<close>..\<open>x30\<close> or \<open>w0\<close>..\<open>w30\<close>, with its narrow flag.\<close>

definition general_name :: "string \<Rightarrow> (nat \<times> bool) option" where
  "general_name name =
     (case name of
        [] \<Rightarrow> None
      | ch # rest \<Rightarrow>
          if rest \<noteq> [] \<and> (ch = CHR ''x'' \<or> ch = CHR ''w'')
          then (case Atoi rest of
                  None \<Rightarrow> None
                | Some n \<Rightarrow> if n \<ge> 0 \<and> n < 31 then Some (nat n, ch = CHR ''w'') else None)
          else None)"

definition Register :: "CPU \<Rightarrow> string \<Rightarrow> go_error + u64" where
  "Register c name0 =
     (let name = ToLower name0 in
      case systemIndex name of
        Some j \<Rightarrow> Inr (c_system c ! j)
      | None \<Rightarrow>
          if name = ''daif'' then Inr (c_daif c)
          else if name = ''pmccntr_el0'' then Inr (c_cycles c)
          else if name = ''pmcr_el0'' then Inr (c_pmcr c)
          else if name = ''pmovsclr_el0'' then Inr (c_pmovs c)
          else if name = ''pmintenset_el1'' \<or> name = ''pmintenclr_el1'' then Inr (c_pminten c)
          else if name = ''pmccfiltr_el0'' then Inr (c_pmfilter c)
          else if name = ''pmuserenr_el0'' then Inr (c_pmuser c)
          else if name = ''cntfrq_el0'' then Inr (if c_frequency c = 0 then 1000000 else c_frequency c)
          else if name = ''cntpct_el0'' \<or> name = ''cntvct_el0'' then Inr (c_ticks c)
          else if name = ''pmcntenset_el0'' \<or> name = ''pmcntenclr_el0'' then Inr (c_pmcnten c)
          else if name = ''pc'' then Inr (c_pc c)
          else if name = ''sp'' then Inr (c_sp c)
          else if name = ''nzcv'' then Inr (c_nzcv c)
          else if name = ''current_el'' then Inr (c_currentEL c)
          else if name = ''lr'' then Inr (c_x c ! 30)
          else if name = ''fp'' then Inr (c_x c ! 29)
          else if name = ''xzr'' \<or> name = ''wzr'' then Inr 0
          else case general_name name of
                 Some (n, narrow) \<Rightarrow> Inr (if narrow then c_x c ! n AND 0xffffffff else c_x c ! n)
               | None \<Rightarrow> Inl (Errorf ''arm64: unknown register %q''))"

definition SetRegister :: "CPU \<Rightarrow> string \<Rightarrow> u64 \<Rightarrow> go_error option \<times> CPU" where
  "SetRegister c name0 v =
     (let name = ToLower name0 in
      case systemIndex name of
        Some j \<Rightarrow> (let c' = c\<lparr>c_system := (c_system c)[j := v]\<rparr>
                   in (None, if j \<le> 4 then ClearTranslationCache c' else c'))
      | None \<Rightarrow>
          if name = ''daif'' then (None, c\<lparr>c_daif := v AND 0x3c0\<rparr>)
          else if name = ''pmccntr_el0'' then (None, c\<lparr>c_cycles := v\<rparr>)
          else if name = ''pmcr_el0''
          then (None, (if v AND 4 \<noteq> 0 then c\<lparr>c_cycles := 0\<rparr> else c)\<lparr>c_pmcr := v AND 0x79\<rparr>)
          else if name = ''pmovsclr_el0'' then (None, c\<lparr>c_pmovs := c_pmovs c AND NOT v\<rparr>)
          else if name = ''pmintenset_el1'' then (None, c\<lparr>c_pminten := c_pminten c OR (v AND 0x80000000)\<rparr>)
          else if name = ''pmintenclr_el1'' then (None, c\<lparr>c_pminten := c_pminten c AND NOT (v AND 0x80000000)\<rparr>)
          else if name = ''pmccfiltr_el0'' then (None, c\<lparr>c_pmfilter := v\<rparr>)
          else if name = ''pmuserenr_el0'' then (None, c\<lparr>c_pmuser := v AND 15\<rparr>)
          else if name = ''cntfrq_el0''
          then if v = 0 \<or> v > 0xffffffff then (Some (Errorf ''arm64: invalid counter frequency''), c)
               else (None, c\<lparr>c_frequency := v\<rparr>)
          else if name = ''cntpct_el0'' \<or> name = ''cntvct_el0'' then (None, c\<lparr>c_ticks := v\<rparr>)
          else if name = ''pmcntenset_el0'' then (None, c\<lparr>c_pmcnten := c_pmcnten c OR (v AND 0x80000000)\<rparr>)
          else if name = ''pmcntenclr_el0'' then (None, c\<lparr>c_pmcnten := c_pmcnten c AND NOT (v AND 0x80000000)\<rparr>)
          else if name = ''pc'' then (None, c\<lparr>c_pc := v\<rparr>)
          else if name = ''sp'' then (None, c\<lparr>c_sp := v\<rparr>)
          else if name = ''nzcv'' then (None, c\<lparr>c_nzcv := v AND 0xf0000000\<rparr>)
          else if name = ''current_el''
          then if v \<noteq> 0 \<and> v \<noteq> 4 \<and> v \<noteq> 8 \<and> v \<noteq> 12 then (Some (Errorf ''arm64: invalid CurrentEL %#x''), c)
               else (None, ClearTranslationCache (c\<lparr>c_currentEL := v\<rparr>))
          else if name = ''lr'' then (None, c\<lparr>c_x := (c_x c)[30 := v]\<rparr>)
          else if name = ''fp'' then (None, c\<lparr>c_x := (c_x c)[29 := v]\<rparr>)
          else if name = ''xzr'' \<or> name = ''wzr'' then (None, c)
          else case general_name name of
                 Some (n, narrow) \<Rightarrow> (None, c\<lparr>c_x := (c_x c)[n := if narrow then v AND 0xffffffff else v]\<rparr>)
               | None \<Rightarrow> (Some (Errorf ''arm64: unknown register %q''), c))"


subsection \<open>Creation and cloning\<close>

definition zero_CPU :: CPU where
  "zero_CPU = \<lparr>c_DisableDecodeCache = False,
     c_decodeCache = replicate 1024 \<lparr>de_word = 0, de_class = opUnknown\<rparr>,
     c_DisableTranslationCache = False, c_translations = empty_translations,
     c_exclusiveAddress = 0, c_exclusiveSize = 0, c_exclusiveValid = False,
     c_x = replicate 31 0, c_sp = 0, c_pc = 0, c_nzcv = 0, c_currentEL = 0, c_daif = 0, c_cycles = 0,
     c_pmcr = 0, c_pmcnten = 0, c_divider = 0, c_pmovs = 0, c_pminten = 0, c_pmfilter = 0, c_pmuser = 0,
     c_ticks = 0, c_frequency = 0, c_system = replicate 24 0, c_q = replicate 32 zero16\<rparr>"

definition New :: CPU where
  "New = fold (\<lambda>(name, v) c. snd (SetRegister c name v))
     [(''id_aa64pfr0_el1'', 0x11), (''id_aa64dfr0_el1'', 0x106), (''id_aa64mmfr0_el1'', 0x0f000005),
      (''midr_el1'', 0x000f0000), (''ctr_el0'', 0x8444c004), (''dczid_el0'', 0x10)] zero_CPU"

definition CPU_Clone :: "CPU \<Rightarrow> CPU" where
  "CPU_Clone c = ClearTranslationCache c"

definition Vector :: "CPU \<Rightarrow> int \<Rightarrow> go_error + bytes" where
  "Vector c index =
     (if index < 0 \<or> index \<ge> int (length (c_q c)) then Inl (Errorf ''arm64: vector index out of range'')
      else Inr (c_q c ! nat index))"

definition SetVector :: "CPU \<Rightarrow> int \<Rightarrow> bytes \<Rightarrow> go_error option \<times> CPU" where
  "SetVector c index v =
     (if index < 0 \<or> index \<ge> int (length (c_q c)) then (Some (Errorf ''arm64: vector index out of range''), c)
      else (None, c\<lparr>c_q := (c_q c)[nat index := v]\<rparr>))"

subsection \<open>Counters\<close>

definition advance_one :: "CPU \<Rightarrow> CPU" where
  "advance_one c0 =
     (let c = c0\<lparr>c_ticks := c_ticks c0 + 1\<rparr> in
      if bit (c_pmcr c) 0 \<and> bit (c_pmcnten c) 31 \<and>
         \<not> (c_currentEL c = 4 \<and> bit (c_pmfilter c) 31 \<or> c_currentEL c = 0 \<and> bit (c_pmfilter c) 30)
      then let c = c\<lparr>c_divider := c_divider c + 1\<rparr>;
               c = (if c_pmcr c AND 8 = 0 \<or> c_divider c mod 64 = 0
                    then let previous = c_cycles c;
                             c = c\<lparr>c_cycles := c_cycles c + 1\<rparr>
                         in if c_cycles c = 0 \<or> c_pmcr c AND 64 = 0 \<and> previous AND 0xffffffff = 0xffffffff
                            then c\<lparr>c_pmovs := c_pmovs c OR push_bit 31 1\<rparr> else c
                    else c)
           in if c_pmcr c AND 64 = 0 then c\<lparr>c_cycles := c_cycles c AND 0xffffffff\<rparr> else c
      else c)"

definition AdvanceInstructions :: "CPU \<Rightarrow> nat \<Rightarrow> CPU" where
  "AdvanceInstructions c n = (advance_one ^^ n) c"

subsection \<open>System instructions\<close>

text \<open>\<open>MRS\<close> and \<open>MSR\<close> of a register that \<open>Register\<close> and \<open>SetRegister\<close> name.\<close>

definition move_named :: "CPU \<Rightarrow> bool \<Rightarrow> nat \<Rightarrow> string \<Rightarrow> go_error option \<times> CPU" where
  "move_named c rd_read rd name =
     (if rd_read then (None, w_reg c rd (case Register c name of Inr v \<Rightarrow> v | Inl _ \<Rightarrow> 0) 64 False)
      else SetRegister c name (r_reg c rd False))"

text \<open>\<open>None\<close> is \<open>(false, nil)\<close>: no register has the encoding.\<close>

definition systemInstruction :: "CPU \<Rightarrow> u32 \<Rightarrow> (go_error option \<times> CPU) option" where
  "systemInstruction c i =
     (let encoding = drop_bit 5 i AND 0xffff;
          rd_read = bit i 21;
          rd = rd_of i in
      if encoding \<ge> 0xdf00 \<and> encoding \<le> 0xdf02
      then let name = [''cntfrq_el0'', ''cntpct_el0'', ''cntvct_el0''] ! unat (encoding - 0xdf00) in
           Some (if rd_read then move_named c True rd name
                 else if encoding = 0xdf00 then SetRegister c name (r_reg c rd False)
                 else (Some (Errorf ''arm64: write to read-only %s''), c))
      else if encoding = 0xc4f1 then Some (move_named c rd_read rd ''pmintenset_el1'')
      else if encoding = 0xc4f2 then Some (move_named c rd_read rd ''pmintenclr_el1'')
      else if encoding = 0xdf7f then Some (move_named c rd_read rd ''pmccfiltr_el0'')
      else if encoding = 0xdcf0 then Some (move_named c rd_read rd ''pmuserenr_el0'')
      else if encoding \<ge> 0xdce0 \<and> encoding \<le> 0xdce3
      then Some (move_named c rd_read rd
             ([''pmcr_el0'', ''pmcntenset_el0'', ''pmcntenclr_el0'', ''pmovsclr_el0''] ! unat (encoding - 0xdce0)))
      else if encoding = 0xdce8
      then Some (None, if rd_read then w_reg c rd (c_cycles c) 64 False else c\<lparr>c_cycles := r_reg c rd False\<rparr>)
      else if encoding = 0xda10
      then Some (None, if rd_read then w_reg c rd (c_nzcv c) 64 False
                       else c\<lparr>c_nzcv := r_reg c rd False AND 0xf0000000\<rparr>)
      else if encoding = 0xda11
      then Some (if c_currentEL c = 0 then (Some (Errorf ''arm64: DAIF access at EL0''), c)
                 else if rd_read then (None, w_reg c rd (c_daif c) 64 False)
                 else (None, c\<lparr>c_daif := r_reg c rd False AND 0x3c0\<rparr>))
      else case index_where (\<lambda>(_, e). e = encoding) systemRegisters of
             None \<Rightarrow> None
           | Some j \<Rightarrow>
               (let name = fst (systemRegisters ! j) in
                Some (if c_currentEL c = 0 \<and> name \<notin> {''tpidr_el0'', ''tpidrro_el0'', ''ctr_el0'', ''dczid_el0''}
                      then (Some (Errorf ''arm64: %s access at EL0''), c)
                      else if rd_read then (None, w_reg c rd (c_system c ! j) 64 False)
                      else if take 3 name = ''id_'' \<or> name \<in> {''midr_el1'', ''mpidr_el1'', ''ctr_el0'', ''dczid_el0''}
                      then (Some (Errorf ''arm64: write to read-only %s''), c)
                      else let c' = c\<lparr>c_system := (c_system c)[j := r_reg c rd False]\<rparr>
                           in (None, if j \<le> 4 then ClearTranslationCache c' else c'))))"

end
