(* ===== verification/Arm64_Decode.thy ===== *)
theory Arm64_Decode
  imports Arm64_State
begin

text \<open>
  Instruction decoding, \<open>src/emulator/arm64/decode.go\<close>: the ordered encoding matches and the decode cache in front of
  them, with the proof that the cache never changes a decoding.
\<close>

definition classifyInstruction :: "u32 \<Rightarrow> instruction_class" where
  "classifyInstruction i =
     (if i AND 0xbf20fc00 = 0x0e20bc00 \<or> i AND 0x9f20f400 = 0x0e20a400 then opPairwise
      else if i AND 0x9f20fc00 = 0x0e203400 \<or> i AND 0x9f20fc00 = 0x0e203c00 then opVectorCompare
      else if i AND 0xbf3ffc00 = 0x0e20a800 then opVectorCompareZero
      else if i AND 0xffffffe0 = 0xd50b7a20 \<or> i AND 0xffffffe0 = 0xd50b7b20 \<or> i AND 0xffffffe0 = 0xd50b7e20 \<or> i AND 0xffffffe0 = 0xd5087620 then opDataCache
      else if i AND 0xffffffe0 = 0xd5087500 \<or> i AND 0xffffffe0 = 0xd5087100 then opICacheAll
      else if i AND 0xffffffe0 = 0xd50b7520 then opICacheAddress
      else if i AND 0xbfe0fc00 = 0x0e003c00 \<or> i AND 0xbfe0fc00 = 0x0e002c00 then opVectorExtract
      else if i AND 0x9f20dc00 = 0x0e201000 then opAddWide
      else if i AND 0xbf3ffc00 = 0x0e31b800 then opVectorSum
      else if i AND 0x9f80fc00 = 0x0f00a400 then opShiftLong
      else if i AND 0x3fbffc00 = 0x089ffc00 then opAcquireRelease
      else if i AND 0xbf000000 = 0x0d000000 then opVectorSingleStructure
      else if i AND 0x9f20fc00 = 0x0e208400 then opVectorAddSub
      else if i AND 0xffe0fc00 = 0x4e001c00 then opVectorInsert
      else if i = 0xd503229f then opCSDB
      else if i AND 0x7ffffc00 = 0x5ac00000 then opReverseBits
      else if i AND 0x9f3ffc00 = 0x0e303800 then opAddLong
      else if i AND 0xbf80fc00 = 0x0f008400 then opShiftNarrow
      else if i AND 0xbf20fc00 = 0x2e208c00 \<or> i AND 0xbf3ffc00 = 0x0e209800 then opVectorEqual
      else if i AND 0xfffff0ff = 0xd503305f then opClearExclusive
      else if i AND 0x3fa00000 = 0x08000000 \<and> drop_bit 10 i AND 31 = 31 then opExclusive
      else if i AND 0x3f20fc00 = 0x38200000 \<or> i AND 0x3f20fc00 = 0x38203000 then opAtomicReadModifyWrite
      else if i AND 0xff600000 = 0x9b200000 then opMultiplyLong
      else if i AND 0xffe0fc00 = 0x9b407c00 \<or> i AND 0xffe0fc00 = 0x9bc07c00 then opMultiplyHigh
      else if i = 0xd503237f \<or> i = 0xd50323ff then opPointerAuthHint
      else if i AND 0xfffffc00 = 0x9e660000 \<or> i AND 0xfffffc00 = 0x1e260000 then opVectorToGeneral
      else if i AND 0xfffffc00 = 0x9e670000 \<or> i AND 0xfffffc00 = 0x1e270000 then opGeneralToVector
      else if i AND 0xbf200000 = 0x0c000000 then opVectorStructures
      else if i AND 0x9f20fc00 = 0x0e201c00 then opVectorLogical
      else if i AND 0xbfe0fc00 = 0x0e000c00 then opVectorDuplicate
      else if i AND 0xffffffe0 = 0xd5088700 \<or> i AND 0xffffffe0 = 0xd50887e0 \<or> i AND 0xffffffe0 = 0xd5088720 \<or> i AND 0xffffffe0 = 0xd5088760 \<or> i AND 0xffffffe0 = 0xd50887a0 then opTLBI
      else if i = 0xd5033fdf \<or> i AND 0xfffff0ff = 0xd503309f \<or> i AND 0xfffff0ff = 0xd50330bf then opBarrier
      else if i AND 0xffffffe0 = 0xd5087800 \<or> i AND 0xffffffe0 = 0xd5087820 then opAddressTranslate
      else if i AND 0xfffff0df = 0xd50340df then opDAIFImmediate
      else if i AND 0xffd00000 = 0xd5100000 then opSystem
      else if i AND 0xffffffe0 = 0xd5384240 then opCurrentEL
      else if i AND 0x9ff80c00 = 0x0f000400 then opVectorImmediate
      else if i = 0xd503201f then opNop
      else if i AND 0xfffffc1f = 0xd65f0000 then opReturn
      else if i AND 0xfffffc1f = 0xd61f0000 then opBranchReg
      else if i AND 0xfffffc1f = 0xd63f0000 then opBranchLinkReg
      else if i AND 0x7c000000 = 0x14000000 then opBranchImmediate
      else if i AND 0xff000010 = 0x54000000 then opBranchConditional
      else if i AND 0x7e000000 = 0x34000000 then opCompareBranch
      else if i AND 0x7e000000 = 0x36000000 then opTestBranch
      else if i AND 0x1f000000 = 0x10000000 then opAddress
      else if i AND 0x1f800000 = 0x12800000 then opMoveWide
      else if i AND 0x1f000000 = 0x11000000 \<or> i AND 0x1f000000 = 0x0b000000 then opAddSub
      else if i AND 0x1fe0fc00 = 0x1a000000 then opAddCarry
      else if i AND 0x1f000000 = 0x0a000000 \<or> i AND 0x1f800000 = 0x12000000 then opLogical
      else if i AND 0x1f800000 = 0x13000000 then opBitfield
      else if i AND 0x1f800000 = 0x13800000 then opExtract
      else if i AND 0x1fe00000 = 0x1a400000 then opConditionalCompare
      else if i AND 0x1fe00000 = 0x1a800000 then opConditionalSelect
      else if i AND 0x7ffffc00 = 0x5ac01000 then opCountLeadingZeros
      else if i AND 0x7ffffc00 = 0x5ac00400 \<or> i AND 0x7ffffc00 = 0x5ac00800 \<or> i AND 0xfffffc00 = 0xdac00c00 then opReverseBytes
      else if i AND 0x7fe00000 = 0x1ac00000 then opDataTwoSource
      else if i AND 0x1fe00000 = 0x1b000000 then opMultiplyAdd
      else if i AND 0x3a000000 = 0x28000000 then opLoadStorePair
      else if i AND 0x3b000000 = 0x39000000 \<or> i AND 0x3b000000 = 0x38000000 then opLoadStore
      else if i AND 0x3b000000 = 0x18000000 then opLoadLiteral
      else opUnknown)"

definition decode_slot :: "u32 \<Rightarrow> nat" where
  "decode_slot i = unat ((i XOR drop_bit 10 i XOR drop_bit 20 i) AND 1023)"

definition decode :: "CPU \<Rightarrow> u32 \<Rightarrow> instruction_class \<times> CPU" where
  "decode c i =
     (if c_DisableDecodeCache c then (classifyInstruction i, c)
      else let e = c_decodeCache c ! decode_slot i in
           if de_word e = i then (de_class e, c)
           else let cl = classifyInstruction i
                in (cl, c\<lparr>c_decodeCache := (c_decodeCache c)[decode_slot i := \<lparr>de_word = i, de_class = cl\<rparr>]\<rparr>))"

subsection \<open>The cache is transparent\<close>

definition decode_cache_ok :: "CPU \<Rightarrow> bool" where
  "decode_cache_ok c \<longleftrightarrow> length (c_decodeCache c) = 1024 \<and>
     (\<forall>e \<in> set (c_decodeCache c). de_class e = classifyInstruction (de_word e))"

lemma decode_slot_bound: "decode_slot i < 1024"
  using word_and_le1 [of "i XOR drop_bit 10 i XOR drop_bit 20 i" 1023] by (simp add: decode_slot_def word_le_nat_alt)

lemma decode_sound:
  assumes "decode_cache_ok c"
  shows "fst (decode c i) = classifyInstruction i" and "decode_cache_ok (snd (decode c i))"
proof -
  have "c_decodeCache c ! decode_slot i \<in> set (c_decodeCache c)"
    using assms decode_slot_bound [of i] by (simp add: decode_cache_ok_def)
  then show "fst (decode c i) = classifyInstruction i"
    using assms by (auto simp: decode_def Let_def decode_cache_ok_def)
  show "decode_cache_ok (snd (decode c i))"
    using assms set_update_subset_insert [of "c_decodeCache c" "decode_slot i" "\<lparr>de_word = i, de_class = classifyInstruction i\<rparr>"]
    by (auto simp: decode_def Let_def decode_cache_ok_def)
qed

lemma classify_zero: "classifyInstruction 0 = opUnknown"
  by (simp add: classifyInstruction_def)

end
