(* ===== verification/Arm64_MMU.thy ===== *)
theory Arm64_MMU
  imports Arm64_Decode
begin

text \<open>
  Memory accesses of the ARM64 interpreter: \<open>src/emulator/arm64/mmu.go\<close>, \<open>translation_cache.go\<close> and
  \<open>exclusive.go\<close>. A \<open>cpu.Memory\<close> is either the concrete address space, which the translation code recognises, or
  another implementation, whose three methods are a parameter. Table walks of an address space subscribe to the pages they
  read, and successful walks are cached until the tracked version changes.
\<close>

subsection \<open>Physical memory\<close>

datatype 'd guest = Space address_space | Device 'd

record 'd device_ops =
  dev_CheckMemory :: "'d \<Rightarrow> u64 \<Rightarrow> nat \<Rightarrow> access \<Rightarrow> go_error option \<times> 'd"
  dev_ReadMemory :: "'d \<Rightarrow> u64 \<Rightarrow> nat \<Rightarrow> access \<Rightarrow> (go_error + bytes) \<times> 'd"
  dev_WriteMemory :: "'d \<Rightarrow> u64 \<Rightarrow> bytes \<Rightarrow> go_error option \<times> 'd"

text \<open>A read fills a destination of \<open>n\<close> bytes, which starts zeroed.\<close>

definition fill :: "nat \<Rightarrow> bytes \<Rightarrow> bytes" where
  "fill n bs = take n (bs @ replicate n 0)"

fun phys_Check :: "'d device_ops \<Rightarrow> 'd guest \<Rightarrow> u64 \<Rightarrow> nat \<Rightarrow> access \<Rightarrow> go_error option \<times> 'd guest" where
  "phys_Check ops (Space m) a n access = (CheckMemory m a (int n) access, Space m)"
| "phys_Check ops (Device d) a n access = (let (e, d') = dev_CheckMemory ops d a n access in (e, Device d'))"

fun phys_Read :: "'d device_ops \<Rightarrow> 'd guest \<Rightarrow> u64 \<Rightarrow> nat \<Rightarrow> access \<Rightarrow> (go_error + bytes) \<times> 'd guest" where
  "phys_Read ops (Space m) a n access = (let (r, m') = ReadMemory m a n access in (r, Space m'))"
| "phys_Read ops (Device d) a n access =
     (let (r, d') = dev_ReadMemory ops d a n access in (map_sum id (fill n) r, Device d'))"

fun phys_Write :: "'d device_ops \<Rightarrow> 'd guest \<Rightarrow> u64 \<Rightarrow> bytes \<Rightarrow> go_error option \<times> 'd guest" where
  "phys_Write ops (Space m) a bs = (let (e, m') = WriteMemory m a bs in (e, Space m'))"
| "phys_Write ops (Device d) a bs = (let (e, d') = dev_WriteMemory ops d a bs in (e, Device d'))"

subsection \<open>The table walk\<close>

definition readDescriptor :: "'d device_ops \<Rightarrow> 'd guest \<Rightarrow> u64 \<Rightarrow> (go_error + u64) \<times> 'd guest" where
  "readDescriptor ops m a =
     (case phys_Read ops m a 8 Read_access of
        (Inl e, m') \<Rightarrow> (Inl e, m')
      | (Inr b, m') \<Rightarrow> (Inr (lane b 0 8), m'))"

definition track :: "CPU \<Rightarrow> 'd guest \<Rightarrow> u64 \<Rightarrow> 'd guest" where
  "track c m a =
     (case m of
        Space ram \<Rightarrow> if c_DisableTranslationCache c then m else Space (TrackPageWrites ram a)
      | Device _ \<Rightarrow> m)"

text \<open>What the tables of the higher levels deny.\<close>

record walk_rights =
  wr_readOnly :: bool
  wr_userDenied :: bool
  wr_pxn :: bool
  wr_uxn :: bool

definition leaf :: "CPU \<Rightarrow> u64 \<Rightarrow> u64 \<Rightarrow> access \<Rightarrow> nat \<Rightarrow> walk_rights \<Rightarrow> u64 \<Rightarrow> go_error + u64 \<times> u64" where
  "leaf c address va access level rights d =
     (let shift = 12 + 9 * (3 - level) in
      if \<not> bit d 10 then Inl (TranslationFault address (8 + of_nat level))
      else let user = (c_currentEL c = 0) in
      if bit access 1 \<and> (wr_readOnly rights \<or> bit d 7) \<or>
         user \<and> (wr_userDenied rights \<or> \<not> bit d 6) \<or>
         bit access 2 \<and> (\<not> user \<and> (wr_pxn rights \<or> bit d 53) \<or> user \<and> (wr_uxn rights \<or> bit d 54))
      then Inl (TranslationFault address (12 + of_nat level))
      else let physical = ((d AND 0x0000fffffffff000) AND NOT (mask64 shift)) OR (va AND mask64 shift);
               attribute = drop_bit (unat (drop_bit 2 d AND 7) * 8) (c_system c ! 4) AND 255
           in Inr (physical, push_bit 56 attribute OR push_bit 11 1 OR push_bit 7 (drop_bit 8 d AND 3) OR push_bit 9 1))"

function walk_loop :: "'d device_ops \<Rightarrow> CPU \<Rightarrow> u64 \<Rightarrow> u64 \<Rightarrow> access \<Rightarrow> nat \<Rightarrow> u64 \<Rightarrow> walk_rights \<Rightarrow> 'd guest \<Rightarrow>
    (go_error + u64 \<times> u64) \<times> 'd guest" where
  "walk_loop ops c address va access level table rights m =
     (if level \<le> 3
      then let shift = 12 + 9 * (3 - level);
               index = drop_bit shift va AND 511;
               m = track c m (table + index * 8)
           in case readDescriptor ops m (table + index * 8) of
                (Inl e, m) \<Rightarrow> (Inl (Wrapped ''arm64: translation table read: %w'' e), m)
              | (Inr d, m) \<Rightarrow>
                  let kind = d AND 3 in
                  if kind = 0 \<or> kind = 2 \<or> level = 0 \<and> kind = 1 \<or> level = 3 \<and> kind \<noteq> 3
                  then (Inl (TranslationFault address (4 + of_nat level)), m)
                  else if kind = 3 \<and> level < 3
                  then walk_loop ops c address va access (level + 1) (d AND 0x0000fffffffff000)
                         \<lparr>wr_readOnly = wr_readOnly rights \<or> bit d 62, wr_userDenied = wr_userDenied rights \<or> bit d 61,
                          wr_pxn = wr_pxn rights \<or> bit d 59, wr_uxn = wr_uxn rights \<or> bit d 60\<rparr> m
                  else (leaf c address va access level rights d, m)
      else (Inl (TranslationFault address 7), m))"
  by pat_completeness auto
termination
  by (relation "measure (\<lambda>(ops, c, address, va, access, level, table, rights, m). 4 - level)") auto

declare walk_loop.simps [simp del]

text \<open>The regime of an address: tag handling, table base and address size of the lower or the upper half.\<close>

record regime =
  rg_va :: u64
  rg_tsize :: nat
  rg_ttbr :: u64
  rg_disabled :: bool
  rg_granule4k :: bool

definition regime_of :: "CPU \<Rightarrow> u64 \<Rightarrow> regime" where
  "regime_of c address =
     (let tcr = c_system c ! 3 in
      if bit address 55
      then \<lparr>rg_va = (if bit tcr 38 then address OR 0xff00000000000000 else address),
            rg_tsize = unat (drop_bit 16 tcr AND 63), rg_ttbr = c_system c ! 2,
            rg_disabled = bit tcr 23, rg_granule4k = (drop_bit 30 tcr AND 3 = 2)\<rparr>
      else \<lparr>rg_va = (if bit tcr 37 then address AND 0x00ffffffffffffff else address),
            rg_tsize = unat (tcr AND 63), rg_ttbr = c_system c ! 1,
            rg_disabled = bit tcr 7, rg_granule4k = (drop_bit 14 tcr AND 3 = 0)\<rparr>)"

definition walk :: "'d device_ops \<Rightarrow> CPU \<Rightarrow> 'd guest \<Rightarrow> u64 \<Rightarrow> access \<Rightarrow> (go_error + u64 \<times> u64) \<times> 'd guest" where
  "walk ops c m address access =
     (if \<not> bit (c_system c ! 0) 0 then (Inr (address, 0xff00000000000800), m)
      else if c_currentEL c > 4 then (Inl (Errorf ''arm64: EL2/EL3 translation is not implemented''), m)
      else let g = regime_of c address in
      if \<not> rg_granule4k g then (Inl (Errorf ''arm64: only 4 KiB translation granules are implemented''), m)
      else if rg_tsize g < 16 \<or> rg_tsize g > 39 then (Inl (Errorf ''arm64: unsupported TCR address size %d''), m)
      else let abits = 64 - rg_tsize g in
      if drop_bit abits (rg_va g) \<noteq> (if bit address 55 then mask64 (rg_tsize g) else 0)
      then (Inl (TranslationFault address 0), m)
      else let level = 4 - (abits - 12 + 8) div 9 in
      if rg_disabled g then (Inl (TranslationFault address (4 + of_nat level)), m)
      else walk_loop ops c address (rg_va g) access level (rg_ttbr g AND 0x0000fffffffff000)
             \<lparr>wr_readOnly = False, wr_userDenied = False, wr_pxn = False, wr_uxn = False\<rparr> m)"

subsection \<open>The translation cache\<close>

definition tlb_slot :: "u64 \<Rightarrow> access \<Rightarrow> nat" where
  "tlb_slot page access = unat ((page XOR ucast access * 61) AND 255)"

definition fresh_translations :: "address_space \<Rightarrow> translationCache" where
  "fresh_translations ram = empty_translations\<lparr>tc_memory := Some (as_ref ram), tc_version := as_trackedVersion ram\<rparr>"

definition cachedTranslate :: "'d device_ops \<Rightarrow> CPU \<Rightarrow> address_space \<Rightarrow> u64 \<Rightarrow> access \<Rightarrow>
    (go_error + u64 \<times> u64) \<times> CPU \<times> 'd guest" where
  "cachedTranslate ops c0 ram address access =
     (let t = c_translations c0;
          c = (if tc_memory t \<noteq> Some (as_ref ram) \<or> tc_version t \<noteq> as_trackedVersion ram
               then c0\<lparr>c_translations := fresh_translations ram\<rparr> else c0);
          page = drop_bit 12 address;
          k = tlb_slot page access;
          e = tc_entries (c_translations c) ! k in
      if te_valid e \<and> te_virtual e = page \<and> te_access e = access
      then (Inr (te_physical e OR (address AND 4095), te_attributes e), c, Space ram)
      else case walk ops c (Space ram) address access of
        (Inl err, m) \<Rightarrow> (Inl err, c, m)
      | (Inr (pa, attributes), m) \<Rightarrow>
          (Inr (pa, attributes),
           c\<lparr>c_translations := (c_translations c)\<lparr>tc_entries := (tc_entries (c_translations c))[k :=
               \<lparr>te_virtual = page, te_physical = pa AND NOT 4095, te_attributes = attributes, te_access = access,
                te_valid = True\<rparr>]\<rparr>\<rparr>,
           m))"

definition translate :: "'d device_ops \<Rightarrow> CPU \<Rightarrow> 'd guest \<Rightarrow> u64 \<Rightarrow> access \<Rightarrow>
    (go_error + u64 \<times> u64) \<times> CPU \<times> 'd guest" where
  "translate ops c m address access =
     (case m of
        Space ram \<Rightarrow>
          if bit (c_system c ! 0) 0 \<and> \<not> c_DisableTranslationCache c
          then cachedTranslate ops c ram address access
          else (let (r, m') = walk ops c m address access in (r, c, m'))
      | Device _ \<Rightarrow> (let (r, m') = walk ops c m address access in (r, c, m')))"

definition Translate :: "'d device_ops \<Rightarrow> CPU \<Rightarrow> 'd guest \<Rightarrow> u64 \<Rightarrow> access \<Rightarrow> (go_error + u64) \<times> CPU \<times> 'd guest" where
  "Translate ops c m address access =
     (case translate ops c m address access of
        (Inl e, c', m') \<Rightarrow> (Inl e, c', m')
      | (Inr (pa, _), c', m') \<Rightarrow> (Inr pa, c', m'))"

subsection \<open>Translated accesses\<close>

type_synonym span = "u64 \<times> nat"

abbreviation page_room :: "u64 \<Rightarrow> nat" where
  "page_room a \<equiv> 4096 - unat (a AND 4095)"

lemma page_room_pos: "0 < page_room a"
  using word_and_le1 [of a 4095] by (simp add: word_le_nat_alt)

function spans_loop :: "'d device_ops \<Rightarrow> CPU \<Rightarrow> 'd guest \<Rightarrow> u64 \<Rightarrow> nat \<Rightarrow> access \<Rightarrow> span list \<Rightarrow>
    (go_error + span list) \<times> CPU \<times> 'd guest" where
  "spans_loop ops c m a n access acc =
     (if n = 0 then (Inr acc, c, m)
      else let len = min n (page_room a) in
        case Translate ops c m a access of
          (Inl e, c, m) \<Rightarrow> (Inl e, c, m)
        | (Inr pa, c, m) \<Rightarrow>
            (case phys_Check ops m pa len access of
               (Some e, m) \<Rightarrow> (Inl e, c, m)
             | (None, m) \<Rightarrow> spans_loop ops c m (a + of_nat len) (n - len) access (acc @ [(pa, len)])))"
  by pat_completeness auto
termination
  using page_room_pos
  by (relation "measure (\<lambda>(ops, c, m, a, n, access, acc). n)") (auto simp del: diff_is_0_eq)

declare spans_loop.simps [simp del]

text \<open>\<open>spans\<close>; the length of a buffer is never negative.\<close>

definition spans :: "'d device_ops \<Rightarrow> CPU \<Rightarrow> 'd guest \<Rightarrow> u64 \<Rightarrow> nat \<Rightarrow> access \<Rightarrow>
    (go_error + span list) \<times> CPU \<times> 'd guest" where
  "spans ops c m a n access =
     (if n > unat ((NOT 0 :: u64) - a) then (Inl (Errorf ''arm64: overflowing virtual access''), c, m)
      else spans_loop ops c m a n access [])"

definition one_page :: "u64 \<Rightarrow> nat \<Rightarrow> bool" where
  "one_page a n \<longleftrightarrow> n > 0 \<and> n \<le> page_room a \<and> n \<le> unat ((NOT 0 :: u64) - a)"

definition tm_Check :: "'d device_ops \<Rightarrow> CPU \<Rightarrow> 'd guest \<Rightarrow> u64 \<Rightarrow> nat \<Rightarrow> access \<Rightarrow> go_error option \<times> CPU \<times> 'd guest" where
  "tm_Check ops c m a n access =
     (if one_page a n
      then case Translate ops c m a access of
             (Inl e, c, m) \<Rightarrow> (Some e, c, m)
           | (Inr pa, c, m) \<Rightarrow> (let (e, m) = phys_Check ops m pa n access in (e, c, m))
      else case spans ops c m a n access of
             (Inl e, c, m) \<Rightarrow> (Some e, c, m)
           | (Inr _, c, m) \<Rightarrow> (None, c, m))"

fun read_spans :: "'d device_ops \<Rightarrow> 'd guest \<Rightarrow> span list \<Rightarrow> access \<Rightarrow> (go_error + bytes) \<times> 'd guest" where
  "read_spans ops m [] access = (Inr [], m)"
| "read_spans ops m ((pa, len) # ss) access =
     (case phys_Read ops m pa len access of
        (Inl e, m) \<Rightarrow> (Inl e, m)
      | (Inr bs, m) \<Rightarrow>
          (case read_spans ops m ss access of
             (Inl e, m) \<Rightarrow> (Inl e, m)
           | (Inr rest, m) \<Rightarrow> (Inr (bs @ rest), m)))"

fun write_spans :: "'d device_ops \<Rightarrow> 'd guest \<Rightarrow> span list \<Rightarrow> bytes \<Rightarrow> go_error option \<times> 'd guest" where
  "write_spans ops m [] bs = (None, m)"
| "write_spans ops m ((pa, len) # ss) bs =
     (case phys_Write ops m pa (take len bs) of
        (Some e, m) \<Rightarrow> (Some e, m)
      | (None, m) \<Rightarrow> write_spans ops m ss (drop len bs))"

definition tm_Read :: "'d device_ops \<Rightarrow> CPU \<Rightarrow> 'd guest \<Rightarrow> u64 \<Rightarrow> nat \<Rightarrow> access \<Rightarrow> (go_error + bytes) \<times> CPU \<times> 'd guest" where
  "tm_Read ops c m a n access =
     (if one_page a n
      then case Translate ops c m a access of
             (Inl e, c, m) \<Rightarrow> (Inl e, c, m)
           | (Inr pa, c, m) \<Rightarrow> (let (r, m) = phys_Read ops m pa n access in (r, c, m))
      else case spans ops c m a n access of
             (Inl e, c, m) \<Rightarrow> (Inl e, c, m)
           | (Inr ss, c, m) \<Rightarrow> (let (r, m) = read_spans ops m ss access in (r, c, m)))"

definition tm_Write :: "'d device_ops \<Rightarrow> CPU \<Rightarrow> 'd guest \<Rightarrow> u64 \<Rightarrow> bytes \<Rightarrow> go_error option \<times> CPU \<times> 'd guest" where
  "tm_Write ops c m a bs =
     (if one_page a (length bs)
      then case Translate ops c m a Write_access of
             (Inl e, c, m) \<Rightarrow> (Some e, c, m)
           | (Inr pa, c, m) \<Rightarrow> (let (e, m) = phys_Write ops m pa bs in (e, c, m))
      else case spans ops c m a (length bs) Write_access of
             (Inl e, c, m) \<Rightarrow> (Some e, c, m)
           | (Inr ss, c, m) \<Rightarrow> (let (e, m) = write_spans ops m ss bs in (e, c, m)))"

subsection \<open>The exclusive monitor\<close>

definition InvalidateExclusive :: "CPU \<Rightarrow> u64 \<Rightarrow> int \<Rightarrow> CPU" where
  "InvalidateExclusive c address n =
     (if n > 0 \<and> c_exclusiveValid c \<and> address < c_exclusiveAddress c + c_exclusiveSize c \<and>
         c_exclusiveAddress c < address + of_int n
      then c\<lparr>c_exclusiveValid := False\<rparr> else c)"

record vmem =
  vm_translated :: bool
  vm_exclusive :: bool

text \<open>The memory below the monitor: the tables when translation is on, the caller's memory otherwise.\<close>

definition under_Check :: "'d device_ops \<Rightarrow> vmem \<Rightarrow> CPU \<Rightarrow> 'd guest \<Rightarrow> u64 \<Rightarrow> nat \<Rightarrow> access \<Rightarrow>
    go_error option \<times> CPU \<times> 'd guest" where
  "under_Check ops v c m a n access =
     (if vm_translated v then tm_Check ops c m a n access
      else let (e, m) = phys_Check ops m a n access in (e, c, m))"

definition under_Read :: "'d device_ops \<Rightarrow> vmem \<Rightarrow> CPU \<Rightarrow> 'd guest \<Rightarrow> u64 \<Rightarrow> nat \<Rightarrow> access \<Rightarrow>
    (go_error + bytes) \<times> CPU \<times> 'd guest" where
  "under_Read ops v c m a n access =
     (if vm_translated v then tm_Read ops c m a n access
      else let (r, m) = phys_Read ops m a n access in (r, c, m))"

definition under_Write :: "'d device_ops \<Rightarrow> vmem \<Rightarrow> CPU \<Rightarrow> 'd guest \<Rightarrow> u64 \<Rightarrow> bytes \<Rightarrow>
    go_error option \<times> CPU \<times> 'd guest" where
  "under_Write ops v c m a bs =
     (if vm_translated v then tm_Write ops c m a bs
      else let (e, m) = phys_Write ops m a bs in (e, c, m))"

function monitor_spans :: "'d device_ops \<Rightarrow> CPU \<Rightarrow> 'd guest \<Rightarrow> u64 \<Rightarrow> nat \<Rightarrow> span list \<Rightarrow>
    (go_error + span list) \<times> CPU \<times> 'd guest" where
  "monitor_spans ops c m a n acc =
     (if n = 0 then (Inr acc, c, m)
      else let len = min n (page_room a) in
        case Translate ops c m a Write_access of
          (Inl e, c, m) \<Rightarrow> (Inl e, c\<lparr>c_exclusiveValid := False\<rparr>, m)
        | (Inr pa, c, m) \<Rightarrow> monitor_spans ops c m (a + of_nat len) (n - len) (acc @ [(pa, len)]))"
  by pat_completeness auto
termination
  using page_room_pos
  by (relation "measure (\<lambda>(ops, c, m, a, n, acc). n)") (auto simp del: diff_is_0_eq)

declare monitor_spans.simps [simp del]

definition em_Write :: "'d device_ops \<Rightarrow> vmem \<Rightarrow> CPU \<Rightarrow> 'd guest \<Rightarrow> u64 \<Rightarrow> bytes \<Rightarrow> go_error option \<times> CPU \<times> 'd guest" where
  "em_Write ops v c m a bs =
     (case monitor_spans ops c m a (length bs) [] of
        (Inl e, c, m) \<Rightarrow> (Some e, c, m)
      | (Inr ss, c, m) \<Rightarrow>
          (case under_Write ops v c m a bs of
             (Some e, c, m) \<Rightarrow> (Some e, c, m)
           | (None, c, m) \<Rightarrow> (None, fold (\<lambda>(pa, len) c. InvalidateExclusive c pa (int len)) ss c, m)))"

definition v_Write :: "'d device_ops \<Rightarrow> vmem \<Rightarrow> CPU \<Rightarrow> 'd guest \<Rightarrow> u64 \<Rightarrow> bytes \<Rightarrow> go_error option \<times> CPU \<times> 'd guest" where
  "v_Write ops v c m a bs = (if vm_exclusive v then em_Write ops v c m a bs else under_Write ops v c m a bs)"

end
