(* ===== verification/Arm64_Vector.thy ===== *)
theory Arm64_Vector
  imports Arm64_State
begin

text \<open>
  The vector instructions of \<open>step\<close> in \<open>src/emulator/arm64/cpu.go\<close> that touch registers only, one definition for each case of the
  instruction switch. The result is the error, if any, and the processor. A vector register is a list of
  16 bytes; \<open>var value [16]byte\<close> is \<open>zero16\<close> and assignments into it are \<open>overwrite\<close>.
\<close>

definition unsupported :: go_error where
  "unsupported = Errorf ''arm64: unsupported instruction at %#x: %08x (%s)''"

type_synonym cpu_result = "go_error option \<times> CPU"

abbreviation qreg :: "CPU \<Rightarrow> nat \<Rightarrow> bytes" where
  "qreg c n \<equiv> c_q c ! n"

definition set_q :: "CPU \<Rightarrow> nat \<Rightarrow> bytes \<Rightarrow> CPU" where
  "set_q c n v = c\<lparr>c_q := (c_q c)[n := v]\<rparr>"

definition vec_bytes :: "u32 \<Rightarrow> nat" where
  "vec_bytes i = (if bit i 30 then 16 else 8)"

definition elem_bytes :: "u32 \<Rightarrow> nat" where
  "elem_bytes i = 2 ^ fld i 22 3"

text \<open>The lane offsets \<open>j := 0; j < n; j += size\<close>.\<close>

definition lanes_of :: "nat \<Rightarrow> nat \<Rightarrow> nat list" where
  "lanes_of n sz = map ((*) sz) [0..<n div sz]"

definition greater_than :: "u32 \<Rightarrow> u64 \<Rightarrow> u64 \<Rightarrow> nat \<Rightarrow> bool" where
  "greater_than i a b nbits = (if bit i 29 then a > b else sint (sext a nbits) > sint (sext b nbits))"

definition exec_Pairwise :: "u32 \<Rightarrow> CPU \<Rightarrow> cpu_result" where
  "exec_Pairwise i c =
     (let sz = elem_bytes i; n = vec_bytes i; add = (i AND 0xbf20fc00 = 0x0e20bc00) in
      if sz = 8 \<and> (\<not> add \<or> n = 8) then (Some unsupported, c)
      else let half_bytes = (\<lambda>half reg value. fold (\<lambda>j value.
                 let a = lane (qreg c reg) (j * 2 * sz) sz;
                     b = lane (qreg c reg) (j * 2 * sz + sz) sz;
                     v = (if add then a + b
                          else if greater_than i a b (sz * 8) \<noteq> bit i 11 then a else b)
                 in overwrite (half * n div 2 + j * sz) (reg_bytes v sz) value) [0..<n div (2 * sz)] value)
           in (None, set_q c (rd_of i) (half_bytes 1 (rm_of i) (half_bytes 0 (rn_of i) zero16))))"

definition exec_VectorCompare :: "u32 \<Rightarrow> CPU \<Rightarrow> cpu_result" where
  "exec_VectorCompare i c =
     (let sz = elem_bytes i; n = vec_bytes i in
      if sz = 8 \<and> n = 8 then (Some unsupported, c)
      else (None, set_q c (rd_of i) (fold (\<lambda>j value.
             let a = lane (qreg c (rn_of i)) j sz; b = lane (qreg c (rm_of i)) j sz in
             if greater_than i a b (8 * sz) \<or> bit i 11 \<and> a = b then overwrite j (replicate sz 255) value else value)
             (lanes_of n sz) zero16)))"

definition exec_VectorCompareZero :: "u32 \<Rightarrow> CPU \<Rightarrow> cpu_result" where
  "exec_VectorCompareZero i c =
     (let sz = elem_bytes i; n = vec_bytes i in
      if sz = 8 \<and> n = 8 then (Some unsupported, c)
      else (None, set_q c (rd_of i) (fold (\<lambda>j value.
             if qreg c (rn_of i) ! (j + sz - 1) AND 0x80 \<noteq> 0 then overwrite j (replicate sz 255) value else value)
             (lanes_of n sz) zero16)))"

definition exec_VectorExtract :: "u32 \<Rightarrow> CPU \<Rightarrow> cpu_result" where
  "exec_VectorExtract i c =
     (let imm = drop_bit 16 i AND 31 in
      if imm = 0 then (Some unsupported, c)
      else let log = TrailingZeros32 imm; sz = 2 ^ log; wide = bit i 30; sgnd = \<not> bit i 12 in
      if log > 3 \<or> \<not> sgnd \<and> wide \<noteq> (sz = 8) \<or> sgnd \<and> (sz = 8 \<or> sz = 4 \<and> \<not> wide) then (Some unsupported, c)
      else let index = unat (drop_bit (log + 1) imm);
               v = lane (qreg c (rn_of i)) (index * sz) sz
           in (None, w_reg c (rd_of i) (if sgnd then sext v (sz * 8) else v) (if wide then 64 else 32) False))"

definition exec_AddWide :: "u32 \<Rightarrow> CPU \<Rightarrow> cpu_result" where
  "exec_AddWide i c =
     (let sz = elem_bytes i in
      if sz = 8 then (Some unsupported, c)
      else let base = (if bit i 30 then 8 else 0) in
      (None, set_q c (rd_of i) (fold (\<lambda>j value.
         let a = lane (qreg c (rn_of i)) (j * 2 * sz) (2 * sz);
             b0 = lane (qreg c (rm_of i)) (base + j * sz) sz;
             b = (if bit i 29 then b0 else sext b0 (sz * 8));
             v = (if bit i 13 then a - b else a + b)
         in overwrite (j * 2 * sz) (reg_bytes v (2 * sz)) value) [0..<8 div sz] zero16)))"

definition exec_VectorSum :: "u32 \<Rightarrow> CPU \<Rightarrow> cpu_result" where
  "exec_VectorSum i c =
     (let sz = elem_bytes i; n = vec_bytes i in
      if sz = 8 \<or> sz = 4 \<and> n = 8 then (Some unsupported, c)
      else let sum = fold (\<lambda>j s. s + (\<Sum>k\<leftarrow>[0..<sz]. push_bit (8 * k) (ucast (qreg c (rn_of i) ! (j + k)) :: u64))) (lanes_of n sz) 0
           in (None, set_q c (rd_of i) (overwrite 0 (reg_bytes sum sz) zero16)))"

definition exec_ShiftLong :: "u32 \<Rightarrow> CPU \<Rightarrow> cpu_result" where
  "exec_ShiftLong i c =
     (let imm = fld i 16 127 in
      if imm < 8 \<or> imm \<ge> 64 then (Some unsupported, c)
      else let lane_bits = 2 ^ (Len32 (of_nat imm) - 1);
               sz = lane_bits div 8;
               amount = imm - lane_bits;
               base = (if bit i 30 then 8 else 0)
           in (None, set_q c (rd_of i) (fold (\<lambda>j value.
                 let l0 = lane (qreg c (rn_of i)) (base + j * sz) sz;
                     l = (if bit i 29 then l0 else sext l0 lane_bits)
                 in overwrite (j * 2 * sz) (reg_bytes (push_bit amount l) (2 * sz)) value) [0..<8 div sz] zero16)))"

definition exec_VectorAddSub :: "u32 \<Rightarrow> CPU \<Rightarrow> cpu_result" where
  "exec_VectorAddSub i c =
     (let sz = elem_bytes i; n = vec_bytes i in
      if sz = 8 \<and> n = 8 then (Some unsupported, c)
      else (None, set_q c (rd_of i) (fold (\<lambda>j value.
             let a = lane (qreg c (rn_of i)) j sz; b = lane (qreg c (rm_of i)) j sz
             in overwrite j (reg_bytes (if bit i 29 then a - b else a + b) sz) value) (lanes_of n sz) zero16)))"

definition exec_VectorInsert :: "u32 \<Rightarrow> CPU \<Rightarrow> cpu_result" where
  "exec_VectorInsert i c =
     (let imm = drop_bit 16 i AND 31 in
      if imm = 0 then (Some unsupported, c)
      else let log = TrailingZeros32 imm in
      if log > 3 then (Some unsupported, c)
      else let sz = 2 ^ log; index = unat (drop_bit (log + 1) imm)
           in (None, set_q c (rd_of i)
                 (overwrite (index * sz) (reg_bytes (r_reg c (rn_of i) False) sz) (qreg c (rd_of i)))))"

definition exec_AddLong :: "u32 \<Rightarrow> CPU \<Rightarrow> cpu_result" where
  "exec_AddLong i c =
     (let sz = elem_bytes i; n = vec_bytes i in
      if sz = 8 \<or> sz = 4 \<and> n = 8 then (Some unsupported, c)
      else let sum = fold (\<lambda>j s. let l = lane (qreg c (rn_of i)) j sz
                            in s + (if bit i 29 then l else sext l (sz * 8))) (lanes_of n sz) 0
           in (None, set_q c (rd_of i) (overwrite 0 (reg_bytes sum (2 * sz)) zero16)))"

definition exec_ShiftNarrow :: "u32 \<Rightarrow> CPU \<Rightarrow> cpu_result" where
  "exec_ShiftNarrow i c =
     (let imm = fld i 16 127; h = imm div 8 in
      if h = 0 \<or> h \<ge> 8 then (Some unsupported, c)
      else let element_bits = 8 * 2 ^ (Len32 (of_nat h) - 1);
               amount = 2 * element_bits - imm;
               sz = element_bits div 8;
               source = qreg c (rn_of i);
               (value0, base) = (if bit i 30 then (qreg c (rd_of i), 8) else (zero16, 0))
           in (None, set_q c (rd_of i) (fold (\<lambda>j value.
                 overwrite (base + j * sz) (reg_bytes (drop_bit amount (lane source (j * 2 * sz) (2 * sz))) sz) value)
                 [0..<8 div sz] value0)))"

definition exec_VectorEqual :: "u32 \<Rightarrow> CPU \<Rightarrow> cpu_result" where
  "exec_VectorEqual i c =
     (let sz = elem_bytes i; n = vec_bytes i in
      if sz = 8 \<and> n = 8 then (Some unsupported, c)
      else (None, set_q c (rd_of i) (fold (\<lambda>j value.
             if list_all (\<lambda>k. qreg c (rn_of i) ! (j + k) =
                  (if i AND 0xbf20fc00 = 0x2e208c00 then qreg c (rm_of i) ! (j + k) else 0)) [0..<sz]
             then overwrite j (replicate sz 255) value else value) (lanes_of n sz) zero16)))"

definition exec_VectorToGeneral :: "u32 \<Rightarrow> CPU \<Rightarrow> cpu_result" where
  "exec_VectorToGeneral i c = (None, w_reg c (rd_of i) (lane (qreg c (rn_of i)) 0 8) (width_of i) False)"

definition exec_GeneralToVector :: "u32 \<Rightarrow> CPU \<Rightarrow> cpu_result" where
  "exec_GeneralToVector i c =
     (None, set_q c (rd_of i) (overwrite 0 (reg_bytes (r_reg c (rn_of i) False AND mask64 (width_of i)) 8) zero16))"

definition exec_VectorLogical :: "u32 \<Rightarrow> CPU \<Rightarrow> cpu_result" where
  "exec_VectorLogical i c =
     (let op = (if bit i 29 then 4 else 0) + fld i 22 3 in
      (None, set_q c (rd_of i) (fold (\<lambda>j value.
         let a = qreg c (rn_of i) ! j; b = qreg c (rm_of i) ! j; d = qreg c (rd_of i) ! j in
         value[j := (if op = 0 then a AND b else if op = 1 then a AND NOT b
                     else if op = 2 then a OR b else if op = 3 then a OR NOT b
                     else if op = 4 then a XOR b else if op = 5 then (a AND d) OR (b AND NOT d)
                     else if op = 6 then (a AND b) OR (d AND NOT b) else (a AND NOT b) OR (d AND b))])
         [0..<vec_bytes i] zero16)))"

definition exec_VectorDuplicate :: "u32 \<Rightarrow> CPU \<Rightarrow> cpu_result" where
  "exec_VectorDuplicate i c =
     (let element = fld i 16 31; n = vec_bytes i in
      if element \<noteq> 1 \<and> element \<noteq> 2 \<and> element \<noteq> 4 \<and> element \<noteq> 8 then (Some unsupported, c)
      else if element = 8 \<and> n = 8 then (Some unsupported, c)
      else let v = r_reg c (rn_of i) False
           in (None, set_q c (rd_of i) (fold (\<lambda>j value. value[j := ucast (drop_bit (8 * (j mod element)) v)]) [0..<n] zero16)))"

definition exec_VectorImmediate :: "u32 \<Rightarrow> CPU \<Rightarrow> cpu_result" where
  "exec_VectorImmediate i c =
     (let imm = (of_nat (fld i 16 7 * 32 + fld i 5 31) :: u64); mode = fld i 12 15; op = bit i 29;
          merge = (mode < 12 \<and> odd mode);
          shifted = (if mode < 8 then Some (4, push_bit (mode div 2 * 8) imm)
               else if mode < 12 then Some (2, push_bit (mode div 2 mod 2 * 8) imm)
               else if mode < 14 then Some (4, push_bit (8 * (mode - 11)) imm OR mask64 (8 * (mode - 11)))
               else if mode = 14
               then if op then Some (8, fold (\<lambda>j v. if bit imm j then v OR push_bit (j * 8) 255 else v) [0..<8] 0)
                    else Some (1, imm)
               else None) in
      case shifted of
        None \<Rightarrow> (Some unsupported, c)
      | Some (sz, v0) \<Rightarrow>
          let v = (if op \<and> mode \<noteq> 14 then NOT v0 else v0); previous = qreg c (rd_of i)
          in (None, set_q c (rd_of i) (fold (\<lambda>j value.
                let b = ucast (drop_bit (8 * (j mod sz)) v)
                in value[j := (if merge then if op then b AND previous ! j else b OR previous ! j else b)])
                [0..<vec_bytes i] zero16)))"

end
