(* ===== verification/Arm64_Data.thy ===== *)
theory Arm64_Data
  imports Arm64_Vector
begin

text \<open>
  The integer, system and branch instructions of \<open>step\<close> in \<open>src/emulator/arm64/cpu.go\<close>, one definition for each case of the instruction
  switch. A branch returns the next program counter and the effect it reports to the caller.
\<close>

subsection \<open>System\<close>

definition exec_ICacheAll :: "CPU \<Rightarrow> cpu_result" where
  "exec_ICacheAll c =
     (if c_currentEL c = 0 then (Some (Errorf ''arm64: instruction cache invalidation at EL0''), c) else (None, c))"

definition exec_TLBI :: "CPU \<Rightarrow> cpu_result" where
  "exec_TLBI c =
     (let c = ClearTranslationCache c in
      if c_currentEL c = 0 then (Some (Errorf ''arm64: TLBI at EL0''), c) else (None, c))"

definition exec_ClearExclusive :: "CPU \<Rightarrow> cpu_result" where
  "exec_ClearExclusive c = (None, c\<lparr>c_exclusiveValid := False\<rparr>)"

definition exec_DAIFImmediate :: "u32 \<Rightarrow> CPU \<Rightarrow> cpu_result" where
  "exec_DAIFImmediate i c =
     (if c_currentEL c = 0 then (Some (Errorf ''arm64: DAIF immediate access at EL0''), c)
      else let v = push_bit 6 (of_nat (fld i 8 15))
           in (None, c\<lparr>c_daif := (if bit i 5 then c_daif c AND NOT v else c_daif c OR v)\<rparr>))"

definition exec_CurrentEL :: "u32 \<Rightarrow> CPU \<Rightarrow> cpu_result" where
  "exec_CurrentEL i c = (None, w_reg c (rd_of i) (c_currentEL c) 64 False)"

definition exec_System :: "u32 \<Rightarrow> CPU \<Rightarrow> cpu_result" where
  "exec_System i c =
     (if i AND 0xffffffe0 = 0xd5384240 then exec_CurrentEL i c
      else case systemInstruction c i of
        None \<Rightarrow> (Some unsupported, c)
      | Some r \<Rightarrow> r)"

subsection \<open>Integer data processing\<close>

definition exec_ReverseBits :: "u32 \<Rightarrow> CPU \<Rightarrow> cpu_result" where
  "exec_ReverseBits i c =
     (let v = Reverse64 (r_reg c (rn_of i) False AND mask64 (width_of i))
      in (None, w_reg c (rd_of i) (if width_of i = 32 then drop_bit 32 v else v) (width_of i) False))"

definition exec_MultiplyLong :: "u32 \<Rightarrow> CPU \<Rightarrow> cpu_result" where
  "exec_MultiplyLong i c =
     (let a0 = r_reg c (rn_of i) False AND 0xffffffff; b0 = r_reg c (rm_of i) False AND 0xffffffff;
          a = (if bit i 23 then a0 else sext a0 32); b = (if bit i 23 then b0 else sext b0 32);
          v = a * b; acc = r_reg c (fld i 10 31) False
      in (None, w_reg c (rd_of i) (if bit i 15 then acc - v else v + acc) 64 False))"

definition Mul64_hi :: "u64 \<Rightarrow> u64 \<Rightarrow> u64" where
  "Mul64_hi a b = of_nat (unat a * unat b div 2 ^ 64)"

definition exec_MultiplyHigh :: "u32 \<Rightarrow> CPU \<Rightarrow> cpu_result" where
  "exec_MultiplyHigh i c =
     (let a = r_reg c (rn_of i) False; b = r_reg c (rm_of i) False;
          hi = Mul64_hi a b;
          hi = (if \<not> bit i 23 \<and> sint a < 0 then hi - b else hi);
          hi = (if \<not> bit i 23 \<and> sint b < 0 then hi - a else hi)
      in (None, w_reg c (rd_of i) hi 64 False))"

definition exec_Address :: "u32 \<Rightarrow> CPU \<Rightarrow> cpu_result" where
  "exec_Address i c =
     (let imm = sext (of_nat (fld i 5 0x7ffff * 4 + fld i 29 3)) 21
      in (None, w_reg c (rd_of i)
            (if bit i 31 then (c_pc c AND NOT 4095) + push_bit 12 imm else c_pc c + imm) 64 False))"

definition exec_MoveWide :: "u32 \<Rightarrow> CPU \<Rightarrow> cpu_result" where
  "exec_MoveWide i c =
     (let s = fld i 21 3 in
      if width_of i = 32 \<and> s > 1 then (Some unsupported, c)
      else let v = push_bit (s * 16) (of_nat (fld i 5 0xffff)); opc = fld i 29 3 in
      if opc = 0 then (None, w_reg c (rd_of i) (NOT v) (width_of i) False)
      else if opc = 2 then (None, w_reg c (rd_of i) v (width_of i) False)
      else if opc = 3
      then (None, w_reg c (rd_of i) ((r_reg c (rd_of i) False AND NOT (push_bit (s * 16) 0xffff)) OR v) (width_of i) False)
      else (Some unsupported, c))"

text \<open>The second operand of \<open>ADD\<close> and \<open>SUB\<close>.\<close>

definition addsub_operand :: "u32 \<Rightarrow> CPU \<Rightarrow> u64 option" where
  "addsub_operand i c =
     (if i AND 0x1f000000 = 0x11000000
      then Some (if bit i 22 then push_bit 12 (of_nat (fld i 10 0xfff)) else of_nat (fld i 10 0xfff))
      else if bit i 21
      then let opt = fld i 13 7; n = 8 * 2 ^ (opt mod 4);
               b = r_reg c (rm_of i) False AND mask64 n;
               b = (if opt \<ge> 4 then sext b n else b); s = fld i 10 7
           in if s > 4 then None else Some (push_bit s b)
      else let s = fld i 10 63; kind = fld i 22 3
           in if s \<ge> width_of i \<or> kind = 3 then None
              else Some (shift64 (r_reg c (rm_of i) False) kind s (width_of i)))"

definition exec_AddSub :: "u32 \<Rightarrow> CPU \<Rightarrow> cpu_result" where
  "exec_AddSub i c =
     (let immediate = (i AND 0x1f000000 = 0x11000000);
          extended = (\<not> immediate \<and> bit i 21);
          flags = bit i 29;
          a = r_reg c (rn_of i) (immediate \<or> extended) in
      case addsub_operand i c of
        None \<Rightarrow> (Some unsupported, c)
      | Some b \<Rightarrow>
          let (res, c') = add_op c a (if bit i 30 then NOT b else b) (if bit i 30 then 1 else 0) (width_of i) flags
          in (None, w_reg c' (rd_of i) res (width_of i) (\<not> flags \<and> (immediate \<or> extended))))"

definition exec_AddCarry :: "u32 \<Rightarrow> CPU \<Rightarrow> cpu_result" where
  "exec_AddCarry i c =
     (let b = r_reg c (rm_of i) False;
          (res, c') = add_op c (r_reg c (rn_of i) False) (if bit i 30 then NOT b else b)
                        (drop_bit 29 (c_nzcv c) AND 1) (width_of i) (bit i 29)
      in (None, w_reg c' (rd_of i) res (width_of i) False))"

definition logical_operand :: "u32 \<Rightarrow> CPU \<Rightarrow> u64 option" where
  "logical_operand i c =
     (if i AND 0x1f800000 = 0x12000000
      then map_option fst (bitMasks (drop_bit 22 i AND 1) (drop_bit 10 i AND 63) (drop_bit 16 i AND 63) (width_of i) True)
      else let s = fld i 10 63 in
           if s \<ge> width_of i then None
           else let b = shift64 (r_reg c (rm_of i) False) (fld i 22 3) s (width_of i)
                in Some (if bit i 21 then NOT b else b))"

definition exec_Logical :: "u32 \<Rightarrow> CPU \<Rightarrow> cpu_result" where
  "exec_Logical i c =
     (case logical_operand i c of
        None \<Rightarrow> (Some unsupported, c)
      | Some b \<Rightarrow>
          let a = r_reg c (rn_of i) False; opc = fld i 29 3;
              v = (if opc = 0 \<or> opc = 3 then a AND b else if opc = 1 then a OR b else a XOR b) AND mask64 (width_of i);
              c' = (if opc = 3
                    then c\<lparr>c_nzcv := (if v = 0 then push_bit 30 1 else 0) OR
                                     (if drop_bit (width_of i - 1) v \<noteq> 0 then push_bit 31 1 else 0)\<rparr>
                    else c)
          in (None, w_reg c' (rd_of i) v (width_of i) (i AND 0x1f800000 = 0x12000000 \<and> opc \<noteq> 3)))"

definition exec_Bitfield :: "u32 \<Rightarrow> CPU \<Rightarrow> cpu_result" where
  "exec_Bitfield i c =
     (case bitMasks (drop_bit 22 i AND 1) (drop_bit 10 i AND 63) (drop_bit 16 i AND 63) (width_of i) False of
        None \<Rightarrow> (Some unsupported, c)
      | Some (wm, tm) \<Rightarrow>
          let src = r_reg c (rn_of i) False AND mask64 (width_of i);
              v = rotate64 src (fld i 16 63) (width_of i) AND wm;
              old = r_reg c (rd_of i) False; opc = fld i 29 3 in
          if opc = 0
          then let top = (if bit src (fld i 10 63) then NOT 0 else 0)
               in (None, w_reg c (rd_of i) ((v AND tm) OR (top AND NOT tm)) (width_of i) False)
          else if opc = 1
          then let v = (old AND NOT wm) OR v
               in (None, w_reg c (rd_of i) ((old AND NOT tm) OR (v AND tm)) (width_of i) False)
          else if opc = 2 then (None, w_reg c (rd_of i) (v AND tm) (width_of i) False)
          else (Some unsupported, c))"

definition exec_Extract :: "u32 \<Rightarrow> CPU \<Rightarrow> cpu_result" where
  "exec_Extract i c =
     (let s = fld i 10 63 in
      if s \<ge> width_of i then (Some unsupported, c)
      else let v = drop_bit s (r_reg c (rm_of i) False AND mask64 (width_of i));
               v = (if s \<noteq> 0 then v OR push_bit (width_of i - s) (r_reg c (rn_of i) False AND mask64 (width_of i)) else v)
           in (None, w_reg c (rd_of i) v (width_of i) False))"

definition exec_ConditionalCompare :: "u32 \<Rightarrow> CPU \<Rightarrow> cpu_result" where
  "exec_ConditionalCompare i c =
     (if condition c (fld i 12 15)
      then let b = (if bit i 11 then of_nat (rm_of i) else r_reg c (rm_of i) False)
           in (None, snd (add_op c (r_reg c (rn_of i) False) (if bit i 30 then NOT b else b)
                            (if bit i 30 then 1 else 0) (width_of i) True))
      else (None, c\<lparr>c_nzcv := push_bit 28 (of_nat (fld i 0 15))\<rparr>))"

definition exec_ConditionalSelect :: "u32 \<Rightarrow> CPU \<Rightarrow> cpu_result" where
  "exec_ConditionalSelect i c =
     (let v = (if condition c (fld i 12 15) then r_reg c (rn_of i) False
               else let v = r_reg c (rm_of i) False;
                        v = (if bit i 30 then NOT v else v)
                    in if bit i 10 then v + 1 else v)
      in (None, w_reg c (rd_of i) v (width_of i) False))"

definition exec_CountLeadingZeros :: "u32 \<Rightarrow> CPU \<Rightarrow> cpu_result" where
  "exec_CountLeadingZeros i c =
     (let v = r_reg c (rn_of i) False AND mask64 (width_of i)
      in (None, w_reg c (rd_of i) (of_nat (LeadingZeros64 v) - of_nat (64 - width_of i)) (width_of i) False))"

definition exec_ReverseBytes :: "u32 \<Rightarrow> CPU \<Rightarrow> cpu_result" where
  "exec_ReverseBytes i c =
     (let group = 2 ^ fld i 10 3; v = r_reg c (rn_of i) False;
          reversed = fold (\<lambda>base acc. fold (\<lambda>j acc.
              acc OR push_bit (8 * (base + group - 1 - j)) (drop_bit (8 * (base + j)) v AND 255)) [0..<group] acc)
            (map ((*) group) [0..<(width_of i div 8 + group - 1) div group]) 0
      in (None, w_reg c (rd_of i) reversed (width_of i) False))"

definition exec_DataTwoSource :: "u32 \<Rightarrow> CPU \<Rightarrow> cpu_result" where
  "exec_DataTwoSource i c =
     (let w = width_of i; a = r_reg c (rn_of i) False AND mask64 w; b = r_reg c (rm_of i) False AND mask64 w;
          opc = fld i 10 63 in
      if opc = 2 then (None, w_reg c (rd_of i) (if b \<noteq> 0 then a div b else 0) w False)
      else if opc = 3
      then (None, w_reg c (rd_of i) (if b \<noteq> 0 then of_int (sint (sext a w) sdiv sint (sext b w)) else 0) w False)
      else if 8 \<le> opc \<and> opc \<le> 11
      then (None, w_reg c (rd_of i) (shift64 a (opc - 8) (unat (b AND 0xffffffff) mod w) w) w False)
      else (Some unsupported, c))"

definition exec_MultiplyAdd :: "u32 \<Rightarrow> CPU \<Rightarrow> cpu_result" where
  "exec_MultiplyAdd i c =
     (let v = r_reg c (rn_of i) False * r_reg c (rm_of i) False; a = r_reg c (fld i 10 31) False
      in (None, w_reg c (rd_of i) (if bit i 15 then a - v else v + a) (width_of i) False))"

subsection \<open>Branches\<close>

type_synonym branch_result = "u64 \<times> Effect \<times> CPU"

definition branch_target :: "CPU \<Rightarrow> nat \<Rightarrow> nat \<Rightarrow> u64" where
  "branch_target c offset nbits = c_pc c + push_bit 2 (sext (of_nat offset) nbits)"

definition exec_Return :: "u32 \<Rightarrow> CPU \<Rightarrow> branch_result" where
  "exec_Return i c = (r_reg c (rn_of i) False, Return, c)"

definition exec_BranchReg :: "u32 \<Rightarrow> CPU \<Rightarrow> branch_result" where
  "exec_BranchReg i c = (r_reg c (rn_of i) False, Continue, c)"

definition link :: "CPU \<Rightarrow> CPU" where
  "link c = c\<lparr>c_x := (c_x c)[30 := c_pc c + 4]\<rparr>"

definition exec_BranchLinkReg :: "u32 \<Rightarrow> CPU \<Rightarrow> branch_result" where
  "exec_BranchLinkReg i c = (r_reg c (rn_of i) False, Call, link c)"

definition exec_BranchImmediate :: "u32 \<Rightarrow> CPU \<Rightarrow> branch_result" where
  "exec_BranchImmediate i c =
     (let target = branch_target c (fld i 0 0x3ffffff) 26
      in if bit i 31 then (target, Call, link c) else (target, Continue, c))"

definition exec_BranchConditional :: "u32 \<Rightarrow> CPU \<Rightarrow> branch_result" where
  "exec_BranchConditional i c =
     (if condition c (fld i 0 15) then branch_target c (fld i 5 0x7ffff) 19 else c_pc c + 4, Continue, c)"

definition exec_CompareBranch :: "u32 \<Rightarrow> CPU \<Rightarrow> branch_result" where
  "exec_CompareBranch i c =
     (if (r_reg c (rd_of i) False AND mask64 (width_of i) = 0) = (\<not> bit i 24)
      then branch_target c (fld i 5 0x7ffff) 19 else c_pc c + 4, Continue, c)"

definition exec_TestBranch :: "u32 \<Rightarrow> CPU \<Rightarrow> branch_result" where
  "exec_TestBranch i c =
     (let b = (if bit i 31 then 32 else 0) + fld i 19 31
      in (if (\<not> bit (r_reg c (rd_of i) False) b) = (\<not> bit i 24)
          then branch_target c (fld i 5 0x3fff) 14 else c_pc c + 4, Continue, c))"

end
