(* ===== verification/Arm64_Step.thy ===== *)
theory Arm64_Step
  imports Arm64_MMU Arm64_Data
begin

text \<open>
  The loads, stores, atomics and cache maintenance of \<open>step\<close>, the instruction dispatch and \<open>Step\<close> itself,
  \<open>src/emulator/arm64/cpu.go\<close>. Every operation threads the processor and the memory: translation fills caches and
  device memory may change on a read.
\<close>

type_synonym 'd mem_result = "go_error option \<times> CPU \<times> 'd guest"

subsection \<open>Loads and stores\<close>

definition exec_DataCache :: "'d device_ops \<Rightarrow> u32 \<Rightarrow> CPU \<Rightarrow> 'd guest \<Rightarrow> 'd mem_result" where
  "exec_DataCache ops i c m =
     (case Translate ops c m (r_reg c (rd_of i) False) Read_access of
        (Inl e, c, m) \<Rightarrow> (Some e, c, m)
      | (Inr _, c, m) \<Rightarrow> (None, c, m))"

definition exec_AcquireRelease :: "'d device_ops \<Rightarrow> vmem \<Rightarrow> u32 \<Rightarrow> CPU \<Rightarrow> 'd guest \<Rightarrow> 'd mem_result" where
  "exec_AcquireRelease ops v i c m =
     (let sz = 2 ^ fld i 30 3; address = r_reg c (rn_of i) True in
      if address AND of_nat (sz - 1) \<noteq> 0 then (Some (Errorf ''arm64: unaligned acquire/release access %#x''), c, m)
      else if bit i 22
      then case under_Read ops v c m address sz Read_access of
             (Inl e, c, m) \<Rightarrow> (Some e, c, m)
           | (Inr bs, c, m) \<Rightarrow> (None, loadReg c bs (rd_of i) False False, m)
      else v_Write ops v c m address (storeReg c sz (rd_of i) False))"

text \<open>The element size (as a power of two), lane index and replication of a single-structure access.\<close>

definition single_structure :: "u32 \<Rightarrow> (nat \<times> nat \<times> bool) option" where
  "single_structure i =
     (let q = fld i 30 1; s = fld i 12 1; sz = fld i 10 3; scale = fld i 14 3; ld = bit i 22 in
      if scale = 0 then Some (0, q * 8 + s * 4 + sz, False)
      else if scale = 1 then if odd sz then None else Some (1, q * 4 + s * 2 + sz div 2, False)
      else if scale = 2
      then if sz \<ge> 2 then None
           else if odd sz then if s \<noteq> 0 then None else Some (3, q, False)
           else Some (2, q * 2 + s, False)
      else if \<not> ld \<or> s \<noteq> 0 then None else Some (sz, 0, True))"

definition single_count :: "u32 \<Rightarrow> nat" where
  "single_count i = (if bit i 13 then 2 else 0) + fld i 21 1 + 1"

definition load_structure :: "u32 \<Rightarrow> nat \<Rightarrow> nat \<Rightarrow> bool \<Rightarrow> bytes \<Rightarrow> nat \<Rightarrow> CPU \<Rightarrow> CPU" where
  "load_structure i sz index replicated data j c =
     (let reg = (rd_of i + j) mod 32; bs = segment (j * sz) sz data in
      if replicated
      then set_q c reg (fold (\<lambda>k value. overwrite k bs value) (lanes_of (8 * 2 ^ fld i 30 1) sz) zero16)
      else set_q c reg (overwrite (index * sz) bs (qreg c reg)))"

definition exec_VectorSingleStructure :: "'d device_ops \<Rightarrow> vmem \<Rightarrow> u32 \<Rightarrow> CPU \<Rightarrow> 'd guest \<Rightarrow> 'd mem_result" where
  "exec_VectorSingleStructure ops v i c m =
     (if \<not> bit i 23 \<and> rm_of i \<noteq> 0 then (Some unsupported, c, m)
      else case single_structure i of
        None \<Rightarrow> (Some unsupported, c, m)
      | Some (scale, index, replicated) \<Rightarrow>
          let count = single_count i; sz = 2 ^ scale; address = r_reg c (rn_of i) True;
              finish = (\<lambda>c. if bit i 23
                 then w_reg c (rn_of i) (address + (if rm_of i \<noteq> 31 then r_reg c (rm_of i) False else of_nat (count * sz))) 64 True
                 else c)
          in if bit i 22
             then case under_Read ops v c m address (count * sz) Read_access of
                    (Inl e, c, m) \<Rightarrow> (Some e, c, m)
                  | (Inr data, c, m) \<Rightarrow>
                      (None, finish (fold (load_structure i sz index replicated data) [0..<count] c), m)
             else case v_Write ops v c m address
                         (concat (map (\<lambda>j. segment (index * sz) sz (qreg c ((rd_of i + j) mod 32))) [0..<count])) of
                    (Some e, c, m) \<Rightarrow> (Some e, c, m)
                  | (None, c, m) \<Rightarrow> (None, finish c, m))"

text \<open>\<open>LDADD\<close> and \<open>LDSET\<close>.\<close>

definition exec_AtomicReadModifyWrite :: "'d device_ops \<Rightarrow> vmem \<Rightarrow> u32 \<Rightarrow> CPU \<Rightarrow> 'd guest \<Rightarrow> 'd mem_result" where
  "exec_AtomicReadModifyWrite ops v i c m =
     (let sz = 2 ^ fld i 30 3; address = r_reg c (rn_of i) True; source = r_reg c (rm_of i) False in
      if address AND of_nat (sz - 1) \<noteq> 0 then (Some (Errorf ''arm64: unaligned atomic access %#x''), c, m)
      else case under_Check ops v c m address sz Write_access of
        (Some e, c, m) \<Rightarrow> (Some e, c, m)
      | (None, c, m) \<Rightarrow>
          (case under_Read ops v c m address sz Read_access of
             (Inl e, c, m) \<Rightarrow> (Some e, c, m)
           | (Inr data, c, m) \<Rightarrow>
               let old = lane data 0 sz;
                   new = (if fld i 12 15 = 3 then old OR source else old + source)
               in case v_Write ops v c m address (reg_bytes new sz) of
                    (Some e, c, m) \<Rightarrow> (Some e, c, m)
                  | (None, c, m) \<Rightarrow> (None, w_reg c (rd_of i) old (if sz = 8 then 64 else 32) False, m)))"

definition exec_Exclusive :: "'d device_ops \<Rightarrow> vmem \<Rightarrow> u32 \<Rightarrow> CPU \<Rightarrow> 'd guest \<Rightarrow> 'd mem_result" where
  "exec_Exclusive ops v i c m =
     (let sz = 2 ^ fld i 30 3; address = r_reg c (rn_of i) True in
      if address AND of_nat (sz - 1) \<noteq> 0 then (Some (Errorf ''arm64: unaligned exclusive access %#x''), c, m)
      else case Translate ops c m address Read_access of
        (Inl e, c, m) \<Rightarrow> (Some e, c, m)
      | (Inr pa, c, m) \<Rightarrow>
          if bit i 22
          then if rm_of i \<noteq> 31 then (Some unsupported, c, m)
               else case under_Read ops v c m address sz Read_access of
                 (Inl e, c, m) \<Rightarrow> (Some e, c, m)
               | (Inr data, c, m) \<Rightarrow>
                   (None, (loadReg c data (rd_of i) False False)
                      \<lparr>c_exclusiveAddress := pa, c_exclusiveSize := of_nat sz, c_exclusiveValid := True\<rparr>, m)
          else if c_exclusiveValid c \<and> c_exclusiveAddress c = pa \<and> c_exclusiveSize c = of_nat sz
          then case v_Write ops v c m address (storeReg c sz (rd_of i) False) of
                 (Some e, c, m) \<Rightarrow> (Some e, c, m)
               | (None, c, m) \<Rightarrow> (None, w_reg (c\<lparr>c_exclusiveValid := False\<rparr>) (rm_of i) 0 32 False, m)
          else (None, w_reg (c\<lparr>c_exclusiveValid := False\<rparr>) (rm_of i) 1 32 False, m))"

definition structure_count :: "u32 \<Rightarrow> (nat \<times> bool) option" where
  "structure_count i =
     (let k = fld i 12 15 in
      if k = 8 then Some (2, True) else if k = 4 then Some (3, True) else if k = 0 then Some (4, True)
      else if k = 7 then Some (1, False) else if k = 10 then Some (2, False) else if k = 6 then Some (3, False)
      else if k = 2 then Some (4, False) else None)"

definition structure_at :: "bool \<Rightarrow> nat \<Rightarrow> nat \<Rightarrow> nat \<Rightarrow> nat \<Rightarrow> nat \<Rightarrow> nat" where
  "structure_at interleave element count sz reg laneByte =
     (if interleave then (laneByte div element * count + reg) * element + laneByte mod element
      else reg * sz + laneByte)"

definition exec_VectorStructures :: "'d device_ops \<Rightarrow> vmem \<Rightarrow> u32 \<Rightarrow> CPU \<Rightarrow> 'd guest \<Rightarrow> 'd mem_result" where
  "exec_VectorStructures ops v i c m =
     (case structure_count i of
        None \<Rightarrow> (Some unsupported, c, m)
      | Some (count, interleave) \<Rightarrow>
          let sz = vec_bytes i; element = 2 ^ fld i 10 3 in
          if interleave \<and> sz = 8 \<and> element = 8 then (Some unsupported, c, m)
          else let at = structure_at interleave element count sz; address = r_reg c (rn_of i) True;
                   finish = (\<lambda>c. if bit i 23
                      then w_reg c (rn_of i) (address + (if rm_of i = 31 then of_nat (count * sz) else r_reg c (rm_of i) False)) 64 True
                      else c)
               in if bit i 22
                  then case under_Read ops v c m address (count * sz) Read_access of
                         (Inl e, c, m) \<Rightarrow> (Some e, c, m)
                       | (Inr data, c, m) \<Rightarrow>
                           (None, finish (fold (\<lambda>j c. set_q c ((rd_of i + j) mod 32)
                              (fold (\<lambda>k value. value[k := data ! at j k]) [0..<sz] zero16)) [0..<count] c), m)
                  else case v_Write ops v c m address (take (count * sz)
                              (fold (\<lambda>j data. fold (\<lambda>k data. data[at j k := qreg c ((rd_of i + j) mod 32) ! k]) [0..<sz] data)
                                [0..<count] (replicate 64 0))) of
                         (Some e, c, m) \<Rightarrow> (Some e, c, m)
                       | (None, c, m) \<Rightarrow> (None, finish c, m))"

definition exec_AddressTranslate :: "'d device_ops \<Rightarrow> u32 \<Rightarrow> CPU \<Rightarrow> 'd guest \<Rightarrow> 'd mem_result" where
  "exec_AddressTranslate ops i c m =
     (case translate ops c m (r_reg c (rd_of i) False) (if bit i 5 then Write_access else Read_access) of
        (Inl (TranslationFault _ status), c, m) \<Rightarrow> (None, c\<lparr>c_system := (c_system c)[10 := 1 OR push_bit 1 status]\<rparr>, m)
      | (Inl e, c, m) \<Rightarrow> (Some e, c, m)
      | (Inr (pa, attributes), c, m) \<Rightarrow>
          (None, c\<lparr>c_system := (c_system c)[10 := (pa AND 0x0000fffffffff000) OR attributes]\<rparr>, m))"

definition pair_size :: "u32 \<Rightarrow> nat option" where
  "pair_size i =
     (if bit i 26 then if 4 * 2 ^ fld i 30 3 > (16 :: nat) then None else Some (4 * 2 ^ fld i 30 3)
      else if fld i 30 3 = 3 then None
      else Some (if bit i 31 then 8 else 4))"

definition exec_LoadStorePair :: "'d device_ops \<Rightarrow> vmem \<Rightarrow> u32 \<Rightarrow> CPU \<Rightarrow> 'd guest \<Rightarrow> 'd mem_result" where
  "exec_LoadStorePair ops v i c m =
     (case pair_size i of
        None \<Rightarrow> (Some unsupported, c, m)
      | Some sz \<Rightarrow>
          let simd = bit i 26; base = r_reg c (rn_of i) True; offset = sext (of_nat (fld i 15 127)) 7 * of_nat sz;
              mode = fld i 23 3; addr = (if mode = 1 then base else base + offset); ld = bit i 22;
              second = fld i 10 31;
              finish = (\<lambda>c. if mode = 1 \<or> mode = 3 then w_reg c (rn_of i) (base + offset) 64 True else c)
          in case under_Check ops v c m addr (2 * sz) Write_access of
               (chk, c, m) \<Rightarrow>
                 if \<not> ld \<and> chk \<noteq> None then (chk, c, m)
                 else if ld
                 then case under_Read ops v c m addr (2 * sz) Read_access of
                        (Inl e, c, m) \<Rightarrow> (Some e, c, m)
                      | (Inr buf, c, m) \<Rightarrow>
                          let sgnd = \<not> simd \<and> fld i 30 3 = 1;
                              c = loadReg c (take sz buf) (rd_of i) simd sgnd;
                              c = loadReg c (drop sz buf) second simd sgnd
                          in (None, finish c, m)
                 else case v_Write ops v c m addr (storeReg c sz (rd_of i) simd @ storeReg c sz second simd) of
                        (Some e, c, m) \<Rightarrow> (Some e, c, m)
                      | (None, c, m) \<Rightarrow> (None, finish c, m))"

text \<open>The address of a single load or store and the base register's new value, when it is written back.\<close>

definition load_store_address :: "u32 \<Rightarrow> nat \<Rightarrow> CPU \<Rightarrow> (u64 \<times> u64 option) option" where
  "load_store_address i sz c =
     (let base = r_reg c (rn_of i) True in
      if i AND 0x3b000000 = 0x39000000 then Some (base + of_nat (fld i 10 0xfff) * of_nat sz, None)
      else if bit i 21
      then let opt = fld i 13 7; v = r_reg c (rm_of i) False;
               w = (if opt = 2 then Some (v AND 0xffffffff) else if opt = 3 \<or> opt = 7 then Some v
                    else if opt = 6 then Some (sext v 32) else None)
           in map_option (\<lambda>v. (base + (if bit i 12 then v * of_nat sz else v), None)) w
      else let updated = base + sext (of_nat (fld i 12 511)) 9; mode = fld i 10 3
           in Some (if mode \<noteq> 1 then updated else base, if mode = 1 \<or> mode = 3 then Some updated else None))"

definition exec_LoadStore :: "'d device_ops \<Rightarrow> vmem \<Rightarrow> u32 \<Rightarrow> CPU \<Rightarrow> 'd guest \<Rightarrow> 'd mem_result" where
  "exec_LoadStore ops v i c m =
     (let simd = bit i 26; op = fld i 22 3;
          sz = (if simd \<and> op \<ge> 2 then 16 else 2 ^ fld i 30 3) in
      if \<not> simd \<and> sz = 8 \<and> op \<ge> 2 then (Some unsupported, c, m)
      else case load_store_address i sz c of
        None \<Rightarrow> (Some unsupported, c, m)
      | Some (addr, updated) \<Rightarrow>
          let ld = (if simd then odd op else op \<noteq> 0);
              finish = (\<lambda>c. case updated of None \<Rightarrow> c | Some u \<Rightarrow> w_reg c (rn_of i) u 64 True)
          in if ld
             then case under_Read ops v c m addr sz Read_access of
                    (Inl e, c, m) \<Rightarrow> (Some e, c, m)
                  | (Inr buf, c, m) \<Rightarrow>
                      let c = loadReg c buf (rd_of i) simd (\<not> simd \<and> op \<ge> 2);
                          c = (if \<not> simd \<and> op = 3 then w_reg c (rd_of i) (r_reg c (rd_of i) False) 32 False else c)
                      in (None, finish c, m)
             else case v_Write ops v c m addr (storeReg c sz (rd_of i) simd) of
                    (Some e, c, m) \<Rightarrow> (Some e, c, m)
                  | (None, c, m) \<Rightarrow> (None, finish c, m))"

definition literal_size :: "u32 \<Rightarrow> nat option" where
  "literal_size i =
     (let op = fld i 30 3 in
      if bit i 26 then if 4 * 2 ^ op > (16 :: nat) then None else Some (4 * 2 ^ op)
      else if op = 1 then Some 8 else if op = 3 then None else Some 4)"

definition exec_LoadLiteral :: "'d device_ops \<Rightarrow> vmem \<Rightarrow> u32 \<Rightarrow> CPU \<Rightarrow> 'd guest \<Rightarrow> 'd mem_result" where
  "exec_LoadLiteral ops v i c m =
     (case literal_size i of
        None \<Rightarrow> (Some unsupported, c, m)
      | Some sz \<Rightarrow>
          (case under_Read ops v c m (branch_target c (fld i 5 0x7ffff) 19) sz Read_access of
             (Inl e, c, m) \<Rightarrow> (Some e, c, m)
           | (Inr buf, c, m) \<Rightarrow>
               (None, loadReg c buf (rd_of i) (bit i 26) (\<not> bit i 26 \<and> fld i 30 3 = 2), m)))"

subsection \<open>Dispatch\<close>

text \<open>The outcome of an instruction: the error, or the next program counter and the effect; the processor; the memory.\<close>

type_synonym 'd outcome = "(go_error + u64 \<times> Effect) \<times> CPU \<times> 'd guest"

definition on_cpu :: "cpu_result \<Rightarrow> 'd guest \<Rightarrow> u64 \<Rightarrow> 'd outcome" where
  "on_cpu r m nxt = (case r of (Some e, c) \<Rightarrow> (Inl e, c, m) | (None, c) \<Rightarrow> (Inr (nxt, Continue), c, m))"

definition on_mem :: "'d mem_result \<Rightarrow> u64 \<Rightarrow> 'd outcome" where
  "on_mem r nxt = (case r of (Some e, c, m) \<Rightarrow> (Inl e, c, m) | (None, c, m) \<Rightarrow> (Inr (nxt, Continue), c, m))"

definition on_branch :: "branch_result \<Rightarrow> 'd guest \<Rightarrow> 'd outcome" where
  "on_branch r m = (case r of (nxt, effect, c) \<Rightarrow> (Inr (nxt, effect), c, m))"

definition execute :: "'d device_ops \<Rightarrow> vmem \<Rightarrow> instruction_class \<Rightarrow> u32 \<Rightarrow> CPU \<Rightarrow> 'd guest \<Rightarrow> 'd outcome" where
  "execute ops v cl i c m =
     (let nxt = c_pc c + 4 in
      case cl of
        opUnknown \<Rightarrow> (Inl unsupported, c, m)
      | opPairwise \<Rightarrow> on_cpu (exec_Pairwise i c) m nxt
      | opVectorCompare \<Rightarrow> on_cpu (exec_VectorCompare i c) m nxt
      | opVectorCompareZero \<Rightarrow> on_cpu (exec_VectorCompareZero i c) m nxt
      | opDataCache \<Rightarrow> on_mem (exec_DataCache ops i c m) nxt
      | opICacheAll \<Rightarrow> on_cpu (exec_ICacheAll c) m nxt
      | opICacheAddress \<Rightarrow> on_mem (exec_DataCache ops i c m) nxt
      | opVectorExtract \<Rightarrow> on_cpu (exec_VectorExtract i c) m nxt
      | opAddWide \<Rightarrow> on_cpu (exec_AddWide i c) m nxt
      | opVectorSum \<Rightarrow> on_cpu (exec_VectorSum i c) m nxt
      | opShiftLong \<Rightarrow> on_cpu (exec_ShiftLong i c) m nxt
      | opAcquireRelease \<Rightarrow> on_mem (exec_AcquireRelease ops v i c m) nxt
      | opVectorSingleStructure \<Rightarrow> on_mem (exec_VectorSingleStructure ops v i c m) nxt
      | opVectorAddSub \<Rightarrow> on_cpu (exec_VectorAddSub i c) m nxt
      | opVectorInsert \<Rightarrow> on_cpu (exec_VectorInsert i c) m nxt
      | opCSDB \<Rightarrow> on_cpu (None, c) m nxt
      | opReverseBits \<Rightarrow> on_cpu (exec_ReverseBits i c) m nxt
      | opAddLong \<Rightarrow> on_cpu (exec_AddLong i c) m nxt
      | opShiftNarrow \<Rightarrow> on_cpu (exec_ShiftNarrow i c) m nxt
      | opVectorEqual \<Rightarrow> on_cpu (exec_VectorEqual i c) m nxt
      | opClearExclusive \<Rightarrow> on_cpu (exec_ClearExclusive c) m nxt
      | opExclusive \<Rightarrow> on_mem (exec_Exclusive ops v i c m) nxt
      | opAtomicReadModifyWrite \<Rightarrow> on_mem (exec_AtomicReadModifyWrite ops v i c m) nxt
      | opMultiplyLong \<Rightarrow> on_cpu (exec_MultiplyLong i c) m nxt
      | opMultiplyHigh \<Rightarrow> on_cpu (exec_MultiplyHigh i c) m nxt
      | opPointerAuthHint \<Rightarrow> on_cpu (None, c) m nxt
      | opVectorToGeneral \<Rightarrow> on_cpu (exec_VectorToGeneral i c) m nxt
      | opGeneralToVector \<Rightarrow> on_cpu (exec_GeneralToVector i c) m nxt
      | opVectorStructures \<Rightarrow> on_mem (exec_VectorStructures ops v i c m) nxt
      | opVectorLogical \<Rightarrow> on_cpu (exec_VectorLogical i c) m nxt
      | opVectorDuplicate \<Rightarrow> on_cpu (exec_VectorDuplicate i c) m nxt
      | opTLBI \<Rightarrow> on_cpu (exec_TLBI c) m nxt
      | opBarrier \<Rightarrow> on_cpu (None, c) m nxt
      | opAddressTranslate \<Rightarrow> on_mem (exec_AddressTranslate ops i c m) nxt
      | opDAIFImmediate \<Rightarrow> on_cpu (exec_DAIFImmediate i c) m nxt
      | opSystem \<Rightarrow> on_cpu (exec_System i c) m nxt
      | opCurrentEL \<Rightarrow> on_cpu (exec_CurrentEL i c) m nxt
      | opVectorImmediate \<Rightarrow> on_cpu (exec_VectorImmediate i c) m nxt
      | opNop \<Rightarrow> on_cpu (None, c) m nxt
      | opReturn \<Rightarrow> on_branch (exec_Return i c) m
      | opBranchReg \<Rightarrow> on_branch (exec_BranchReg i c) m
      | opBranchLinkReg \<Rightarrow> on_branch (exec_BranchLinkReg i c) m
      | opBranchImmediate \<Rightarrow> on_branch (exec_BranchImmediate i c) m
      | opBranchConditional \<Rightarrow> on_branch (exec_BranchConditional i c) m
      | opCompareBranch \<Rightarrow> on_branch (exec_CompareBranch i c) m
      | opTestBranch \<Rightarrow> on_branch (exec_TestBranch i c) m
      | opAddress \<Rightarrow> on_cpu (exec_Address i c) m nxt
      | opMoveWide \<Rightarrow> on_cpu (exec_MoveWide i c) m nxt
      | opAddSub \<Rightarrow> on_cpu (exec_AddSub i c) m nxt
      | opAddCarry \<Rightarrow> on_cpu (exec_AddCarry i c) m nxt
      | opLogical \<Rightarrow> on_cpu (exec_Logical i c) m nxt
      | opBitfield \<Rightarrow> on_cpu (exec_Bitfield i c) m nxt
      | opExtract \<Rightarrow> on_cpu (exec_Extract i c) m nxt
      | opConditionalCompare \<Rightarrow> on_cpu (exec_ConditionalCompare i c) m nxt
      | opConditionalSelect \<Rightarrow> on_cpu (exec_ConditionalSelect i c) m nxt
      | opCountLeadingZeros \<Rightarrow> on_cpu (exec_CountLeadingZeros i c) m nxt
      | opReverseBytes \<Rightarrow> on_cpu (exec_ReverseBytes i c) m nxt
      | opDataTwoSource \<Rightarrow> on_cpu (exec_DataTwoSource i c) m nxt
      | opMultiplyAdd \<Rightarrow> on_cpu (exec_MultiplyAdd i c) m nxt
      | opLoadStorePair \<Rightarrow> on_mem (exec_LoadStorePair ops v i c m) nxt
      | opLoadStore \<Rightarrow> on_mem (exec_LoadStore ops v i c m) nxt
      | opLoadLiteral \<Rightarrow> on_mem (exec_LoadLiteral ops v i c m) nxt)"

definition step :: "'d device_ops \<Rightarrow> vmem \<Rightarrow> CPU \<Rightarrow> 'd guest \<Rightarrow> (go_error + Effect) \<times> CPU \<times> 'd guest" where
  "step ops v c m =
     (if c_pc c AND 3 \<noteq> 0 then (Inl (Errorf ''arm64: unaligned PC %#x''), c, m)
      else case under_Read ops v c m (c_pc c) 4 Execute_access of
        (Inl e, c, m) \<Rightarrow> (Inl e, c, m)
      | (Inr data, c, m) \<Rightarrow>
          let i = (ucast (lane data 0 4) :: u32);
              (cl, c) = decode c i
          in case execute ops v cl i c m of
               (Inl e, c, m) \<Rightarrow> (Inl e, c, m)
             | (Inr (nxt, effect), c, m) \<Rightarrow> (Inr effect, AdvanceInstructions (c\<lparr>c_pc := nxt\<rparr>) 1, m))"

definition vmem_of :: "CPU \<Rightarrow> vmem" where
  "vmem_of c = \<lparr>vm_translated = bit (c_system c ! 0) 0, vm_exclusive = c_exclusiveValid c\<rparr>"

definition Step :: "'d device_ops \<Rightarrow> CPU \<Rightarrow> 'd guest \<Rightarrow> (go_error + Effect) \<times> CPU \<times> 'd guest" where
  "Step ops c m = step ops (vmem_of c) c m"

text \<open>\<open>VirtualMemory\<close> hands the same view to a debugger: reads and writes through the active tables and the monitor.\<close>

definition VirtualMemory_Read :: "'d device_ops \<Rightarrow> CPU \<Rightarrow> 'd guest \<Rightarrow> u64 \<Rightarrow> nat \<Rightarrow> access \<Rightarrow>
    (go_error + bytes) \<times> CPU \<times> 'd guest" where
  "VirtualMemory_Read ops c m a n access = under_Read ops (vmem_of c) c m a n access"

definition VirtualMemory_Write :: "'d device_ops \<Rightarrow> CPU \<Rightarrow> 'd guest \<Rightarrow> u64 \<Rightarrow> bytes \<Rightarrow> go_error option \<times> CPU \<times> 'd guest" where
  "VirtualMemory_Write ops c m a bs = v_Write ops (vmem_of c) c m a bs"

end
