(* ===== verification/Arm64_Frame.thy ===== *)
theory Arm64_Frame
  imports Arm64_Step
begin

text \<open>
  What no instruction of the ARM64 interpreter does: change the program counter or the clock before it completes, or
  change the shape of the register files. The lemmas follow the layers: translation touches the translation cache
  only, memory accesses touch the caches and the monitor, instructions touch registers.
\<close>

subsection \<open>Shape and frame\<close>

definition cpu_ok :: "CPU \<Rightarrow> bool" where
  "cpu_ok c \<longleftrightarrow> length (c_x c) = 31 \<and> length (c_system c) = 24 \<and> length (c_q c) = 32 \<and>
     (\<forall>v \<in> set (c_q c). length v = 16) \<and> decode_cache_ok c \<and> length (tc_entries (c_translations c)) = 256"

definition frame :: "CPU \<Rightarrow> CPU \<Rightarrow> bool" where
  "frame c c' \<longleftrightarrow> c_pc c' = c_pc c \<and> c_ticks c' = c_ticks c \<and> (cpu_ok c \<longrightarrow> cpu_ok c')"

named_theorems frame_intros \<open>operations that keep the frame\<close>

lemma frame_refl [frame_intros, simp]: "frame c c"
  by (simp add: frame_def)

lemma frame_trans: "frame c c' \<Longrightarrow> frame c' c'' \<Longrightarrow> frame c c''"
  by (simp add: frame_def)

lemma frame_ok: "frame c c' \<Longrightarrow> cpu_ok c \<Longrightarrow> cpu_ok c'"
  by (simp add: frame_def)

lemma frame_updates [frame_intros]:
  "frame c (c\<lparr>c_nzcv := v\<rparr>)" "frame c (c\<lparr>c_sp := v\<rparr>)" "frame c (c\<lparr>c_daif := v\<rparr>)" "frame c (c\<lparr>c_cycles := v\<rparr>)"
  "frame c (c\<lparr>c_pmcr := v\<rparr>)" "frame c (c\<lparr>c_pmovs := v\<rparr>)" "frame c (c\<lparr>c_pminten := v\<rparr>)" "frame c (c\<lparr>c_pmfilter := v\<rparr>)"
  "frame c (c\<lparr>c_pmuser := v\<rparr>)" "frame c (c\<lparr>c_frequency := v\<rparr>)" "frame c (c\<lparr>c_pmcnten := v\<rparr>)"
  "frame c (c\<lparr>c_currentEL := v\<rparr>)" "frame c (c\<lparr>c_exclusiveValid := b\<rparr>)"
  "frame c (c\<lparr>c_exclusiveAddress := v, c_exclusiveSize := w, c_exclusiveValid := b\<rparr>)"
  "frame c (c\<lparr>c_x := (c_x c)[n := v]\<rparr>)" "frame c (c\<lparr>c_system := (c_system c)[n := v]\<rparr>)"
  "frame c (c\<lparr>c_cycles := v, c_pmcr := w\<rparr>)"
  by (simp_all add: frame_def cpu_ok_def decode_cache_ok_def)

lemma frame_ClearTranslationCache [frame_intros]: "frame c (ClearTranslationCache c)"
  by (simp add: frame_def cpu_ok_def decode_cache_ok_def ClearTranslationCache_def empty_translations_def)

lemma frame_w_reg [frame_intros]: "frame c (w_reg c n v width sp)"
  by (simp add: w_reg_def Let_def frame_updates)

lemma cpu_ok_q: "cpu_ok c \<Longrightarrow> n < 32 \<Longrightarrow> length (qreg c n) = 16"
  by (simp add: cpu_ok_def)

lemma frame_set_q [frame_intros]:
  assumes "cpu_ok c \<Longrightarrow> length v = 16"
  shows "frame c (set_q c n v)"
proof -
  have "length w = 16" if "cpu_ok c" "w \<in> set ((c_q c)[n := v])" for w
    using that assms set_update_subset_insert [of "c_q c" n v] by (auto simp: cpu_ok_def)
  then show ?thesis by (auto simp: frame_def cpu_ok_def decode_cache_ok_def set_q_def)
qed

lemma frame_decode: "frame c (snd (decode c i))"
proof -
  have "c_x (snd (decode c i)) = c_x c" "c_system (snd (decode c i)) = c_system c" "c_q (snd (decode c i)) = c_q c"
    "c_translations (snd (decode c i)) = c_translations c" "c_pc (snd (decode c i)) = c_pc c"
    "c_ticks (snd (decode c i)) = c_ticks c"
    by (simp_all add: decode_def Let_def)
  then show ?thesis unfolding frame_def cpu_ok_def using decode_sound(2) [of c i] by simp
qed

lemma frame_loadReg [frame_intros]: "length src \<le> 16 \<Longrightarrow> frame c (loadReg c src n simd sgnd)"
  by (auto simp: loadReg_def Let_def frame_w_reg zero16_def intro!: frame_set_q [unfolded set_q_def])

lemma fld_bounds: "fld i s 1 < 2" "fld i s 3 < 4" "fld i s 7 < 8" "fld i s 15 < 16" "fld i s 31 < 32"
    "fld i s 63 < 64" "fld i s 127 < 128"
  using word_and_le1 [of "drop_bit s i" 1] word_and_le1 [of "drop_bit s i" 3] word_and_le1 [of "drop_bit s i" 7]
    word_and_le1 [of "drop_bit s i" 15] word_and_le1 [of "drop_bit s i" 31] word_and_le1 [of "drop_bit s i" 63]
    word_and_le1 [of "drop_bit s i" 127]
  by (simp_all add: fld_def word_le_nat_alt)

subsection \<open>Memory accesses\<close>

text \<open>Translation fills the translation cache and changes nothing else of the processor.\<close>

definition tlb_only :: "CPU \<Rightarrow> CPU \<Rightarrow> bool" where
  "tlb_only c c' \<longleftrightarrow> c' = c\<lparr>c_translations := c_translations c'\<rparr> \<and>
     (length (tc_entries (c_translations c)) = 256 \<longrightarrow> length (tc_entries (c_translations c')) = 256)"

lemma tlb_only_refl [simp]: "tlb_only c c"
  by (simp add: tlb_only_def)

lemma tlb_only_trans: "tlb_only c c' \<Longrightarrow> tlb_only c' c'' \<Longrightarrow> tlb_only c c''"
proof -
  assume a: "tlb_only c c'" and b: "tlb_only c' c''"
  obtain t where t: "c' = c\<lparr>c_translations := t\<rparr>" using a by (auto simp: tlb_only_def)
  obtain t' where "c'' = c'\<lparr>c_translations := t'\<rparr>" using b by (auto simp: tlb_only_def)
  with t a b show "tlb_only c c''" by (simp add: tlb_only_def)
qed

lemma tlb_only_frame: "tlb_only c c' \<Longrightarrow> frame c c'"
proof -
  assume a: "tlb_only c c'"
  obtain t where "c' = c\<lparr>c_translations := t\<rparr>" using a by (auto simp: tlb_only_def)
  with a show "frame c c'" by (simp add: tlb_only_def frame_def cpu_ok_def decode_cache_ok_def)
qed

abbreviation cpu_of :: "'a \<times> CPU \<times> 'm \<Rightarrow> CPU" where
  "cpu_of r \<equiv> fst (snd r)"

text \<open>The processor after the version check of the translation cache.\<close>

definition synced :: "CPU \<Rightarrow> address_space \<Rightarrow> CPU" where
  "synced c ram = (if tc_memory (c_translations c) \<noteq> Some (as_ref ram) \<or> tc_version (c_translations c) \<noteq> as_trackedVersion ram
     then c\<lparr>c_translations := fresh_translations ram\<rparr> else c)"

definition tlb_fill :: "CPU \<Rightarrow> u64 \<Rightarrow> access \<Rightarrow> u64 \<Rightarrow> u64 \<Rightarrow> CPU" where
  "tlb_fill c page access pa attributes =
     c\<lparr>c_translations := (c_translations c)\<lparr>tc_entries := (tc_entries (c_translations c))[tlb_slot page access :=
       \<lparr>te_virtual = page, te_physical = pa AND NOT 4095, te_attributes = attributes, te_access = access,
        te_valid = True\<rparr>]\<rparr>\<rparr>"

lemma cachedTranslate_eq:
  "cachedTranslate ops c ram a access =
     (let c1 = synced c ram; page = drop_bit 12 a; e = tc_entries (c_translations c1) ! tlb_slot page access in
      if te_valid e \<and> te_virtual e = page \<and> te_access e = access
      then (Inr (te_physical e OR (a AND 4095), te_attributes e), c1, Space ram)
      else case walk ops c1 (Space ram) a access of
        (Inl err, m) \<Rightarrow> (Inl err, c1, m)
      | (Inr (pa, attributes), m) \<Rightarrow> (Inr (pa, attributes), tlb_fill c1 page access pa attributes, m))"
  unfolding cachedTranslate_def Let_def synced_def tlb_fill_def by (rule refl)

lemma synced_tlb: "tlb_only c (synced c ram)"
  by (simp add: synced_def tlb_only_def fresh_translations_def empty_translations_def)

lemma tlb_fill_tlb: "tlb_only c (tlb_fill c page access pa attributes)"
  by (simp add: tlb_fill_def tlb_only_def)

lemma cachedTranslate_tlb: "tlb_only c (cpu_of (cachedTranslate ops c ram a access))"
  using synced_tlb [of c ram] tlb_only_trans [OF synced_tlb tlb_fill_tlb]
  by (auto simp: cachedTranslate_eq Let_def split: prod.split sum.split)

lemma translate_tlb: "tlb_only c (cpu_of (translate ops c m a access))"
  by (cases m) (simp_all add: translate_def cachedTranslate_tlb split: prod.split)

lemma Translate_tlb: "tlb_only c (cpu_of (Translate ops c m a access))"
  using translate_tlb [of c ops m a access]
  by (auto simp: Translate_def split: prod.split sum.split)

lemma spans_loop_tlb: "tlb_only c (cpu_of (spans_loop ops c m a n access acc))"
proof (induction ops c m a n access acc rule: spans_loop.induct)
  case (1 ops c m a n access acc)
  show ?case
  proof (cases "n = 0")
    case True
    then show ?thesis by (subst spans_loop.simps) simp
  next
    case False
    obtain r c1 m1 where t: "Translate ops c m a access = (r, c1, m1)" by (metis prod_cases3)
    have c1: "tlb_only c c1" using Translate_tlb [of c ops m a access] t by simp
    show ?thesis
    proof (cases r)
      case (Inl e)
      then show ?thesis using False t c1 by (subst spans_loop.simps) (simp add: Let_def)
    next
      case (Inr pa)
      obtain e m2 where p: "phys_Check ops m1 pa (min n (page_room a)) access = (e, m2)" by fastforce
      show ?thesis
      proof (cases e)
        case None
        have "tlb_only c1 (cpu_of (spans_loop ops c1 m2 (a + of_nat (min n (page_room a))) (n - min n (page_room a))
            access (acc @ [(pa, min n (page_room a))])))"
          by (rule "1.IH" [OF False refl t [symmetric] Inr refl p [symmetric] None])
        from tlb_only_trans [OF c1 this] show ?thesis using False t Inr p None
          by (subst spans_loop.simps) (simp add: Let_def)
      next
        case (Some e')
        then show ?thesis using False t Inr p c1 by (subst spans_loop.simps) (simp add: Let_def)
      qed
    qed
  qed
qed

lemma Translate_tlbD: "Translate ops c m a access = (r, c', m') \<Longrightarrow> tlb_only c c'"
  using Translate_tlb [of c ops m a access] by simp

lemma translate_tlbD: "translate ops c m a access = (r, c', m') \<Longrightarrow> tlb_only c c'"
  using translate_tlb [of c ops m a access] by simp

lemma spans_tlbD: "spans ops c m a n access = (r, c', m') \<Longrightarrow> tlb_only c c'"
  using spans_loop_tlb [of c ops m a n access "[]"] by (auto simp: spans_def split: if_splits)

lemma tm_tlbD:
  "tm_Check ops c m a n access = (r, c', m') \<Longrightarrow> tlb_only c c'"
  "tm_Read ops c m a n access = (q, c', m') \<Longrightarrow> tlb_only c c'"
  "tm_Write ops c m a bs = (r, c', m') \<Longrightarrow> tlb_only c c'"
  by (auto simp: tm_Check_def tm_Read_def tm_Write_def
      split: prod.splits sum.splits if_splits dest: Translate_tlbD spans_tlbD)

lemma under_tlbD:
  "under_Check ops v c m a n access = (r, c', m') \<Longrightarrow> tlb_only c c'"
  "under_Read ops v c m a n access = (q, c', m') \<Longrightarrow> tlb_only c c'"
  "under_Write ops v c m a bs = (r, c', m') \<Longrightarrow> tlb_only c c'"
  by (auto simp: under_Check_def under_Read_def under_Write_def split: prod.splits if_splits dest: tm_tlbD)

lemma frame_exclusive: "frame c (c\<lparr>c_exclusiveValid := b\<rparr>)"
  by (rule frame_updates)

lemma monitor_spans_frame: "frame c (cpu_of (monitor_spans ops c m a n acc))"
proof (induction ops c m a n acc rule: monitor_spans.induct)
  case (1 ops c m a n acc)
  show ?case
  proof (cases "n = 0")
    case True
    then show ?thesis by (subst monitor_spans.simps) simp
  next
    case False
    obtain r c1 m1 where t: "Translate ops c m a Write_access = (r, c1, m1)" by (metis prod_cases3)
    have c1: "frame c c1" by (rule tlb_only_frame [OF Translate_tlbD [OF t]])
    show ?thesis
    proof (cases r)
      case (Inl e)
      from frame_trans [OF c1 frame_exclusive] show ?thesis
        using False t Inl by (subst monitor_spans.simps) (simp add: Let_def)
    next
      case (Inr pa)
      have "frame c1 (cpu_of (monitor_spans ops c1 m1 (a + of_nat (min n (page_room a))) (n - min n (page_room a))
          (acc @ [(pa, min n (page_room a))])))"
        by (rule "1.IH" [OF False refl t [symmetric] Inr refl])
      from frame_trans [OF c1 this] show ?thesis
        using False t Inr by (subst monitor_spans.simps) (simp add: Let_def)
    qed
  qed
qed

lemma invalidate_frame: "frame c (fold (\<lambda>(pa, len) c. InvalidateExclusive c pa (int len)) ss c)"
proof (induction ss arbitrary: c)
  case (Cons s ss)
  have "frame c (InvalidateExclusive c (fst s) (int (snd s)))" by (simp add: InvalidateExclusive_def frame_updates)
  from frame_trans [OF this Cons.IH] show ?case by (simp add: split_def)
qed simp

text \<open>Every access keeps the frame.\<close>

lemma under_frame:
  "under_Check ops v c m a n access = (r, c', m') \<Longrightarrow> frame c c'"
  "under_Read ops v c m a n access = (q, c', m') \<Longrightarrow> frame c c'"
  "under_Write ops v c m a bs = (r, c', m') \<Longrightarrow> frame c c'"
  by (auto dest: under_tlbD intro: tlb_only_frame)

lemma Translate_frame:
  "Translate ops c m a access = (r, c', m') \<Longrightarrow> frame c c'"
  "translate ops c m a access = (q, c', m') \<Longrightarrow> frame c c'"
  by (auto dest: Translate_tlbD translate_tlbD intro: tlb_only_frame)

lemma v_Write_frame:
  assumes "v_Write ops v c m a bs = (r, c', m')"
  shows "frame c c'"
proof (cases "vm_exclusive v")
  case False
  then show ?thesis using assms by (auto simp: v_Write_def dest: under_frame)
next
  case True
  obtain s c1 m1 where ms: "monitor_spans ops c m a (length bs) [] = (s, c1, m1)" by (metis prod_cases3)
  have c1: "frame c c1" using monitor_spans_frame [of c ops m a "length bs" "[]"] ms by simp
  show ?thesis
  proof (cases s)
    case (Inl e)
    then show ?thesis using assms True ms c1 by (simp add: v_Write_def em_Write_def)
  next
    case (Inr ss)
    obtain e c2 m2 where uw: "under_Write ops v c1 m1 a bs = (e, c2, m2)" by (metis prod_cases3)
    have c2: "frame c c2" by (rule frame_trans [OF c1 under_frame(3) [OF uw]])
    show ?thesis
      using assms True ms Inr uw c2 frame_trans [OF c2 invalidate_frame]
      by (cases e) (auto simp: v_Write_def em_Write_def)
  qed
qed

end
