(* ===== verification/Arm64_Safe.thy ===== *)
theory Arm64_Safe
  imports Arm64_Frame
begin

text \<open>
  Every instruction keeps the frame: no instruction changes the program counter or the clock itself, and register
  files keep their shape. The properties of \<open>Step\<close> follow.
\<close>

subsection \<open>Reads return what was asked for\<close>

lemma read_loop_length: "read_loop m a n = Inr bs \<Longrightarrow> length bs = n"
proof (induction m a n arbitrary: bs rule: read_loop.induct)
  case (1 m a n)
  show ?case
  proof (cases "n = 0")
    case True
    then show ?thesis using "1.prems" by (simp add: read_loop.simps)
  next
    case False
    then obtain k where k: "find_region m a = Some k"
      using "1.prems" by (subst (asm) read_loop.simps) (auto split: option.splits)
    let ?r = "as_regions m ! k"
    let ?b = "take n (drop (unat (a - reg_start ?r)) (reg_data ?r))"
    obtain rest where r: "read_loop m (if n - length ?b \<noteq> 0 then a + of_nat (length ?b) else a) (n - length ?b) = Inr rest"
      and bs: "bs = ?b @ rest"
      using "1.prems" False k by (subst (asm) read_loop.simps) (auto simp: Let_def split: sum.splits)
    have "length rest = n - length ?b" by (rule "1.IH" [OF False k refl refl r])
    then show ?thesis using bs by simp
  qed
qed

lemma cachedSpan_length: "cachedSpan m a n access = Some bs \<Longrightarrow> length bs = nat n"
  by (auto simp: cachedSpan_def Let_def split: if_splits option.splits)

lemma ReadMemory_length: "ReadMemory m a n access = (Inr bs, m') \<Longrightarrow> length bs = n"
  by (auto simp: ReadMemory_def Let_def split: if_splits option.splits
      dest: cachedSpan_length read_loop_length)

lemma fill_length: "map_sum id (fill n) r = Inr bs \<Longrightarrow> length bs = n"
  by (cases r) (auto simp: fill_def)

lemma phys_Read_length: "phys_Read ops m a n access = (Inr bs, m') \<Longrightarrow> length bs = n"
  by (cases m) (auto split: prod.splits dest: ReadMemory_length fill_length)

lemma read_spans_length: "read_spans ops m ss access = (Inr bs, m') \<Longrightarrow> length bs = (\<Sum>s\<leftarrow>ss. snd s)"
proof (induction ops m ss access arbitrary: bs m' rule: read_spans.induct)
  case (2 ops m pa len ss access)
  then show ?case by (auto split: prod.splits sum.splits dest: phys_Read_length)
qed simp

lemma spans_loop_length:
  "spans_loop ops c m a n access acc = (Inr ss, c', m') \<Longrightarrow> (\<Sum>s\<leftarrow>ss. snd s) = (\<Sum>s\<leftarrow>acc. snd s) + n"
proof (induction ops c m a n access acc arbitrary: c' m' rule: spans_loop.induct)
  case (1 ops c m a n access acc)
  show ?case
  proof (cases "n = 0")
    case True
    then show ?thesis using "1.prems" by (simp add: spans_loop.simps)
  next
    case False
    let ?l = "min n (page_room a)"
    obtain pa c1 m1 m2 where t: "(Inr pa, c1, m1) = Translate ops c m a access"
        and p: "(None, m2) = phys_Check ops m1 pa ?l access"
        and r: "spans_loop ops c1 m2 (a + of_nat ?l) (n - ?l) access (acc @ [(pa, ?l)]) = (Inr ss, c', m')"
      using "1.prems" False by (subst (asm) spans_loop.simps)
        (auto simp: Let_def split: prod.splits sum.splits option.splits)
    have "(\<Sum>s\<leftarrow>ss. snd s) = (\<Sum>s\<leftarrow>acc @ [(pa, ?l)]. snd s) + (n - ?l)"
      by (rule "1.IH" [OF False refl t refl refl p refl r])
    then show ?thesis by simp
  qed
qed

lemma under_Read_length: "under_Read ops v c m a n access = (Inr bs, c', m') \<Longrightarrow> length bs = n"
  by (auto simp: under_Read_def tm_Read_def spans_def split: if_splits prod.splits sum.splits
      dest!: phys_Read_length read_spans_length spans_loop_length)


subsection \<open>Vector values have sixteen bytes\<close>

lemma length_zero16 [simp]: "length zero16 = 16"
  by (simp add: zero16_def)

lemma length_reg_bytes [simp]: "length (reg_bytes v n) = n"
  by (simp add: reg_bytes_def)

lemma fold_length:
  assumes "\<And>j v. j \<in> set js \<Longrightarrow> length v = L \<Longrightarrow> length (g j v) = L" and "length v = L"
  shows "length (fold g js v) = L"
  using assms by (induction js arbitrary: v) auto

lemma fold_update_length: "length (fold (\<lambda>j v. v[h j := f j]) js v) = length v"
  by (induction js arbitrary: v) auto

lemma elem_cases: "elem_bytes i \<in> {1, 2, 4, 8}"
  using fld_bounds(2) [of i 22] by (auto simp: elem_bytes_def less_Suc_eq numeral_eq_Suc)

lemma vec_cases: "vec_bytes i \<in> {8, 16}"
  by (simp add: vec_bytes_def)

lemma lanes_fit: "j \<in> set (lanes_of n sz) \<Longrightarrow> 0 < sz \<Longrightarrow> j + sz \<le> n"
proof -
  assume "j \<in> set (lanes_of n sz)" "0 < sz"
  then obtain k where "j = sz * k" "k < n div sz" by (auto simp: lanes_of_def)
  then have "j + sz \<le> sz * (n div sz)" by (metis Suc_leI mult.commute mult_Suc mult_le_mono2 add.commute mult_Suc_right)
  also have "\<dots> \<le> n" by simp
  finally show "j + sz \<le> n" .
qed

lemma elem_pos: "0 < elem_bytes i"
  by (simp add: elem_bytes_def)

lemma vec_le: "vec_bytes i \<le> 16"
  by (simp add: vec_bytes_def)

lemma lane_in_vector: "j \<in> set (lanes_of (vec_bytes i) (elem_bytes i)) \<Longrightarrow> j + elem_bytes i \<le> 16"
  using lanes_fit [OF _ elem_pos] vec_le order_trans by blast

text \<open>A run of \<open>n\<close> lanes of \<open>sz\<close> bytes that fits a vector.\<close>

lemma run_fits: "j < n \<Longrightarrow> base + n * sz \<le> (16 :: nat) \<Longrightarrow> base + j * sz + sz \<le> 16"
proof -
  assume "j < n" "base + n * sz \<le> 16"
  moreover from this have "Suc j * sz \<le> n * sz" by (intro mult_le_mono1) simp
  ultimately show "base + j * sz + sz \<le> 16" by simp
qed

lemma frame_snd: "frame c (snd (None :: go_error option, c')) = frame c c'" "frame c (snd (Some e, c')) = frame c c'"
  by simp_all

lemma exec_vector_lanes_frame [frame_intros]:
  "frame c (snd (exec_VectorCompare i c))" "frame c (snd (exec_VectorCompareZero i c))"
  "frame c (snd (exec_VectorAddSub i c))" "frame c (snd (exec_VectorEqual i c))"
  using lane_in_vector [of _ i]
  by (auto simp: exec_VectorCompare_def exec_VectorCompareZero_def exec_VectorAddSub_def exec_VectorEqual_def Let_def
      intro!: frame_set_q fold_length)

lemma exec_vector_bytes_frame [frame_intros]:
  "frame c (snd (exec_VectorLogical i c))" "frame c (snd (exec_VectorDuplicate i c))"
  "frame c (snd (exec_VectorToGeneral i c))" "frame c (snd (exec_GeneralToVector i c))"
  by (auto simp: exec_VectorLogical_def exec_VectorDuplicate_def exec_VectorToGeneral_def exec_GeneralToVector_def Let_def
      fold_update_length intro!: frame_set_q frame_w_reg)


lemma exec_Pairwise_frame [frame_intros]: "frame c (snd (exec_Pairwise i c))"
proof -
  let ?n = "vec_bytes i" and ?s = "elem_bytes i"
  have fit: "half * ?n div 2 + j * ?s + ?s \<le> 16" if "j < ?n div (2 * ?s)" "half = 0 \<or> half = 1" for half j
  proof -
    have "half * ?n div 2 + (?n div (2 * ?s)) * ?s \<le> 16"
      using that(2) vec_cases [of i] elem_cases [of i] by auto
    then show ?thesis using run_fits [OF that(1)] by simp
  qed
  show ?thesis
    using fit [of _ 0] fit [of _ 1] by (auto simp: exec_Pairwise_def Let_def intro!: frame_set_q fold_length)
qed

lemma exec_AddWide_frame [frame_intros]: "frame c (snd (exec_AddWide i c))"
proof -
  have "j * 2 * elem_bytes i + 2 * elem_bytes i \<le> 16" if "j < 8 div elem_bytes i" for j
    using that elem_cases [of i] by auto
  then show ?thesis by (auto simp: exec_AddWide_def Let_def intro!: frame_set_q fold_length)
qed

lemma exec_vector_sum_frame [frame_intros]:
  "frame c (snd (exec_VectorSum i c))" "frame c (snd (exec_AddLong i c))"
  using elem_cases [of i]
  by (auto simp: exec_VectorSum_def exec_AddLong_def Let_def intro!: frame_set_q)

lemma Len32_lane: "list_all (\<lambda>k. Len32 (of_nat k) \<in> {4, 5, 6}) [8..<64]" "list_all (\<lambda>k. Len32 (of_nat k) \<in> {1, 2, 3}) [1..<8]"
  by (simp_all add: Len32_def upt_rec)

lemma Len32_range:
  "8 \<le> k \<Longrightarrow> k < 64 \<Longrightarrow> Len32 (of_nat k) \<in> {4, 5, 6}" "0 < k \<Longrightarrow> k < 8 \<Longrightarrow> Len32 (of_nat k) \<in> {1, 2, 3}"
  by (rule bspec [OF Len32_lane(1) [unfolded list_all_iff set_upt]], simp)
    (rule bspec [OF Len32_lane(2) [unfolded list_all_iff set_upt]], simp)

lemma exec_ShiftLong_frame [frame_intros]: "frame c (snd (exec_ShiftLong i c))"
proof -
  let ?imm = "fld i 16 127"
  let ?s = "2 ^ (Len32 (of_nat ?imm) - 1) div 8 :: nat"
  have "j * 2 * ?s + 2 * ?s \<le> 16" if "\<not> (?imm < 8 \<or> ?imm \<ge> 64)" "j < 8 div ?s" for j
  proof -
    have "Len32 (of_nat ?imm) \<in> {4, 5, 6}" using that(1) by (intro Len32_range) auto
    then show ?thesis using that(2) by auto
  qed
  then show ?thesis by (auto simp: exec_ShiftLong_def Let_def intro!: frame_set_q fold_length)
qed

lemma exec_ShiftNarrow_frame [frame_intros]: "frame c (snd (exec_ShiftNarrow i c))"
proof -
  let ?h = "fld i 16 127 div 8"
  let ?s = "8 * 2 ^ (Len32 (of_nat ?h) - 1) div 8 :: nat"
  have "8 + j * ?s + ?s \<le> 16" if "\<not> (?h = 0 \<or> ?h \<ge> 8)" "j < 8 div ?s" for j
  proof -
    have "Len32 (of_nat ?h) \<in> {1, 2, 3}" using that(1) by (intro Len32_range) auto
    then show ?thesis using that(2) by auto
  qed
  note fit = this
  have "j * ?s + ?s \<le> 16" if "\<not> (?h = 0 \<or> ?h \<ge> 8)" "j < 8 div ?s" for j
    using fit [OF that] by simp
  with fit show ?thesis
    using cpu_ok_q [OF _ fld_bounds(5) [of i 0]]
    by (auto simp: exec_ShiftNarrow_def Let_def intro!: frame_set_q fold_length)
qed


lemma insert_fits:
  assumes "k \<le> 3"
  shows "unat (drop_bit (k + 1) (drop_bit 16 i AND 31 :: u32)) * 2 ^ k + 2 ^ k \<le> 16"
proof -
  have "unat (drop_bit 16 i AND 31) \<le> 31" using word_and_le1 [of "drop_bit 16 i" 31] by (simp add: word_le_nat_alt)
  then have "unat (drop_bit (k + 1) (drop_bit 16 i AND 31)) \<le> 31 div 2 ^ (k + 1)"
    by (simp only: unsigned_drop_bit_eq drop_bit_eq_div [where 'a = nat])
      (meson div_le_mono order_trans take_bit_nat_less_eq_self)
  moreover have "k \<in> {0, 1, 2, 3}" using assms by auto
  ultimately show ?thesis by auto
qed

lemma exec_vector_element_frame [frame_intros]:
  "frame c (snd (exec_VectorExtract i c))" "frame c (snd (exec_VectorInsert i c))" "frame c (snd (exec_VectorImmediate i c))"
  using insert_fits [of "TrailingZeros32 (drop_bit 16 i AND 31)" i] cpu_ok_q [of c, OF _ fld_bounds(5) [of i 0]]
  by (auto simp: exec_VectorExtract_def exec_VectorInsert_def exec_VectorImmediate_def Let_def
      split: option.splits intro!: frame_set_q frame_w_reg fold_length)

subsection \<open>Integer and system instructions\<close>

lemma exec_integer_frame [frame_intros]:
  "frame c (snd (exec_ReverseBits i c))" "frame c (snd (exec_MultiplyLong i c))" "frame c (snd (exec_MultiplyHigh i c))"
  "frame c (snd (exec_Address i c))" "frame c (snd (exec_MoveWide i c))" "frame c (snd (exec_Bitfield i c))"
  "frame c (snd (exec_Extract i c))" "frame c (snd (exec_ConditionalSelect i c))"
  "frame c (snd (exec_CountLeadingZeros i c))" "frame c (snd (exec_ReverseBytes i c))"
  "frame c (snd (exec_DataTwoSource i c))" "frame c (snd (exec_MultiplyAdd i c))" "frame c (snd (exec_CurrentEL i c))"
  by (simp_all add: exec_ReverseBits_def exec_MultiplyLong_def exec_MultiplyHigh_def exec_Address_def exec_MoveWide_def
      exec_Bitfield_def exec_Extract_def exec_ConditionalSelect_def exec_CountLeadingZeros_def exec_ReverseBytes_def
      exec_DataTwoSource_def exec_MultiplyAdd_def exec_CurrentEL_def Let_def frame_w_reg split: option.split)

lemma add_op_frame: "frame c (snd (add_op c a b carry width flags))"
  by (simp add: add_op_def Let_def frame_updates)

lemma exec_flags_frame [frame_intros]:
  "frame c (snd (exec_AddSub i c))" "frame c (snd (exec_AddCarry i c))" "frame c (snd (exec_Logical i c))"
  "frame c (snd (exec_ConditionalCompare i c))"
  using frame_trans [OF add_op_frame frame_w_reg, of c] frame_trans [OF frame_updates(1) frame_w_reg, of c] add_op_frame [of c]
  by (simp_all add: exec_AddSub_def exec_AddCarry_def exec_Logical_def exec_ConditionalCompare_def Let_def
      frame_w_reg frame_updates split_def split: option.split)

lemma frame_if: "(b \<Longrightarrow> frame c (snd p)) \<Longrightarrow> (\<not> b \<Longrightarrow> frame c (snd q)) \<Longrightarrow> frame c (snd (if b then p else q))"
  by simp

lemma SetRegister_frame:
  assumes "ToLower name \<notin> {''pc'', ''cntpct_el0'', ''cntvct_el0''}"
  shows "frame c (snd (SetRegister c name v))"
proof -
  define n where "n = ToLower name"
  have n: "n \<noteq> ''pc''" "n \<noteq> ''cntpct_el0''" "n \<noteq> ''cntvct_el0''" using assms by (auto simp: n_def)
  note clear = frame_trans [OF frame_updates(16) frame_ClearTranslationCache, of c]
    frame_trans [OF frame_updates(12) frame_ClearTranslationCache, of c]
  show ?thesis
  proof (cases "systemIndex n")
    case None
    show ?thesis unfolding SetRegister_def Let_def n_def [symmetric] None option.case
    proof (intro frame_if, simp_all only: snd_conv frame_updates clear frame_refl)
      show "frame c ((if v AND 4 \<noteq> 0 then c\<lparr>c_cycles := 0\<rparr> else c)\<lparr>c_pmcr := v AND 0x79\<rparr>)" by (simp add: frame_updates)
      show "frame c (snd (case general_name n of None \<Rightarrow> (Some (Errorf ''arm64: unknown register %q''), c)
          | Some (n, narrow) \<Rightarrow> (None, c\<lparr>c_x := (c_x c)[n := if narrow then v AND 0xffffffff else v]\<rparr>)))"
        by (simp add: frame_updates split: option.split prod.split)
      show "frame c (c\<lparr>c_ticks := v\<rparr>)" if "n = ''cntpct_el0'' \<or> n = ''cntvct_el0''"
        using that by (elim disjE) (erule notE [OF n(2)], erule notE [OF n(3)])
      show "frame c (c\<lparr>c_pc := v\<rparr>)" if "n = ''pc''" using that by (rule notE [OF n(1)])
    qed
  next
    case (Some j)
    then show ?thesis using clear by (simp add: SetRegister_def n_def [symmetric] Let_def frame_updates)
  qed
qed


lemma move_named_frame:
  assumes "ToLower name \<notin> {''pc'', ''cntpct_el0'', ''cntvct_el0''} \<or> rd_read"
  shows "frame c (snd (move_named c rd_read rd name))"
  using assms SetRegister_frame [of name] by (auto simp: move_named_def frame_w_reg)

lemma plain_names:
  "\<forall>name \<in> set [''cntfrq_el0'', ''pmintenset_el1'', ''pmintenclr_el1'', ''pmccfiltr_el0'', ''pmuserenr_el0'',
      ''pmcr_el0'', ''pmcntenset_el0'', ''pmcntenclr_el0'', ''pmovsclr_el0'']. ToLower name \<notin> {''pc'', ''cntpct_el0'', ''cntvct_el0''}"
  by (simp add: ToLower_def lower_char_def)

lemma pm_name: "(e :: u32) \<ge> 0xdce0 \<Longrightarrow> e \<le> 0xdce3 \<Longrightarrow>
    [''pmcr_el0'', ''pmcntenset_el0'', ''pmcntenclr_el0'', ''pmovsclr_el0''] ! unat (e - 0xdce0) \<in>
      set [''pmcr_el0'', ''pmcntenset_el0'', ''pmcntenclr_el0'', ''pmovsclr_el0'']"
  by (intro nth_mem) (simp add: word_le_nat_alt unat_sub)

definition opt_frame :: "CPU \<Rightarrow> cpu_result option \<Rightarrow> bool" where
  "opt_frame c r \<longleftrightarrow> (case r of None \<Rightarrow> True | Some q \<Rightarrow> frame c (snd q))"

lemma opt_frame_if: "(b \<Longrightarrow> opt_frame c p) \<Longrightarrow> (\<not> b \<Longrightarrow> opt_frame c q) \<Longrightarrow> opt_frame c (if b then p else q)"
  by simp

lemma opt_frame_Some: "frame c (snd q) \<Longrightarrow> opt_frame c (Some q)"
  by (simp add: opt_frame_def)

lemma systemInstruction_frame: "systemInstruction c i = Some r \<Longrightarrow> frame c (snd r)"
proof -
  let ?e = "drop_bit 5 i AND 0xffff"
  have sys: "frame c (c\<lparr>c_system := (c_system c)[j := v]\<rparr>)" for j v by (rule frame_updates)
  note clear = frame_trans [OF sys frame_ClearTranslationCache]
  have named: "frame c (snd (move_named c b rd name))" if "name \<in> set [''cntfrq_el0'', ''pmintenset_el1'', ''pmintenclr_el1'',
      ''pmccfiltr_el0'', ''pmuserenr_el0'', ''pmcr_el0'', ''pmcntenset_el0'', ''pmcntenclr_el0'', ''pmovsclr_el0'']" for name b rd
    using that plain_names by (intro move_named_frame) blast
  have pm: "frame c (snd (move_named c b rd ([''pmcr_el0'', ''pmcntenset_el0'', ''pmcntenclr_el0'', ''pmovsclr_el0''] ! unat (?e - 0xdce0))))"
    if "?e \<ge> 0xdce0 \<and> ?e \<le> 0xdce3" for b rd
    using pm_name [of ?e] that by (intro named) auto
  have cnt: "frame c (snd (SetRegister c ''cntfrq_el0'' v))" for v
    using plain_names by (intro SetRegister_frame) simp
  have "opt_frame c (systemInstruction c i)"
    unfolding systemInstruction_def Let_def
  proof (intro opt_frame_if opt_frame_Some frame_if)
    show "opt_frame c (case index_where (\<lambda>(_, e). e = ?e) systemRegisters of None \<Rightarrow> None
        | Some j \<Rightarrow> Some (if c_currentEL c = 0 \<and> fst (systemRegisters ! j) \<notin> {''tpidr_el0'', ''tpidrro_el0'', ''ctr_el0'', ''dczid_el0''}
            then (Some (Errorf ''arm64: %s access at EL0''), c)
            else if bit i 21 then (None, w_reg c (rd_of i) (c_system c ! j) 64 False)
            else if take 3 (fst (systemRegisters ! j)) = ''id_'' \<or>
              fst (systemRegisters ! j) \<in> {''midr_el1'', ''mpidr_el1'', ''ctr_el0'', ''dczid_el0''}
            then (Some (Errorf ''arm64: write to read-only %s''), c)
            else (None, if j \<le> 4 then ClearTranslationCache (c\<lparr>c_system := (c_system c)[j := r_reg c (rd_of i) False]\<rparr>)
                        else c\<lparr>c_system := (c_system c)[j := r_reg c (rd_of i) False]\<rparr>)))"
      by (cases "index_where (\<lambda>(_, e). e = ?e) systemRegisters")
        (simp_all add: opt_frame_def clear sys frame_w_reg)
  qed (simp_all add: named pm cnt frame_w_reg frame_updates move_named_frame)
  then show "systemInstruction c i = Some r \<Longrightarrow> frame c (snd r)" by (simp add: opt_frame_def)
qed


lemma exec_system_frame [frame_intros]:
  "frame c (snd (exec_ICacheAll c))" "frame c (snd (exec_TLBI c))" "frame c (snd (exec_ClearExclusive c))"
  "frame c (snd (exec_DAIFImmediate i c))" "frame c (snd (exec_System i c))"
  using systemInstruction_frame [of c i]
  by (auto simp: exec_ICacheAll_def exec_TLBI_def exec_ClearExclusive_def exec_DAIFImmediate_def exec_System_def Let_def
      frame_ClearTranslationCache frame_updates exec_integer_frame split: option.splits)

lemma exec_branch_frame:
  "frame c (snd (snd (exec_Return i c)))" "frame c (snd (snd (exec_BranchReg i c)))"
  "frame c (snd (snd (exec_BranchLinkReg i c)))" "frame c (snd (snd (exec_BranchImmediate i c)))"
  "frame c (snd (snd (exec_BranchConditional i c)))" "frame c (snd (snd (exec_CompareBranch i c)))"
  "frame c (snd (snd (exec_TestBranch i c)))"
  by (simp_all add: exec_Return_def exec_BranchReg_def exec_BranchLinkReg_def exec_BranchImmediate_def
      exec_BranchConditional_def exec_CompareBranch_def exec_TestBranch_def link_def Let_def frame_updates)

subsection \<open>Loads and stores\<close>

lemma frame_w_reg_trans: "frame c c' \<Longrightarrow> frame c (w_reg c' n v width sp)"
  using frame_trans frame_w_reg by blast

lemma frame_load_trans: "frame c c' \<Longrightarrow> length bs \<le> 16 \<Longrightarrow> frame c (loadReg c' bs n simd sgnd)"
  using frame_trans frame_loadReg by blast

lemmas access_frames = under_frame v_Write_frame Translate_frame

lemma exec_DataCache_frame: "exec_DataCache ops i c m = (e, c', m') \<Longrightarrow> frame c c'"
  by (auto simp: exec_DataCache_def split: prod.splits sum.splits dest: access_frames)

lemma exec_AddressTranslate_frame: "exec_AddressTranslate ops i c m = (e, c', m') \<Longrightarrow> frame c c'"
  by (auto simp: exec_AddressTranslate_def split: prod.splits sum.splits go_error.splits dest!: access_frames
      intro: frame_trans [OF _ frame_updates(16)])

lemma size_le_16: "fld i s 3 < 4 \<Longrightarrow> (2 :: nat) ^ fld i s 3 \<le> 16"
  using power_increasing [of "fld i s 3" 4 "2 :: nat"] by simp

lemma under_Read_ok: "under_Read ops v c m a n access = (Inr bs, c', m') \<Longrightarrow> frame c c' \<and> length bs = n"
  using under_frame(2) under_Read_length by blast

lemma under_Read_failed: "under_Read ops v c m a n access = (Inl e, c', m') \<Longrightarrow> frame c c'"
  by (rule under_frame)

lemma exec_AcquireRelease_frame: "exec_AcquireRelease ops v i c m = (e, c', m') \<Longrightarrow> frame c c'"
  by (auto simp: exec_AcquireRelease_def Let_def size_le_16 [OF fld_bounds(2)]
      split: prod.splits sum.splits if_splits dest!: under_Read_ok under_Read_failed v_Write_frame intro!: frame_load_trans)

lemma exec_AtomicReadModifyWrite_frame: "exec_AtomicReadModifyWrite ops v i c m = (e, c', m') \<Longrightarrow> frame c c'"
  by (auto simp: exec_AtomicReadModifyWrite_def Let_def split: prod.splits sum.splits if_splits option.splits
      dest!: under_Read_ok under_Read_failed v_Write_frame under_frame(1) intro!: frame_w_reg_trans intro: frame_trans)

lemma frame_exclusive_trans:
  "frame c c' \<Longrightarrow> frame c (c'\<lparr>c_exclusiveValid := b\<rparr>)"
  "frame c c' \<Longrightarrow> frame c (c'\<lparr>c_exclusiveAddress := v, c_exclusiveSize := w, c_exclusiveValid := b\<rparr>)"
  by (blast intro: frame_trans frame_updates)+

lemma exec_Exclusive_frame: "exec_Exclusive ops v i c m = (e, c', m') \<Longrightarrow> frame c c'"
  by (auto simp: exec_Exclusive_def Let_def size_le_16 [OF fld_bounds(2)] split: prod.splits sum.splits if_splits option.splits
      dest!: under_Read_ok under_Read_failed v_Write_frame Translate_frame(1)
      intro!: frame_w_reg_trans frame_exclusive_trans frame_load_trans intro: frame_trans)

lemma exec_LoadLiteral_frame: "exec_LoadLiteral ops v i c m = (e, c', m') \<Longrightarrow> frame c c'"
  by (auto simp: exec_LoadLiteral_def literal_size_def Let_def split: prod.splits sum.splits if_splits option.splits
      dest!: under_Read_ok under_Read_failed intro!: frame_load_trans)

lemma exec_LoadStore_frame: "exec_LoadStore ops v i c m = (e, c', m') \<Longrightarrow> frame c c'"
  by (auto simp: exec_LoadStore_def Let_def size_le_16 [OF fld_bounds(2)] split: prod.splits sum.splits if_splits option.splits
      dest!: under_Read_ok under_Read_failed v_Write_frame intro!: frame_w_reg_trans frame_load_trans)

lemma pair_size_le: "pair_size i = Some sz \<Longrightarrow> sz \<le> 16"
  by (auto simp: pair_size_def split: if_splits)

lemma exec_LoadStorePair_frame: "exec_LoadStorePair ops v i c m = (e, c', m') \<Longrightarrow> frame c c'"
  by (auto simp: exec_LoadStorePair_def Let_def split: prod.splits sum.splits if_splits option.splits
      dest!: under_Read_ok under_Read_failed v_Write_frame under_frame(1) pair_size_le
      intro!: frame_w_reg_trans frame_load_trans intro: frame_trans)


lemma single_structure_fits:
  assumes "single_structure i = Some (scale, index, replicated)"
  shows "index * 2 ^ scale + 2 ^ scale \<le> (16 :: nat)"
proof -
  define q s z k where "q = fld i 30 1" and "s = fld i 12 1" and "z = fld i 10 3" and "k = fld i 14 3"
  note d = q_def s_def z_def k_def
  have "q < 2" "s < 2" "z < 4" "k < 4" using fld_bounds unfolding d by blast+
  then have c: "q \<in> {0, 1}" "s \<in> {0, 1}" "z \<in> {0, 1, 2, 3}" "k \<in> {0, 1, 2, 3}" by auto
  have "(if k = 0 then Some (0, q * 8 + s * 4 + z, False)
      else if k = 1 then if odd z then None else Some (1, q * 4 + s * 2 + z div 2, False)
      else if k = 2 then if z \<ge> 2 then None
           else if odd z then if s \<noteq> 0 then None else Some (3, q, False) else Some (2, q * 2 + s, False)
      else if \<not> bit i 22 \<or> s \<noteq> 0 then None else Some (z, 0, True)) = Some (scale, index, replicated)"
    using assms unfolding single_structure_def Let_def d .
  then show ?thesis using c(1,2) c(4) \<open>z < 4\<close> power_increasing [of z 3 "2 :: nat"]
    by (auto split: if_splits)
qed

lemma frame_fold:
  assumes "\<And>j c. j \<in> set js \<Longrightarrow> frame c (f j c)"
  shows "frame c (fold f js c)"
  using assms
proof (induction js arbitrary: c)
  case (Cons j js)
  have "frame c (f j c)" "frame (f j c) (fold f js (f j c))" using Cons by simp_all
  from frame_trans [OF this] show ?case by simp
qed simp

lemma load_structure_frame:
  assumes "single_structure i = Some (scale, index, replicated)" and "length data = count * 2 ^ scale" and "j < count"
  shows "frame c (load_structure i (2 ^ scale) index replicated data j c)"
proof -
  have "Suc j * 2 ^ scale \<le> count * 2 ^ scale" using assms(3) by (intro mult_le_mono1) simp
  then have bs: "length (segment (j * 2 ^ scale) (2 ^ scale) data) = 2 ^ scale" using assms(2) by simp
  have fit: "k + 2 ^ scale \<le> 16" if "k \<in> set (lanes_of (8 * 2 ^ fld i 30 1) (2 ^ scale))" for k
  proof -
    have "(2 :: nat) ^ fld i 30 1 \<le> 2" using fld_bounds(1) [of i 30] by (cases "fld i 30 1") auto
    with lanes_fit [OF that] show ?thesis by simp
  qed
  have "(rd_of i + j) mod 32 < 32" by simp
  then show ?thesis
    using bs single_structure_fits [OF assms(1)] fit cpu_ok_q
    by (auto simp: load_structure_def Let_def intro!: frame_set_q fold_length)
qed

lemma load_structures_frame:
  "frame c0 c \<Longrightarrow> single_structure i = Some (scale, index, replicated) \<Longrightarrow> length data = count * 2 ^ scale \<Longrightarrow>
    frame c0 (fold (load_structure i (2 ^ scale) index replicated data) [0..<count] c)"
  by (rule frame_trans, assumption, intro frame_fold load_structure_frame) auto

lemma exec_VectorSingleStructure_frame: "exec_VectorSingleStructure ops v i c m = (e, c', m') \<Longrightarrow> frame c c'"
  by (auto simp: exec_VectorSingleStructure_def Let_def split: prod.splits sum.splits if_splits option.splits
      dest!: under_Read_ok under_Read_failed v_Write_frame intro!: frame_w_reg_trans load_structures_frame)

lemma fold_set_q_frame:
  "frame c0 c \<Longrightarrow> frame c0 (fold (\<lambda>j c. set_q c (r j) (fold (\<lambda>k value. value[k := d j k]) [0..<sz] zero16)) js c)"
  by (erule frame_trans) (intro frame_fold frame_set_q, simp add: fold_update_length)

lemma exec_VectorStructures_frame: "exec_VectorStructures ops v i c m = (e, c', m') \<Longrightarrow> frame c c'"
  by (auto simp: exec_VectorStructures_def Let_def split: prod.splits sum.splits if_splits option.splits
      dest!: under_Read_ok under_Read_failed v_Write_frame intro!: frame_w_reg_trans fold_set_q_frame)

subsection \<open>One instruction\<close>

lemma on_cpu_frame: "frame c (snd r) \<Longrightarrow> frame c (cpu_of (on_cpu r m nxt))"
  by (auto simp: on_cpu_def split: prod.splits option.splits)

lemma on_mem_frame: "(\<And>e c' m'. r = (e, c', m') \<Longrightarrow> frame c c') \<Longrightarrow> frame c (cpu_of (on_mem r nxt))"
  by (auto simp: on_mem_def split: prod.splits option.splits)

lemma on_branch_frame: "frame c (snd (snd r)) \<Longrightarrow> frame c (cpu_of (on_branch r m))"
  by (auto simp: on_branch_def split: prod.splits)

lemma execute_frame: "frame c (cpu_of (execute ops v cl i c m))"
  by (cases cl)
    (simp_all add: execute_def Let_def on_cpu_frame on_branch_frame exec_branch_frame exec_vector_lanes_frame
      exec_vector_bytes_frame exec_Pairwise_frame exec_AddWide_frame exec_vector_sum_frame exec_ShiftLong_frame
      exec_ShiftNarrow_frame exec_vector_element_frame exec_integer_frame exec_flags_frame exec_system_frame
      on_mem_frame [OF exec_DataCache_frame] on_mem_frame [OF exec_AddressTranslate_frame]
      on_mem_frame [OF exec_AcquireRelease_frame] on_mem_frame [OF exec_AtomicReadModifyWrite_frame]
      on_mem_frame [OF exec_Exclusive_frame] on_mem_frame [OF exec_LoadLiteral_frame]
      on_mem_frame [OF exec_LoadStore_frame] on_mem_frame [OF exec_LoadStorePair_frame]
      on_mem_frame [OF exec_VectorSingleStructure_frame] on_mem_frame [OF exec_VectorStructures_frame])

end
