(* ===== verification/Arm64_Run.thy ===== *)
theory Arm64_Run
  imports Arm64_Safe
begin

text \<open>
  Runs of the ARM64 interpreter: what one \<open>Step\<close> does to the program counter and the clock, and the invariant of every
  processor that the package's operations can produce.
\<close>

subsection \<open>The clock\<close>

lemma advance_one_fields:
  "c_ticks (advance_one c) = c_ticks c + 1" "c_pc (advance_one c) = c_pc c" "cpu_ok (advance_one c) = cpu_ok c"
  by (simp_all add: advance_one_def Let_def cpu_ok_def decode_cache_ok_def)

lemma AdvanceInstructions_fields:
  "c_ticks (AdvanceInstructions c n) = c_ticks c + of_nat n" "c_pc (AdvanceInstructions c n) = c_pc c"
  "cpu_ok (AdvanceInstructions c n) = cpu_ok c"
  by (induction n) (simp_all add: AdvanceInstructions_def advance_one_fields)

lemma AdvanceInstructions_one: "AdvanceInstructions c 1 = advance_one c"
  by (simp add: AdvanceInstructions_def)

subsection \<open>One step\<close>

definition is_branch :: "instruction_class \<Rightarrow> bool" where
  "is_branch cl \<longleftrightarrow> (case cl of opReturn \<Rightarrow> True | opBranchReg \<Rightarrow> True | opBranchLinkReg \<Rightarrow> True | opBranchImmediate \<Rightarrow> True
     | opBranchConditional \<Rightarrow> True | opCompareBranch \<Rightarrow> True | opTestBranch \<Rightarrow> True | _ \<Rightarrow> False)"

lemma execute_next:
  "execute ops v cl i c m = (Inr (nxt, effect), c', m') \<Longrightarrow> \<not> is_branch cl \<Longrightarrow> nxt = c_pc c + 4 \<and> effect = Continue"
  by (cases cl) (auto simp: execute_def Let_def is_branch_def on_cpu_def on_mem_def split: prod.splits option.splits)

text \<open>The stages of a step that fetches: the fetched word, its class and the outcome of the instruction.\<close>

lemma step_cases:
  assumes "step ops v c m = (r, c', m')"
  obtains (refused) e where "r = Inl e" and "frame c c'"
  | (completed) data c1 m1 c2 nxt effect where "under_Read ops v c m (c_pc c) 4 Execute_access = (Inr data, c1, m1)"
      and "r = Inr effect" and "frame c c1" and "c_pc c AND 3 = 0"
      and "execute ops v (fst (decode c1 (ucast (lane data 0 4)))) (ucast (lane data 0 4))
             (snd (decode c1 (ucast (lane data 0 4)))) m1 = (Inr (nxt, effect), c2, m')"
      and "frame c c2" and "c' = AdvanceInstructions (c2\<lparr>c_pc := nxt\<rparr>) 1"
proof (cases "c_pc c AND 3 \<noteq> 0")
  case True
  then show thesis using assms refused by (auto simp: step_def)
next
  case False
  obtain q c1 m1 where f: "under_Read ops v c m (c_pc c) 4 Execute_access = (q, c1, m1)" by (metis prod_cases3)
  have c1: "frame c c1" by (rule under_frame(2) [OF f])
  show thesis
  proof (cases q)
    case (Inl e)
    then show thesis using assms False f c1 refused by (auto simp: step_def)
  next
    case (Inr data)
    let ?i = "ucast (lane data 0 4) :: u32"
    obtain cl c1' where d: "decode c1 ?i = (cl, c1')" by fastforce
    have c1': "frame c c1'" using frame_trans [OF c1 frame_decode [of c1 ?i]] d by simp
    obtain o' c2 m2 where x: "execute ops v cl ?i c1' m1 = (o', c2, m2)" by (metis prod_cases3)
    have c2: "frame c c2" using frame_trans [OF c1' execute_frame [of c1' ops v cl ?i m1]] x by simp
    show thesis
    proof (cases o')
      case (Inl e)
      then show thesis using assms False f Inr d x c2 refused by (auto simp: step_def Let_def)
    next
      case (Inr p)
      obtain nxt effect where p: "p = (nxt, effect)" by fastforce
      show thesis
        using assms False f \<open>q = Inr data\<close> d x Inr p
        by (intro completed [OF _ _ c1 _ _ c2, of data m1 effect nxt]) (simp_all add: step_def Let_def)
    qed
  qed
qed


subsection \<open>Processors in use\<close>

text \<open>Everything a caller can do to a processor.\<close>

inductive cpu_reachable :: "'d device_ops \<Rightarrow> CPU \<Rightarrow> bool" for ops where
  reach_New: "cpu_reachable ops New"
| reach_SetRegister: "cpu_reachable ops c \<Longrightarrow> cpu_reachable ops (snd (SetRegister c name v))"
| reach_SetVector: "cpu_reachable ops c \<Longrightarrow> length v = 16 \<Longrightarrow> cpu_reachable ops (snd (SetVector c index v))"
| reach_Step: "cpu_reachable ops c \<Longrightarrow> cpu_reachable ops (cpu_of (Step ops c m))"
| reach_Clone: "cpu_reachable ops c \<Longrightarrow> cpu_reachable ops (CPU_Clone c)"
| reach_Advance: "cpu_reachable ops c \<Longrightarrow> cpu_reachable ops (AdvanceInstructions c n)"
| reach_Translate: "cpu_reachable ops c \<Longrightarrow> cpu_reachable ops (cpu_of (Translate ops c m a access))"
| reach_Write: "cpu_reachable ops c \<Longrightarrow> cpu_reachable ops (cpu_of (VirtualMemory_Write ops c m a bs))"
| reach_Invalidate: "cpu_reachable ops c \<Longrightarrow> cpu_reachable ops (InvalidateExclusive c a n)"
| reach_Caches: "cpu_reachable ops c \<Longrightarrow> cpu_reachable ops (c\<lparr>c_DisableDecodeCache := b, c_DisableTranslationCache := b'\<rparr>)"

lemma cpu_ok_fields: "cpu_ok (c\<lparr>c_pc := v\<rparr>) = cpu_ok c" "cpu_ok (c\<lparr>c_ticks := v\<rparr>) = cpu_ok c"
    "cpu_ok (c\<lparr>c_DisableDecodeCache := b, c_DisableTranslationCache := b'\<rparr>) = cpu_ok c"
  by (simp_all add: cpu_ok_def decode_cache_ok_def)

lemma zero_CPU_ok: "cpu_ok zero_CPU"
  by (simp add: cpu_ok_def zero_CPU_def decode_cache_ok_def classify_zero empty_translations_def zero16_def)

lemma SetRegister_ok: "cpu_ok c \<Longrightarrow> cpu_ok (snd (SetRegister c name v))"
proof (cases "ToLower name \<in> {''pc'', ''cntpct_el0'', ''cntvct_el0''}")
  case False
  then show "cpu_ok c \<Longrightarrow> ?thesis" using SetRegister_frame frame_ok by blast
next
  case True
  have none: "systemIndex ''pc'' = None" "systemIndex ''cntpct_el0'' = None" "systemIndex ''cntvct_el0'' = None"
    by (simp_all add: systemIndex_def index_where_def systemRegisters_def)
  consider "ToLower name = ''pc''" | "ToLower name = ''cntpct_el0''" | "ToLower name = ''cntvct_el0''" using True by blast
  then show "cpu_ok c \<Longrightarrow> ?thesis" by cases (simp_all add: SetRegister_def none cpu_ok_fields)
qed

lemma SetVector_ok: "cpu_ok c \<Longrightarrow> length v = 16 \<Longrightarrow> cpu_ok (snd (SetVector c index v))"
  using frame_ok [OF frame_set_q [of c v "nat index"]] by (auto simp: SetVector_def set_q_def)

lemma Step_ok: "cpu_ok c \<Longrightarrow> cpu_ok (cpu_of (Step ops c m))"
proof -
  obtain r c' m' where s: "step ops (vmem_of c) c m = (r, c', m')" by (metis prod_cases3)
  assume "cpu_ok c"
  then have "cpu_ok c'" by (cases rule: step_cases [OF s]) (auto simp: AdvanceInstructions_fields cpu_ok_fields dest: frame_ok)
  then show ?thesis by (simp add: Step_def s)
qed

lemma cpu_reachable_ok: "cpu_reachable ops c \<Longrightarrow> cpu_ok c"
proof (induction rule: cpu_reachable.induct)
  case reach_New
  have "cpu_ok (fold (\<lambda>(name, v) c. snd (SetRegister c name v)) rs c)" if "cpu_ok c" for rs c
    using that by (induction rs arbitrary: c) (auto simp: SetRegister_ok)
  then show ?case by (simp add: New_def zero_CPU_ok del: fold.simps)
next
  case (reach_Translate c m a access)
  then show ?case using frame_ok [OF tlb_only_frame [OF Translate_tlb]] by blast
next
  case (reach_Write c m a bs)
  obtain r c' m' where "v_Write ops (vmem_of c) c m a bs = (r, c', m')" by (metis prod_cases3)
  with reach_Write show ?case using frame_ok [OF v_Write_frame] by (simp add: VirtualMemory_Write_def)
next
  case (reach_Invalidate c a n)
  then show ?case by (simp add: InvalidateExclusive_def frame_ok [OF frame_exclusive])
qed (auto simp: SetRegister_ok SetVector_ok Step_ok AdvanceInstructions_fields CPU_Clone_def cpu_ok_fields
      frame_ok [OF frame_ClearTranslationCache])


subsection \<open>Properties\<close>

definition no_device :: "unit device_ops" where
  "no_device = \<lparr>dev_CheckMemory = (\<lambda>d a n access. (Some denied, d)), dev_ReadMemory = (\<lambda>d a n access. (Inl denied, d)),
     dev_WriteMemory = (\<lambda>d a bs. (Some denied, d))\<rparr>"

text \<open>
  C23. A step that fails leaves the processor at the failing instruction: whatever instruction it was, and whichever
  access faulted, the program counter and the virtual clock are those of before the step.
\<close>

theorem arm64_failed_step_keeps_pc:
  assumes "Step ops c m = (Inl e, c', m')"
  shows "c_pc c' = c_pc c \<and> c_ticks c' = c_ticks c"
  using step_cases [OF assms [unfolded Step_def]] by (auto simp: frame_def)

theorem arm64_failed_step_keeps_pc_witness:
  "\<exists>e c' m'. Step no_device (zero_CPU\<lparr>c_pc := 2\<rparr>) (Device ()) = (Inl e, c', m') \<and> c_pc c' = 2"
proof -
  obtain e c' m' where s: "Step no_device (zero_CPU\<lparr>c_pc := 2\<rparr>) (Device ()) = (Inl e, c', m')"
    by (simp add: Step_def step_def)
  with arm64_failed_step_keeps_pc [OF s] show ?thesis by auto
qed

text \<open>
  C24. A step that completes advances the virtual clock by exactly one tick, and unless the instruction is a branch it
  moves to the next word and reports no control transfer.
\<close>

theorem arm64_step_progress:
  assumes "Step ops c m = (Inr effect, c', m')"
  shows "c_ticks c' = c_ticks c + 1 \<and>
    (\<exists>data c1 m1. under_Read ops (vmem_of c) c m (c_pc c) 4 Execute_access = (Inr data, c1, m1) \<and>
      (is_branch (fst (decode c1 (ucast (lane data 0 4)))) \<or> c_pc c' = c_pc c + 4 \<and> effect = Continue))"
proof (cases rule: step_cases [OF assms [unfolded Step_def]])
  case (2 data c1 m1 c2 nxt eff)
  let ?i = "ucast (lane data 0 4) :: u32"
  have "c_pc (snd (decode c1 ?i)) = c_pc c"
    using 2(3) frame_decode [of c1 ?i] by (simp add: frame_def)
  then have "is_branch (fst (decode c1 ?i)) \<or> nxt = c_pc c + 4 \<and> effect = Continue"
    using execute_next [OF 2(5)] 2(2) by auto
  moreover have "c_ticks c' = c_ticks c + 1" "c_pc c' = nxt"
    using 2(6,7) by (simp_all add: AdvanceInstructions_fields frame_def)
  ultimately show ?thesis using 2(1) by blast
qed simp


definition nop_device :: "unit device_ops" where
  "nop_device = no_device\<lparr>dev_ReadMemory := (\<lambda>d a n access. (Inr [0x1f, 0x20, 0x03, 0xd5], d))\<rparr>"

lemma nop_step:
  "\<exists>c' m'. Step nop_device (zero_CPU\<lparr>c_pc := 0x1000\<rparr>) (Device ()) = (Inr Continue, c', m')"
proof -
  let ?c = "zero_CPU\<lparr>c_pc := 0x1000\<rparr>"
  have "cpu_ok ?c" using zero_CPU_ok by (simp add: cpu_ok_fields)
  then have d: "fst (decode ?c 0xd503201f) = opNop"
    using decode_sound(1) [of ?c "0xd503201f"] by (simp add: cpu_ok_def classifyInstruction_def)
  have f: "under_Read nop_device (vmem_of ?c) ?c (Device ()) 0x1000 4 Execute_access = (Inr [0x1f, 0x20, 0x03, 0xd5], ?c, Device ())"
    by (simp add: under_Read_def vmem_of_def zero_CPU_def nop_device_def fill_def)
  have l: "ucast (lane [0x1f, 0x20, 0x03, 0xd5] 0 4) = (0xd503201f :: u32)" by (simp add: lane_def upt_rec)
  show ?thesis using d f l by (cases "decode ?c 0xd503201f") (simp add: Step_def step_def execute_def on_cpu_def)
qed

theorem arm64_step_progress_witness:
  "\<exists>effect c' m'. Step nop_device (zero_CPU\<lparr>c_pc := 0x1000\<rparr>) (Device ()) = (Inr effect, c', m') \<and>
     c_ticks c' = c_ticks zero_CPU + 1"
proof -
  obtain c' m' where s: "Step nop_device (zero_CPU\<lparr>c_pc := 0x1000\<rparr>) (Device ()) = (Inr Continue, c', m')"
    using nop_step by blast
  with arm64_step_progress [OF s] show ?thesis by auto
qed

text \<open>
  C25. The instruction cache is transparent: on every processor a caller can produce, decoding an instruction word
  through the cache gives the class that the classifier gives, whichever words collided in its slot before.
\<close>

theorem arm64_decode_cache_transparent:
  assumes "cpu_reachable ops c"
  shows "fst (decode c i) = classifyInstruction i"
  using decode_sound(1) cpu_reachable_ok [OF assms] by (simp add: cpu_ok_def)

theorem arm64_decode_cache_transparent_witness:
  "fst (decode (cpu_of (Step nop_device New (Device ()))) 0xd503201f) = classifyInstruction 0xd503201f"
  by (rule arm64_decode_cache_transparent [OF reach_Step [OF reach_New], of nop_device "Device ()"])

text \<open>A walk that starts at some level reads one descriptor per level it visits.\<close>

lemma walk_loop_reads:
  assumes counts: "\<And>n a len access. snd (dev_ReadMemory ops n a len access) = Suc n"
  shows "\<exists>k \<le> 4 - level. snd (walk_loop ops c address va access level table rights (Device n)) = Device (n + k)"
proof (induction "4 - level" arbitrary: level table rights n)
  case 0
  then show ?case by (subst walk_loop.simps) auto
next
  case (Suc x)
  let ?a = "table + (drop_bit (12 + 9 * (3 - level)) va AND 511) * 8"
  obtain r where r: "dev_ReadMemory ops n ?a 8 Read_access = (r, Suc n)" using counts by (metis prod.collapse)
  have rd: "readDescriptor ops (Device n) ?a = (case r of Inl e \<Rightarrow> (Inl e, Device (Suc n)) | Inr b \<Rightarrow> (Inr (lane (fill 8 b) 0 8), Device (Suc n)))"
    by (simp add: readDescriptor_def r split: sum.splits)
  have le: "level \<le> 3" and x: "x = 4 - (level + 1)" using Suc.hyps(2) by simp_all
  have one: "\<exists>k \<le> 4 - level. Device (Suc n) = Device (n + k)" using le by (intro exI [of _ 1]) simp
  have more: "\<exists>k \<le> 4 - level. snd (walk_loop ops c address va access (level + 1) t rs (Device (Suc n))) = Device (n + k)" for t rs
  proof -
    obtain k where "k \<le> 4 - (level + 1)"
        "snd (walk_loop ops c address va access (level + 1) t rs (Device (Suc n))) = Device (Suc n + k)"
      using Suc.hyps(1) [OF x] by blast
    then show ?thesis using le by (intro exI [of _ "Suc k"]) simp
  qed
  show ?case using one more le
    by (subst walk_loop.simps) (simp add: track_def rd Let_def split: sum.splits)
qed

text \<open>
  C26. A table walk ends: whatever the tables hold, tables that point back to themselves included, translating an
  address reads at most four descriptors. The memory here counts the reads it serves.
\<close>

theorem arm64_walk_terminates:
  assumes "\<And>n a len access. snd (dev_ReadMemory ops n a len access) = Suc n"
  shows "\<exists>k \<le> 4. snd (walk ops c (Device n) address access) = Device (n + k)"
proof -
  have "\<exists>k \<le> 4. snd (walk_loop ops c address va access level table rights (Device n)) = Device (n + k)" for va level table rights
    using walk_loop_reads [OF assms] by (meson diff_le_self le_trans)
  moreover have "\<exists>k \<le> 4. Device n = Device (n + k)" by (intro exI [of _ 0]) simp
  ultimately show ?thesis by (simp add: walk_def Let_def)
qed

definition self_table :: "nat device_ops" where
  "self_table = \<lparr>dev_CheckMemory = (\<lambda>d a n access. (None, d)),
     dev_ReadMemory = (\<lambda>d a n access. (Inr (3 # replicate (n - 1) 0), Suc d)), dev_WriteMemory = (\<lambda>d a bs. (None, d))\<rparr>"

theorem arm64_walk_terminates_witness:
  "\<exists>k \<le> 4. snd (walk self_table (zero_CPU\<lparr>c_system := (replicate 24 0)[0 := 1, 3 := 16]\<rparr>) (Device 0) 0x1000 Read_access) = Device k"
  using arm64_walk_terminates [of self_table "zero_CPU\<lparr>c_system := (replicate 24 0)[0 := 1, 3 := 16]\<rparr>" 0 "0x1000" Read_access]
  by (simp add: self_table_def)

end
