(* ===== verification/Generated_Image.thy ===== *)
theory Generated_Image
  imports Readers Overlay_Extents
begin

text \<open>
  Sparse read-only images composed from extents: \<open>src/filesystem/image.go\<close>, with \<open>ExtentSpec\<close> and
  \<open>NewGeneratedImage\<close> of \<open>src/filesystem/public.go\<close>. Every partition table and file system builder publishes its
  output as such an image. The index that \<open>ensureIndexed\<close> computes once is a function of the fields given to the
  constructor. A file that also reports extents is a reader with that method beside it.
\<close>

subsection \<open>Extents and their index\<close>

record imageExtent =
  ie_start :: int
  ie_size :: int
  ie_data :: "bytes option"
  ie_file :: "reader option"
  ie_extenter :: "(int \<Rightarrow> int \<Rightarrow> go_error + extent list) option"
  ie_off :: int

record generatedImageFile =
  gi_size :: int
  gi_extents :: "imageExtent list"

abbreviation ie_end :: "imageExtent \<Rightarrow> int" where
  "ie_end e \<equiv> ie_start e + ie_size e"

fun keep_extents :: "int \<Rightarrow> imageExtent list \<Rightarrow> go_error + imageExtent list" where
  "keep_extents sz [] = Inr []"
| "keep_extents sz (e # es) =
     (if ie_size e = 0 then keep_extents sz es
      else if ie_start e < 0 \<or> ie_size e < 0 \<or> ie_start e > sz \<or> ie_size e > sz - ie_start e
      then Inl (Errorf ''%s: extent [%d,%d) is outside image size %d'')
      else if ie_file e = None \<and> ie_data e \<noteq> None \<and> int (length (the (ie_data e))) < ie_size e
      then Inl (Errorf ''%s: extent [%d,%d) has only %d data bytes'')
      else case keep_extents sz es of Inl err \<Rightarrow> Inl err | Inr kept \<Rightarrow> Inr (e # kept))"

fun overlapping :: "imageExtent list \<Rightarrow> bool" where
  "overlapping (e # f # es) \<longleftrightarrow> ie_start f < ie_end e \<or> overlapping (f # es)"
| "overlapping _ \<longleftrightarrow> False"

definition ensureIndexed :: "generatedImageFile \<Rightarrow> go_error + imageExtent list" where
  "ensureIndexed f =
     (if gi_size f < 0 then Inl (Errorf ''%s: negative image size %d'')
      else case keep_extents (gi_size f) (gi_extents f) of
        Inl err \<Rightarrow> Inl err
      | Inr kept \<Rightarrow>
          let extents = sort_key ie_start kept in
          if overlapping extents then Inl (Errorf ''%s: overlapping extents [%d,%d) and [%d,%d)'')
          else Inr extents)"

subsection \<open>Reading\<close>

definition past_extent :: "imageExtent \<Rightarrow> int \<Rightarrow> bytes \<Rightarrow> nat \<Rightarrow> nat" where
  "past_extent e off p index = (if off + int (length p) \<ge> ie_end e then index + 1 else index)"

lemma shorter_rest: "length p < r \<Longrightarrow> xs \<noteq> [] \<Longrightarrow> r - (length p + length xs) < r - length p"
  by (cases xs) auto

text \<open>The error of a short buffer is added by the caller; here \<open>None\<close> is the end of the loop.\<close>

function image_loop :: "imageExtent list \<Rightarrow> nat \<Rightarrow> int \<Rightarrow> nat \<Rightarrow> bytes \<Rightarrow> read_result" where
  "image_loop es remaining off index p =
     (if length p < remaining
      then let pos = off + int (length p);
               n = remaining - length p in
        if index < length es \<and> pos < ie_start (es ! index)
        then image_loop es remaining off index (p @ replicate (min n (nat (ie_start (es ! index) - pos))) 0)
        else if index < length es \<and> pos < ie_end (es ! index)
        then let e = es ! index;
                 within = pos - ie_start e;
                 n = min n (nat (ie_size e - within)) in
          case ie_file e of
            Some file \<Rightarrow>
              (let (bs, err) = rd_ReadAt file n (i64 (ie_off e + within)) in
               if bs = [] \<and> err = None then (p, Some ErrNoProgress)
               else if err \<noteq> None \<and> \<not> (err = Some EOF \<and> length bs = n) then (p @ bs, err)
               else image_loop es remaining off (past_extent e off (p @ bs) index) (p @ bs))
          | None \<Rightarrow>
              (case ie_data e of
                 None \<Rightarrow> image_loop es remaining off (past_extent e off (p @ replicate n 0) index) (p @ replicate n 0)
               | Some d \<Rightarrow>
                   if nat within + n > length d then (p, Some (Panic ''slice bounds out of range''))
                   else image_loop es remaining off (past_extent e off (p @ segment (nat within) n d) index)
                          (p @ segment (nat within) n d))
        else (p @ replicate n 0, None)
      else (p, None))"
  by pat_completeness auto
termination
  by (relation "measure (\<lambda>(es, remaining, off, index, p). remaining - length p)") (auto simp: min_def split: if_splits intro: shorter_rest, linarith)

declare image_loop.simps [simp del]

definition image_ReadAt :: "generatedImageFile \<Rightarrow> reader_at" where
  "image_ReadAt f n off =
     (case ensureIndexed f of
        Inl err \<Rightarrow> ([], Some err)
      | Inr es \<Rightarrow>
          if off < 0 then ([], Some (Errorf ''negative offset''))
          else if n = 0 then ([], None)
          else if off \<ge> gi_size f then ([], Some EOF)
          else let remaining = (if int n > gi_size f - off then nat (gi_size f - off) else n) in
            case image_loop es remaining off (sort_Search (length es) (\<lambda>i. ie_end (es ! i) > off)) [] of
              (p, Some err) \<Rightarrow> (p, Some err)
            | (p, None) \<Rightarrow> (p, if n > length p then Some EOF else None))"

definition NewGeneratedImage :: "int \<Rightarrow> imageExtent list \<Rightarrow> generatedImageFile" where
  "NewGeneratedImage sz specs = \<lparr>gi_size = sz, gi_extents = specs\<rparr>"

definition image_reader :: "generatedImageFile \<Rightarrow> reader" where
  "image_reader f = \<lparr>rd_ReadAt = image_ReadAt f, rd_Size = gi_size f\<rparr>"


subsection \<open>Allocation\<close>

text \<open>
  The extents a file reports for the part of it that an image extent shows, moved to their place in the image. The
  closure \<open>appendExtent\<close> of \<open>Extents\<close> merges like the one of the overlay.
\<close>

fun append_nested :: "int \<Rightarrow> int \<Rightarrow> int \<Rightarrow> int \<Rightarrow> extent list \<Rightarrow> extent list \<Rightarrow> go_error + extent list" where
  "append_nested fin position sourceOffset expected [] out =
     (if expected \<noteq> fin then Inl (Errorf ''%s: nested extent map does not cover requested range'') else Inr out)"
| "append_nested fin position sourceOffset expected (e # es) out =
     (if ext_Length e \<le> 0 \<or> ext_Offset e \<noteq> expected \<or> ext_Length e > i64 (fin - expected)
      then Inl (Errorf ''%s: nested extent map does not cover requested range'')
      else append_nested fin position sourceOffset (i64 (expected + ext_Length e)) es
             (appendExtent out \<lparr>ext_Offset = position + i64 (ext_Offset e - sourceOffset),
                ext_Length = ext_Length e, ext_Allocated = ext_Allocated e\<rparr>))"

definition append_segment :: "imageExtent \<Rightarrow> int \<Rightarrow> int \<Rightarrow> extent list \<Rightarrow> go_error + extent list" where
  "append_segment e position segmentSize out =
     (case ie_extenter e of
        Some provider \<Rightarrow>
          (let sourceOffset = i64 (ie_off e + (position - ie_start e)) in
           case provider sourceOffset segmentSize of
             Inl err \<Rightarrow> Inl err
           | Inr sourceExtents \<Rightarrow>
               append_nested (i64 (sourceOffset + segmentSize)) position sourceOffset sourceOffset sourceExtents out)
      | None \<Rightarrow>
          Inr (appendExtent out \<lparr>ext_Offset = position, ext_Length = segmentSize,
                                ext_Allocated = (ie_file e \<noteq> None \<or> ie_data e \<noteq> None)\<rparr>))"

function image_extent_loop :: "imageExtent list \<Rightarrow> int \<Rightarrow> nat \<Rightarrow> int \<Rightarrow> extent list \<Rightarrow> go_error + extent list" where
  "image_extent_loop es fin index position out =
     (if position < fin
      then if index \<ge> length es \<or> ie_start (es ! index) \<ge> fin
        then Inr (appendExtent out \<lparr>ext_Offset = position, ext_Length = fin - position, ext_Allocated = False\<rparr>)
        else let e = es ! index in
        if position < ie_start e
        then let gapEnd = min fin (ie_start e)
             in image_extent_loop es fin index gapEnd
                  (appendExtent out \<lparr>ext_Offset = position, ext_Length = gapEnd - position, ext_Allocated = False\<rparr>)
        else let extentEnd = min fin (ie_end e)
             in case append_segment e position (extentEnd - position) out of
                  Inl err \<Rightarrow> Inl err
                | Inr out' \<Rightarrow>
                    image_extent_loop es fin (if extentEnd \<ge> ie_end e then index + 1 else index) extentEnd out'
      else Inr out)"
  by pat_completeness auto
termination
  by (relation "measures [\<lambda>(es, fin, index, position, out). length es - index,
      \<lambda>(es, fin, index, position, out). nat (fin - position)]") (auto simp: min_def split: if_splits)

declare image_extent_loop.simps [simp del]

definition image_Extents :: "generatedImageFile \<Rightarrow> int \<Rightarrow> int \<Rightarrow> go_error + extent list" where
  "image_Extents f off len =
     (case ensureIndexed f of
        Inl err \<Rightarrow> Inl err
      | Inr es \<Rightarrow>
          (case ValidateRange (gi_size f) off len of
             Some err \<Rightarrow> Inl err
           | None \<Rightarrow>
               if len = 0 then Inr []
               else image_extent_loop es (off + len) (sort_Search (length es) (\<lambda>i. ie_end (es ! i) > off)) off []))"

subsection \<open>What an image holds\<close>

definition extent_byte :: "imageExtent \<Rightarrow> nat \<Rightarrow> byte" where
  "extent_byte e i =
     (case ie_file e of
        Some r \<Rightarrow> reader_bytes r ! (nat (ie_off e) + i)
      | None \<Rightarrow> (case ie_data e of Some d \<Rightarrow> d ! i | None \<Rightarrow> 0))"

definition covers_pos :: "int \<Rightarrow> imageExtent \<Rightarrow> bool" where
  "covers_pos k e \<longleftrightarrow> ie_start e \<le> k \<and> k < ie_end e"

definition image_at :: "imageExtent list \<Rightarrow> int \<Rightarrow> byte" where
  "image_at es k = (case find (covers_pos k) es of None \<Rightarrow> 0 | Some e \<Rightarrow> extent_byte e (nat (k - ie_start e)))"

definition image_bytes :: "int \<Rightarrow> imageExtent list \<Rightarrow> bytes" where
  "image_bytes sz es = map (\<lambda>k. image_at es (int k)) [0..<nat sz]"

text \<open>The files behind an image hold what their extents refer to.\<close>

definition extent_backed :: "imageExtent \<Rightarrow> bool" where
  "extent_backed e \<longleftrightarrow> (\<forall>r. ie_file e = Some r \<longrightarrow> reader_ok r \<and> 0 \<le> ie_off e \<and>
     ie_off e + ie_size e \<le> int (length (reader_bytes r)) \<and> ie_off e + ie_size e \<le> max_int64)"

definition extent_fits :: "int \<Rightarrow> imageExtent \<Rightarrow> bool" where
  "extent_fits sz e \<longleftrightarrow> 0 \<le> ie_start e \<and> 0 < ie_size e \<and> ie_end e \<le> sz \<and>
     (\<forall>d. ie_file e = None \<longrightarrow> ie_data e = Some d \<longrightarrow> ie_size e \<le> int (length d))"

definition index_ok :: "int \<Rightarrow> imageExtent list \<Rightarrow> bool" where
  "index_ok sz es \<longleftrightarrow> (\<forall>e \<in> set es. extent_fits sz e) \<and> sorted_wrt (\<lambda>e f. ie_end e \<le> ie_start f) es"

lemma keep_extents_ok:
  "keep_extents sz es = Inr kept \<Longrightarrow> set kept = {e \<in> set es. ie_size e \<noteq> 0} \<and> (\<forall>e \<in> set kept. extent_fits sz e)"
  by (induction sz es arbitrary: kept rule: keep_extents.induct)
    (auto simp: extent_fits_def split: if_splits sum.splits)

lemma separated_if_sorted:
  "sorted (map ie_start es) \<Longrightarrow> \<not> overlapping es \<Longrightarrow> (\<And>e. e \<in> set es \<Longrightarrow> 0 < ie_size e) \<Longrightarrow>
   sorted_wrt (\<lambda>e f. ie_end e \<le> ie_start f) es"
proof (induction es rule: overlapping.induct)
  case (1 e f es)
  then have "ie_end e \<le> ie_start f" "\<And>g. g \<in> set es \<Longrightarrow> ie_start f \<le> ie_start g" by auto
  then have "ie_end e \<le> ie_start g" if "g \<in> set (f # es)" for g using that by fastforce
  with 1 show ?case by auto
qed auto

lemma ensureIndexed_ok:
  assumes "ensureIndexed f = Inr es"
  shows "index_ok (gi_size f) es" and "set es = {e \<in> set (gi_extents f). ie_size e \<noteq> 0}" and "0 \<le> gi_size f"
proof -
  obtain kept where k: "keep_extents (gi_size f) (gi_extents f) = Inr kept" and es: "es = sort_key ie_start kept"
    and no: "\<not> overlapping es" and sz: "0 \<le> gi_size f"
    using assms by (auto simp: ensureIndexed_def Let_def split: if_splits sum.splits)
  note kk = keep_extents_ok [OF k]
  show "0 \<le> gi_size f" by (rule sz)
  show "set es = {e \<in> set (gi_extents f). ie_size e \<noteq> 0}" using kk es by simp
  have "sorted_wrt (\<lambda>e f. ie_end e \<le> ie_start f) es"
    using kk no by (intro separated_if_sorted) (auto simp: es extent_fits_def)
  then show "index_ok (gi_size f) es" using kk es by (simp add: index_ok_def)
qed

lemma index_apart:
  "index_ok sz es \<Longrightarrow> i < j \<Longrightarrow> j < length es \<Longrightarrow> ie_end (es ! i) \<le> ie_start (es ! j)"
  by (auto simp: index_ok_def sorted_wrt_iff_nth_less)

lemma index_fits: "index_ok sz es \<Longrightarrow> i < length es \<Longrightarrow> extent_fits sz (es ! i)"
  by (simp add: index_ok_def)

lemma image_at_extent:
  assumes ok: "index_ok sz es" and j: "j < length es" and c: "covers_pos k (es ! j)"
  shows "image_at es k = extent_byte (es ! j) (nat (k - ie_start (es ! j)))"
proof -
  have "\<not> covers_pos k (es ! i)" if "i < j" for i
    using index_apart [OF ok that j] c by (auto simp: covers_pos_def)
  then have "find (covers_pos k) es = Some (es ! j)" using j c by (auto simp: find_Some_iff)
  then show ?thesis by (simp add: image_at_def)
qed

lemma image_at_gap: "(\<And>j. j < length es \<Longrightarrow> \<not> covers_pos k (es ! j)) \<Longrightarrow> image_at es k = 0"
proof -
  assume "\<And>j. j < length es \<Longrightarrow> \<not> covers_pos k (es ! j)"
  then have "find (covers_pos k) es = None" by (auto simp: find_None_iff in_set_conv_nth)
  then show ?thesis by (simp add: image_at_def)
qed


definition image_run :: "imageExtent list \<Rightarrow> int \<Rightarrow> nat \<Rightarrow> bytes" where
  "image_run es a n = map (\<lambda>k. image_at es (a + int k)) [0..<n]"

lemma length_image_run [simp]: "length (image_run es a n) = n"
  by (simp add: image_run_def)

lemma image_run_0 [simp]: "image_run es a 0 = []"
  by (simp add: image_run_def)

lemma image_run_split: "m \<le> n \<Longrightarrow> image_run es a n = image_run es a m @ image_run es (a + int m) (n - m)"
  by (rule nth_equalityI) (auto simp: image_run_def nth_append algebra_simps)

lemma image_run_gap:
  "(\<And>k j. a \<le> k \<Longrightarrow> k < a + int n \<Longrightarrow> j < length es \<Longrightarrow> \<not> covers_pos k (es ! j)) \<Longrightarrow> image_run es a n = replicate n 0"
  unfolding image_run_def by (rule nth_equalityI) (auto intro!: image_at_gap)

lemma image_run_inside:
  assumes "index_ok sz es" and "j < length es" and "ie_start (es ! j) \<le> a" and "a + int n \<le> ie_end (es ! j)"
  shows "image_run es a n = map (\<lambda>k. extent_byte (es ! j) (nat (a - ie_start (es ! j)) + k)) [0..<n]"
proof -
  have "image_at es (a + int k) = extent_byte (es ! j) (nat (a - ie_start (es ! j)) + k)" if "k < n" for k
  proof -
    have "covers_pos (a + int k) (es ! j)" using that assms(3,4) by (simp add: covers_pos_def)
    moreover have "nat (a + int k - ie_start (es ! j)) = nat (a - ie_start (es ! j)) + k" using assms(3) by simp
    ultimately show ?thesis using image_at_extent [OF assms(1,2)] by simp
  qed
  then show ?thesis unfolding image_run_def by simp
qed

text \<open>What the three kinds of extents deliver for a range inside them.\<close>

lemma file_extent_read:
  assumes b: "extent_backed e" and f: "ie_file e = Some r" and w: "0 \<le> w" "0 < n" "w + int n \<le> ie_size e"
  obtains err where "rd_ReadAt r n (i64 (ie_off e + w)) = (map (\<lambda>k. extent_byte e (nat w + k)) [0..<n], err)"
    and "err = None \<or> err = Some EOF"
proof -
  from b f have ok: "reader_ok r" and o: "0 \<le> ie_off e" "ie_off e + ie_size e \<le> int (length (reader_bytes r))"
      "ie_off e + ie_size e \<le> max_int64" by (auto simp: extent_backed_def)
  have i: "i64 (ie_off e + w) = ie_off e + w" using o w by (intro i64_nonneg) auto
  have fit: "0 \<le> ie_off e + w" "nat (ie_off e + w) + n \<le> length (reader_bytes r)" using o w by auto
  have "nat (ie_off e + w) = nat (ie_off e) + nat w" using o w by (simp add: nat_add_distrib)
  then have "segment (nat (ie_off e + w)) n (reader_bytes r) = map (\<lambda>k. extent_byte e (nat w + k)) [0..<n]"
    using fit(2) f by (intro nth_equalityI) (auto simp: extent_byte_def add.assoc)
  with reader_okE [OF ok w(2) fit] i that show thesis by metis
qed

lemma data_extent_read:
  "ie_file e = None \<Longrightarrow> ie_data e = Some d \<Longrightarrow> w + n \<le> length d \<Longrightarrow> segment w n d = map (\<lambda>k. extent_byte e (w + k)) [0..<n]"
  by (rule nth_equalityI) (auto simp: extent_byte_def)

lemma zero_extent_read:
  "ie_file e = None \<Longrightarrow> ie_data e = None \<Longrightarrow> replicate n 0 = map (\<lambda>k. extent_byte e (w + k)) [0..<n]"
  by (rule nth_equalityI) (auto simp: extent_byte_def)

definition at_index :: "imageExtent list \<Rightarrow> int \<Rightarrow> nat \<Rightarrow> bool" where
  "at_index es pos index \<longleftrightarrow> index \<le> length es \<and> (\<forall>j < index. ie_end (es ! j) \<le> pos) \<and>
     (index < length es \<longrightarrow> pos < ie_end (es ! index))"

lemma at_index_past:
  assumes ok: "index_ok sz es" and at: "at_index es pos index" and i: "index < length es"
    and st: "ie_start (es ! index) \<le> pos'" and le: "pos' \<le> ie_end (es ! index)" and pp: "pos \<le> pos'"
  shows "at_index es pos' (if pos' \<ge> ie_end (es ! index) then index + 1 else index)"
proof -
  have "\<forall>j < index. ie_end (es ! j) \<le> pos'" using at pp unfolding at_index_def by (metis order_trans)
  moreover have "pos' < ie_end (es ! (index + 1))" if "index + 1 < length es"
    using index_apart [OF ok _ that, of index] index_fits [OF ok that] le by (simp add: extent_fits_def)
  ultimately show ?thesis using i le by (auto simp: at_index_def less_Suc_eq)
qed


lemma gap_run:
  assumes ok: "index_ok sz es" and at: "at_index es pos index" and i: "index < length es"
    and m: "pos + int m \<le> ie_start (es ! index)"
  shows "image_run es pos m = replicate m 0" and "at_index es (pos + int m) index"
proof -
  have nc: "\<not> covers_pos k (es ! j)" if "pos \<le> k" "k < pos + int m" "j < length es" for k j
  proof (cases "j < index")
    case True
    then show ?thesis using at that(1) by (auto simp: at_index_def covers_pos_def)
  next
    case False
    then have "ie_start (es ! index) \<le> ie_start (es ! j)"
      using index_apart [OF ok _ that(3), of index] index_fits [OF ok i]
      by (cases "j = index") (auto simp: extent_fits_def)
    then show ?thesis using that(2) m by (auto simp: covers_pos_def)
  qed
  show "image_run es pos m = replicate m 0" by (rule image_run_gap, rule nc)
  have "0 < ie_size (es ! index)" using index_fits [OF ok i] by (simp add: extent_fits_def)
  then show "at_index es (pos + int m) index" using at m unfolding at_index_def by fastforce
qed

lemma past_run: "at_index es pos (length es) \<Longrightarrow> image_run es pos n = replicate n 0"
  by (rule image_run_gap) (fastforce simp: at_index_def covers_pos_def)

text \<open>One turn of the loop inside an extent reads up to the end of the extent or of the request.\<close>

lemma inside_turn:
  assumes ok: "index_ok sz es" and backed: "extent_backed (es ! index)" and i: "index < length es"
    and "ie_start (es ! index) \<le> off + int (length p)" and "off + int (length p) < ie_end (es ! index)"
    and "length p < remaining"
    and m: "m = min (remaining - length p) (nat (ie_size (es ! index) - (off + int (length p) - ie_start (es ! index))))"
  shows "image_loop es remaining off index p =
    image_loop es remaining off (past_extent (es ! index) off (p @ image_run es (off + int (length p)) m) index)
      (p @ image_run es (off + int (length p)) m)"
proof -
  define e pos where "e = es ! index" and "pos = off + int (length p)"
  let ?w = "pos - ie_start e" and ?bs = "map (\<lambda>k. extent_byte e (nat (pos - ie_start e) + k)) [0..<m]"
  have c: "ie_start e \<le> pos" "pos < ie_end e" "index < length es" using assms by (simp_all add: e_def pos_def)
  have w: "0 \<le> ?w" "0 < m" "?w + int m \<le> ie_size e" using c m assms(6) by (auto simp: e_def pos_def)
  have run: "image_run es pos m = ?bs"
    using image_run_inside [OF ok i, of pos m] c(1) w(3) by (simp add: e_def)
  have mm: "min (remaining - length p) (nat (ie_size e - ?w)) = m" by (simp add: m e_def pos_def)
  have fits: "extent_fits sz e" using index_fits [OF ok i] by (simp add: e_def)
  note step = image_loop.simps [of es remaining off index p, folded pos_def, folded e_def]
  show ?thesis unfolding pos_def [symmetric] e_def [symmetric] run
  proof (cases "ie_file e")
    case (Some r)
    obtain err where "rd_ReadAt r m (i64 (ie_off e + ?w)) = (?bs, err)" "err = None \<or> err = Some EOF"
      using file_extent_read [OF backed [folded e_def] Some w] by blast
    moreover have "?bs \<noteq> []" using w(2) by simp
    ultimately show "image_loop es remaining off index p = image_loop es remaining off (past_extent e off (p @ ?bs) index) (p @ ?bs)"
      using c assms(6) Some mm by (subst step) (auto simp: Let_def)
  next
    case None
    show "image_loop es remaining off index p = image_loop es remaining off (past_extent e off (p @ ?bs) index) (p @ ?bs)"
    proof (cases "ie_data e")
      case (Some d)
      have "nat ?w + m \<le> length d" using fits None Some w by (auto simp: extent_fits_def)
      with data_extent_read [OF None Some this] show ?thesis
        using c assms(6) None Some mm by (subst step) (simp add: Let_def)
    next
      case no: None
      with zero_extent_read [OF None no, of m "nat ?w"] show ?thesis
        using c assms(6) None mm by (subst step) (simp add: Let_def)
    qed
  qed
qed

lemma image_loop_ok:
  assumes ok: "index_ok sz es" and backed: "\<And>e. e \<in> set es \<Longrightarrow> extent_backed e"
    and "at_index es (off + int (length p)) index" and "length p \<le> remaining"
  shows "image_loop es remaining off index p = (p @ image_run es (off + int (length p)) (remaining - length p), None)"
  using assms(3,4)
proof (induction "remaining - length p" arbitrary: p index rule: less_induct)
  case less
  define pos n where "pos = off + int (length p)" and "n = remaining - length p"
  note at = less.prems(1) [folded pos_def]
  have IH: "image_loop es remaining off i (p @ image_run es pos m) = (p @ image_run es pos n, None)"
    if "0 < m" "m \<le> n" "at_index es (pos + int m) i" for i m
    using less.hyps [of "p @ image_run es pos m" i] that less.prems(2) image_run_split [OF that(2), of es pos]
    by (simp add: pos_def n_def add.assoc)
  consider (fin) "n = 0"
    | (gap) "0 < n" "index < length es" "pos < ie_start (es ! index)"
    | (inside) "0 < n" "index < length es" "ie_start (es ! index) \<le> pos" "pos < ie_end (es ! index)"
    | (past) "0 < n" "index = length es" using at by (fastforce simp: at_index_def)
  then show ?case
  proof cases
    case fin
    then show ?thesis using less.prems(2) by (subst image_loop.simps) (simp add: n_def)
  next
    case gap
    define m where "m = min n (nat (ie_start (es ! index) - pos))"
    have m: "0 < m" "m \<le> n" "pos + int m \<le> ie_start (es ! index)" using gap by (auto simp: m_def)
    note g = gap_run [OF ok at gap(2) m(3)]
    have "image_loop es remaining off index (p @ replicate m 0) = (p @ image_run es pos n, None)"
      using IH [OF m(1,2) g(2)] g(1) by simp
    then show ?thesis using gap by (subst image_loop.simps) (simp add: Let_def n_def pos_def m_def)
  next
    case past
    then show ?thesis using past_run [of es pos n] at
      by (subst image_loop.simps) (simp add: Let_def n_def pos_def)
  next
    case inside
    define m where "m = min n (nat (ie_size (es ! index) - (pos - ie_start (es ! index))))"
    have m: "0 < m" "m \<le> n" "pos + int m \<le> ie_end (es ! index)" using inside by (auto simp: m_def)
    have "at_index es (pos + int m) (past_extent (es ! index) off (p @ image_run es pos m) index)"
      using at_index_past [OF ok at inside(2) _ m(3)] inside(3) by (simp add: past_extent_def pos_def add.assoc)
    from IH [OF m(1,2) this] inside_turn [OF ok backed [OF nth_mem [OF inside(2)]] inside(2), of off p remaining m] inside
    show ?thesis by (simp add: n_def pos_def m_def)
  qed
qed


lemma index_search:
  assumes ok: "index_ok sz es"
  shows "at_index es off (sort_Search (length es) (\<lambda>i. ie_end (es ! i) > off))"
proof -
  let ?f = "\<lambda>i. ie_end (es ! i) > off"
  have mono: "?f l" if "k \<le> l" "l < length es" "?f k" for k l
    using that index_apart [OF ok _ that(2), of k] index_fits [OF ok that(2)]
    by (cases "k = l") (auto simp: extent_fits_def)
  have "sort_Search (length es) ?f \<le> length es \<and> (\<forall>k < sort_Search (length es) ?f. \<not> ?f k) \<and>
    (\<forall>k. sort_Search (length es) ?f \<le> k \<and> k < length es \<longrightarrow> ?f k)"
    by (rule sort_Search_least, rule mono)
  then show ?thesis unfolding at_index_def by (meson leI order_refl)
qed

lemma length_image_bytes [simp]: "length (image_bytes sz es) = nat sz"
  by (simp add: image_bytes_def)

lemma image_run_segment:
  "0 \<le> off \<Longrightarrow> nat off + n \<le> nat sz \<Longrightarrow> image_run es off n = segment (nat off) n (image_bytes sz es)"
  by (rule nth_equalityI) (auto simp: image_run_def image_bytes_def)

lemma image_ReadAt_ok:
  assumes ix: "ensureIndexed f = Inr es" and backed: "\<forall>e \<in> set es. extent_backed e"
    and "0 \<le> off" and "0 < n"
  shows "image_ReadAt f n off = Bytes_ReadAt (image_bytes (gi_size f) es) n off"
proof (cases "off < gi_size f")
  case False
  with assms ensureIndexed_ok(3) [OF ix] show ?thesis by (simp add: image_ReadAt_def Bytes_ReadAt_def)
next
  case True
  note ok = ensureIndexed_ok(1) [OF ix]
  define remaining where "remaining = (if int n > gi_size f - off then nat (gi_size f - off) else n)"
  have l: "image_loop es remaining off (sort_Search (length es) (\<lambda>i. ie_end (es ! i) > off)) [] = (image_run es off remaining, None)"
    using image_loop_ok [OF ok bspec [OF backed], of off "[]" _ remaining] index_search [OF ok, of off] by simp
  have r: "nat off + remaining \<le> nat (gi_size f)" using True assms(3) by (auto simp: remaining_def)
  have "take n (drop (nat off) (image_bytes (gi_size f) es)) = segment (nat off) remaining (image_bytes (gi_size f) es)"
    using True assms(3) by (auto simp: segment_def remaining_def)
  then have "take n (drop (nat off) (image_bytes (gi_size f) es)) = image_run es off remaining"
    using image_run_segment [OF assms(3) r] by simp
  with l True assms show ?thesis
    by (auto simp: image_ReadAt_def Bytes_ReadAt_def Let_def simp flip: remaining_def)
      (simp_all add: remaining_def split: if_splits)
qed

lemma image_reader_ok:
  assumes ix: "ensureIndexed f = Inr es" and backed: "\<forall>e \<in> set es. extent_backed e"
  shows "reader_ok (image_reader f)" and "reader_bytes (image_reader f) = image_bytes (gi_size f) es"
proof -
  note rd = image_ReadAt_ok [OF ix backed]
  show b: "reader_bytes (image_reader f) = image_bytes (gi_size f) es"
  proof (cases "nat (gi_size f) = 0")
    case True
    then show ?thesis by (simp add: reader_bytes_def image_reader_def image_ReadAt_def ix image_bytes_def)
  next
    case False
    then show ?thesis using rd [of 0 "nat (gi_size f)"]
      by (simp add: reader_bytes_def image_reader_def Bytes_ReadAt_def Let_def)
  qed
  have "image_ReadAt f n off = (segment (nat off) n (image_bytes (gi_size f) es), None)"
    if "0 < n" "0 \<le> off" "nat off + n \<le> nat (gi_size f)" for n off
  proof -
    have "\<not> off \<ge> int (length (image_bytes (gi_size f) es))" using that by (simp, linarith)
    with that rd [OF that(2,1)] show ?thesis by (simp add: Bytes_ReadAt_def segment_def Let_def)
  qed
  then show "reader_ok (image_reader f)" unfolding reader_ok_def b
    using ensureIndexed_ok(3) [OF ix] by (simp add: image_reader_def)
qed


subsection \<open>Soundness of the allocation map\<close>

text \<open>What a nested file promises of its extents: they tile the request, and its holes read as zero.\<close>

definition extenter_ok :: "imageExtent \<Rightarrow> bool" where
  "extenter_ok e \<longleftrightarrow> (\<forall>provider. ie_extenter e = Some provider \<longrightarrow>
     (\<exists>r. ie_file e = Some r \<and> (\<forall>a n. 0 \<le> a \<longrightarrow> 0 < n \<longrightarrow> a + n \<le> int (length (reader_bytes r)) \<longrightarrow>
        (\<exists>es. provider a n = Inr es \<and> tiles a (a + n) es \<and> (\<forall>x \<in> holes es. reader_bytes r ! nat x = 0)))))"

lemma append_nested_ok:
  assumes "tiles a (expected + (pos - s)) out" and "coalesced out" and "tiles expected fin es"
    and "0 \<le> s" "s \<le> expected" "fin \<le> max_int64"
  shows "\<exists>out'. append_nested fin pos s expected es out = Inr out' \<and> tiles a (fin + (pos - s)) out' \<and> coalesced out' \<and>
    (\<forall>x \<in> holes out'. x \<in> holes out \<or> x - (pos - s) \<in> holes es)"
  using assms
proof (induction es arbitrary: expected out)
  case Nil
  then show ?case by simp
next
  case (Cons e es)
  let ?e = "\<lparr>ext_Offset = pos + (expected - s), ext_Length = ext_Length e, ext_Allocated = ext_Allocated e\<rparr>"
  from Cons.prems(3) have e: "ext_Offset e = expected" "0 < ext_Length e" "tiles (expected + ext_Length e) fin es" by auto
  note le = tiles_le [OF e(3)]
  have w: "i64 (fin - expected) = fin - expected" "i64 (expected + ext_Length e) = expected + ext_Length e"
    "i64 (expected - s) = expected - s"
    using Cons.prems(4-6) e(1,2) le by (intro i64_nonneg; simp)+
  have step: "tiles a (expected + (pos - s) + ext_Length e) (appendExtent out ?e)" "coalesced (appendExtent out ?e)"
    "holes (appendExtent out ?e) = holes out \<union> hole ?e"
    using appendExtent_ok [OF Cons.prems(1,2), of ?e] e by simp_all
  have h: "x - (pos - s) \<in> hole e" if "x \<in> hole ?e" for x using that e(1) by (auto simp: hole_def split: if_splits)
  from Cons.IH [of "expected + ext_Length e" "appendExtent out ?e"] step e Cons.prems(4-6)
  obtain out' where o: "append_nested fin pos s (expected + ext_Length e) es (appendExtent out ?e) = Inr out'"
    "tiles a (fin + (pos - s)) out'" "coalesced out'"
    "\<forall>x \<in> holes out'. x \<in> holes (appendExtent out ?e) \<or> x - (pos - s) \<in> holes es"
    by (auto simp: algebra_simps)
  have "x \<in> holes out \<or> x - (pos - s) \<in> holes (e # es)" if "x \<in> holes out'" for x
    using bspec [OF o(4) that] step(3) h [of x] by auto
  then show ?case using o(1-3) e(2) le by (simp add: w e(1))
qed

lemma append_segment_ok:
  assumes ok: "index_ok sz es" and i: "index < length es" and b: "extent_backed (es ! index)" and x: "extenter_ok (es ! index)"
    and st: "ie_start (es ! index) \<le> pos" and n: "0 < n" "pos + n \<le> ie_end (es ! index)"
    and out: "tiles a pos out" "coalesced out"
  shows "\<exists>out'. append_segment (es ! index) pos n out = Inr out' \<and> tiles a (pos + n) out' \<and> coalesced out' \<and>
    (\<forall>x \<in> holes out'. x \<in> holes out \<or> image_at es x = 0)"
proof -
  define e where "e = es ! index"
  have at: "image_at es x = extent_byte e (nat (x - ie_start e))" if "pos \<le> x" "x < pos + n" for x
    using that image_at_extent [OF ok i, of x] st n by (simp add: covers_pos_def e_def)
  show ?thesis unfolding e_def [symmetric]
  proof (cases "ie_extenter e")
    case None
    let ?x = "\<lparr>ext_Offset = pos, ext_Length = n, ext_Allocated = (ie_file e \<noteq> None \<or> ie_data e \<noteq> None)\<rparr>"
    have "image_at es x = 0" if "x \<in> hole ?x" for x
      using that at [of x] by (auto simp: hole_def extent_byte_def split: if_splits)
    with appendExtent_ok [OF out, of ?x] n None
    show "\<exists>out'. append_segment e pos n out = Inr out' \<and> tiles a (pos + n) out' \<and> coalesced out' \<and>
      (\<forall>x \<in> holes out'. x \<in> holes out \<or> image_at es x = 0)" by (auto simp: append_segment_def)
  next
    case (Some provider)
    let ?s = "ie_off e + (pos - ie_start e)"
    obtain r where r: "ie_file e = Some r" and pr: "\<And>a n. 0 \<le> a \<Longrightarrow> 0 < n \<Longrightarrow> a + n \<le> int (length (reader_bytes r)) \<Longrightarrow>
        \<exists>es. provider a n = Inr es \<and> tiles a (a + n) es \<and> (\<forall>x \<in> holes es. reader_bytes r ! nat x = 0)"
      using x Some unfolding extenter_ok_def e_def by blast
    have o: "0 \<le> ie_off e" "ie_off e + ie_size e \<le> int (length (reader_bytes r))" "ie_off e + ie_size e \<le> max_int64"
      using b r by (auto simp: extent_backed_def e_def)
    have s: "i64 ?s = ?s" "0 \<le> ?s" "?s + n \<le> int (length (reader_bytes r))"
      "i64 (?s + n) = ?s + n" "?s + n \<le> max_int64"
      using o st n by (auto simp: e_def intro!: i64_nonneg)
    obtain ses where p: "provider ?s n = Inr ses" and t: "tiles ?s (?s + n) ses"
        and z: "\<And>x. x \<in> holes ses \<Longrightarrow> reader_bytes r ! nat x = 0"
      using pr [OF s(2) n(1) s(3)] by blast
    have "image_at es x = 0" if h: "x - (pos - ?s) \<in> holes ses" for x
    proof -
      have "pos \<le> x \<and> x < pos + n" using holes_tiles [OF t h] by simp
      moreover have "nat (ie_off e) + nat (x - ie_start e) = nat (x - (pos - ?s))"
        using o(1) st calculation by (simp add: e_def nat_add_distrib [symmetric] algebra_simps)
      ultimately show ?thesis using at [of x] z [OF h] r by (simp add: extent_byte_def)
    qed
    with append_nested_ok [of a ?s pos ?s out "?s + n" ses] out t p Some s
    show "\<exists>out'. append_segment e pos n out = Inr out' \<and> tiles a (pos + n) out' \<and> coalesced out' \<and>
      (\<forall>x \<in> holes out'. x \<in> holes out \<or> image_at es x = 0)" by (fastforce simp: append_segment_def Let_def)
  qed
qed


definition map_so_far :: "imageExtent list \<Rightarrow> int \<Rightarrow> int \<Rightarrow> extent list \<Rightarrow> bool" where
  "map_so_far es a pos out \<longleftrightarrow> tiles a pos out \<and> coalesced out \<and> (\<forall>x \<in> holes out. image_at es x = 0)"

lemma append_hole_ok:
  assumes m: "map_so_far es a pos out" and z: "image_run es pos (nat (fin - pos)) = replicate (nat (fin - pos)) 0" and lt: "pos < fin"
  shows "map_so_far es a fin (appendExtent out \<lparr>ext_Offset = pos, ext_Length = fin - pos, ext_Allocated = False\<rparr>)"
proof -
  let ?x = "\<lparr>ext_Offset = pos, ext_Length = fin - pos, ext_Allocated = False\<rparr>"
  have "image_at es x = 0" if "x \<in> hole ?x" for x
  proof -
    have k: "nat (x - pos) < nat (fin - pos)" "pos + int (nat (x - pos)) = x" using that by (auto simp: hole_def)
    have "image_run es pos (nat (fin - pos)) ! nat (x - pos) = 0" unfolding z using k(1) by simp
    then show ?thesis using k by (simp add: image_run_def)
  qed
  moreover have "tiles a fin (appendExtent out ?x) \<and> coalesced (appendExtent out ?x) \<and> holes (appendExtent out ?x) = holes out \<union> hole ?x"
    using appendExtent_ok [of a pos out ?x] m lt by (simp add: map_so_far_def)
  ultimately show ?thesis using m by (auto simp: map_so_far_def)
qed

lemma tail_run:
  assumes ok: "index_ok sz es" and at: "at_index es pos index" and "index \<ge> length es \<or> ie_start (es ! index) \<ge> fin" and "pos \<le> fin"
  shows "image_run es pos (nat (fin - pos)) = replicate (nat (fin - pos)) 0"
proof (cases "index < length es")
  case True
  then show ?thesis using gap_run(1) [OF ok at True, of "nat (fin - pos)"] assms(3,4) by simp
next
  case False
  then have "index = length es" using at by (simp add: at_index_def)
  then show ?thesis using past_run at by simp
qed

lemma image_extent_loop_ok:
  assumes "index_ok sz es" and "\<forall>e \<in> set es. extent_backed e \<and> extenter_ok e"
    and "at_index es pos index" and "pos \<le> fin" and "map_so_far es a pos out"
  shows "\<exists>out'. image_extent_loop es fin index pos out = Inr out' \<and> map_so_far es a fin out'"
  using assms
proof (induction es fin index pos out rule: image_extent_loop.induct)
  case (1 es fin index pos out)
  note ok = "1.prems"(1) and at = "1.prems"(3) and m = "1.prems"(5)
  consider (fin) "pos = fin"
    | (tail) "pos < fin" "index \<ge> length es \<or> ie_start (es ! index) \<ge> fin"
    | (gap) "pos < fin" "index < length es" "ie_start (es ! index) < fin" "pos < ie_start (es ! index)"
    | (inside) "pos < fin" "index < length es" "ie_start (es ! index) < fin" "ie_start (es ! index) \<le> pos"
    using "1.prems"(4) by fastforce
  then show ?case
  proof cases
    case fin
    then show ?thesis using m by (subst image_extent_loop.simps) simp
  next
    case tail
    then show ?thesis using append_hole_ok [OF m tail_run [OF ok at tail(2)]] by (subst image_extent_loop.simps) auto
  next
    case gap
    let ?g = "ie_start (es ! index)"
    have g: "min fin ?g = ?g" using gap by simp
    note z = gap_run [OF ok at gap(2), of "nat (?g - pos)"]
    have m': "map_so_far es a ?g (appendExtent out \<lparr>ext_Offset = pos, ext_Length = ?g - pos, ext_Allocated = False\<rparr>)"
      using append_hole_ok [OF m _ gap(4)] z(1) gap(4) by simp
    have "at_index es ?g index" using z(2) gap(4) by simp
    from "1.IH"(1) [OF gap(1) _ refl gap(4) refl ok "1.prems"(2), unfolded g, OF _ this _ m'] gap
    show ?thesis by (subst image_extent_loop.simps) (simp add: Let_def g)
  next
    case inside
    let ?e = "es ! index" and ?f = "min fin (ie_end (es ! index))"
    have pe: "pos < ie_end ?e" using at inside(2) by (simp add: at_index_def)
    have mem: "extent_backed ?e" "extenter_ok ?e" using "1.prems"(2) inside(2) by simp_all
    have t: "tiles a pos out" "coalesced out" using m by (simp_all add: map_so_far_def)
    obtain out' where seg: "append_segment ?e pos (?f - pos) out = Inr out'" and m': "map_so_far es a ?f out'"
      using append_segment_ok [OF ok inside(2) mem inside(4), of "?f - pos" a out] t inside(1) pe m
      by (auto simp: map_so_far_def)
    have "at_index es ?f (if ?f \<ge> ie_end ?e then index + 1 else index)"
      using at_index_past [OF ok at inside(2), of ?f] inside pe by simp
    from "1.IH"(2) [OF inside(1) _ refl _ refl seg ok "1.prems"(2) this _ m'] inside
    show ?thesis by (subst image_extent_loop.simps) (simp add: Let_def seg)
  qed
qed

lemma image_Extents_ok:
  assumes ix: "ensureIndexed f = Inr es" and "\<forall>e \<in> set es. extent_backed e \<and> extenter_ok e"
    and "0 \<le> off" and "0 < len" and "off + len \<le> gi_size f"
  shows "\<exists>out. image_Extents f off len = Inr out \<and> tiles off (off + len) out \<and> coalesced out \<and>
    (\<forall>x \<in> holes out. image_bytes (gi_size f) es ! nat x = 0)"
proof -
  note ok = ensureIndexed_ok(1) [OF ix]
  have "map_so_far es off off []" by (simp add: map_so_far_def)
  from image_extent_loop_ok [OF ok assms(2) index_search [OF ok] _ this, of "off + len"] assms(4)
  obtain out where o: "image_extent_loop es (off + len) (sort_Search (length es) (\<lambda>i. ie_end (es ! i) > off)) off [] = Inr out"
    and m: "map_so_far es off (off + len) out" by auto
  have "image_bytes (gi_size f) es ! nat x = 0" if "x \<in> holes out" for x
    using that m holes_tiles [of off "off + len" out x] assms(3,5) by (auto simp: map_so_far_def image_bytes_def)
  with o m assms show ?thesis by (simp add: image_Extents_def ix map_so_far_def)
qed


subsection \<open>Images from disjoint extents\<close>

text \<open>Extents that fit and do not meet are accepted in any order.\<close>

definition disjoint_extents :: "imageExtent \<Rightarrow> imageExtent \<Rightarrow> bool" where
  "disjoint_extents e f \<longleftrightarrow> ie_end e \<le> ie_start f \<or> ie_end f \<le> ie_start e"

lemma sorted_wrt_sort_key:
  assumes sym: "\<And>x y. R x y = R y x"
  shows "sorted_wrt R (sort_key k xs) = sorted_wrt R xs"
proof (induction xs)
  case (Cons x xs)
  have "sorted_wrt R (insort_key k x ys) = sorted_wrt R (x # ys)" for ys
    by (induction ys) (auto simp: set_insort_key sym)
  with Cons show ?case by simp
qed simp

lemma ensureIndexed_disjoint:
  assumes "0 \<le> sz" and fit: "\<forall>e \<in> set specs. extent_fits sz e" and dis: "sorted_wrt disjoint_extents specs"
  shows "ensureIndexed (NewGeneratedImage sz specs) = Inr (sort_key ie_start specs)"
proof -
  have k: "keep_extents sz specs = Inr specs"
    using fit by (induction specs) (auto simp: extent_fits_def)
  have dis': "sorted_wrt disjoint_extents (sort_key ie_start specs)"
    using dis by (subst sorted_wrt_sort_key) (auto simp: disjoint_extents_def)
  have "\<not> overlapping es" if "sorted (map ie_start es)" "sorted_wrt disjoint_extents es" "\<forall>e \<in> set es. extent_fits sz e" for es
    using that by (induction es rule: overlapping.induct) (fastforce simp: disjoint_extents_def extent_fits_def)+
  from this [of "sort_key ie_start specs"] dis' fit have "\<not> overlapping (sort_key ie_start specs)" by simp
  then show ?thesis using k assms(1) by (simp add: ensureIndexed_def NewGeneratedImage_def Let_def)
qed

lemma image_bytes_extent:
  assumes ok: "index_ok sz es" and e: "e \<in> set es"
  shows "segment (nat (ie_start e)) (nat (ie_size e)) (image_bytes sz es) = map (extent_byte e) [0..<nat (ie_size e)]"
proof -
  obtain j where j: "j < length es" "es ! j = e" using e by (auto simp: in_set_conv_nth)
  have f: "extent_fits sz e" using ok e by (simp add: index_ok_def)
  have "image_run es (ie_start e) (nat (ie_size e)) = map (extent_byte e) [0..<nat (ie_size e)]"
    using image_run_inside [OF ok j(1), of "ie_start e" "nat (ie_size e)"] f j(2) by (simp add: extent_fits_def)
  moreover have "nat (ie_start e) + nat (ie_size e) \<le> nat sz" using f unfolding extent_fits_def by linarith
  ultimately show ?thesis using image_run_segment [of "ie_start e" "nat (ie_size e)" sz es] f
    by (simp add: extent_fits_def)
qed

text \<open>The bytes after an extent up to a position that no other extent reaches are zero.\<close>

lemma image_bytes_slack:
  assumes ok: "index_ok sz es" and a: "0 \<le> a" "a \<le> b" "b \<le> sz"
    and free: "\<And>e. e \<in> set es \<Longrightarrow> ie_end e \<le> a \<or> b \<le> ie_start e"
  shows "segment (nat a) (nat (b - a)) (image_bytes sz es) = replicate (nat (b - a)) 0"
proof -
  have "image_run es a (nat (b - a)) = replicate (nat (b - a)) 0"
    using free a by (intro image_run_gap) (fastforce simp: covers_pos_def dest!: nth_mem)
  moreover have "nat a + nat (b - a) \<le> nat sz" using a by linarith
  ultimately show ?thesis using image_run_segment [OF a(1)] by simp
qed

subsection \<open>Images as stores\<close>

definition image_inv :: "generatedImageFile \<Rightarrow> bool" where
  "image_inv f \<longleftrightarrow> (\<exists>es. ensureIndexed f = Inr es \<and> (\<forall>e \<in> set es. extent_backed e))"

definition image_contents :: "generatedImageFile \<Rightarrow> bytes" where
  "image_contents f = (case ensureIndexed f of Inl _ \<Rightarrow> [] | Inr es \<Rightarrow> image_bytes (gi_size f) es)"

interpretation image: read_store image_inv image_contents image_ReadAt
proof
  fix f off n assume "image_inv f" and o: "0 \<le> off" "nat off + n \<le> length (image_contents f)"
  then obtain es where ix: "ensureIndexed f = Inr es" and b: "\<forall>e \<in> set es. extent_backed e"
    by (auto simp: image_inv_def)
  have c: "image_contents f = image_bytes (gi_size f) es" by (simp add: image_contents_def ix)
  show "image_ReadAt f n off = (segment (nat off) n (image_contents f), None)"
  proof (cases "n = 0")
    case True
    then show ?thesis using o by (simp add: image_ReadAt_def ix)
  next
    case False
    then have "\<not> off \<ge> int (length (image_contents f))" using o by linarith
    then show ?thesis using image_ReadAt_ok [OF ix b o(1), of n] False o
      by (simp add: c Bytes_ReadAt_def segment_def Let_def)
  qed
qed

subsection \<open>Properties\<close>

text \<open>
  C27. An image composed from extents reads like a plain file that holds the bytes of the extents at their places
  and zeros everywhere else, whatever the order in which the extents were given: for every offset that is not
  negative and every non-empty buffer \<open>ReadAt\<close> returns what the file returns, bytes and error. A negative offset is
  an error and an empty buffer is filled at once.
\<close>

theorem generated_image_reads:
  assumes "ensureIndexed f = Inr es" and "\<forall>e \<in> set es. extent_backed e"
  shows "image_ReadAt f n off =
    (if off < 0 then ([], Some (Errorf ''negative offset''))
     else if n = 0 then ([], None)
     else Bytes_ReadAt (image_bytes (gi_size f) es) n off)"
  using image_ReadAt_ok [OF assms, of off n] assms(1) by (simp add: image_ReadAt_def)

definition two_extents :: "imageExtent list" where
  "two_extents =
    [\<lparr>ie_start = 4, ie_size = 2, ie_data = Some [7, 8], ie_file = None, ie_extenter = None, ie_off = 0\<rparr>,
     \<lparr>ie_start = 1, ie_size = 2, ie_data = None, ie_file = Some (Bytes_reader [1, 2, 3]), ie_extenter = None, ie_off = 1\<rparr>]"

lemma two_extents_image:
  "ensureIndexed (NewGeneratedImage 8 two_extents) = Inr (rev two_extents)"
  "\<forall>e \<in> set (rev two_extents). extent_backed e"
  "image_bytes 8 (rev two_extents) = [0, 2, 3, 0, 7, 8, 0, 0]"
  by (simp add: ensureIndexed_def NewGeneratedImage_def two_extents_def)
    (simp add: two_extents_def extent_backed_def,
     simp add: image_bytes_def image_at_def covers_pos_def extent_byte_def two_extents_def upt_rec)

theorem generated_image_reads_witness:
  "image_ReadAt (NewGeneratedImage 8 two_extents) 5 1 = ([2, 3, 0, 7, 8], None)"
  using generated_image_reads [OF two_extents_image(1,2), of 5 1] two_extents_image(3)
  by (simp add: NewGeneratedImage_def Bytes_ReadAt_def)

text \<open>
  C28. The allocation map of such an image. For every range inside the image \<open>Extents\<close> succeeds; the extents it
  returns tile the range in order, neighbours that touch differ in their flag, and a byte it calls unallocated
  reads as zero. Every other range is refused as out of range. Files that report extents themselves are assumed to
  report maps that tile the request and to read as zero in their holes.
\<close>

theorem generated_image_extents:
  assumes "ensureIndexed f = Inr es" and "\<forall>e \<in> set es. extent_backed e \<and> extenter_ok e"
  shows "if 0 \<le> off \<and> 0 \<le> len \<and> off + len \<le> gi_size f
    then \<exists>out. image_Extents f off len = Inr out \<and> tiles off (off + len) out \<and> coalesced out \<and>
      (\<forall>x \<in> holes out. image_bytes (gi_size f) es ! nat x = 0)
    else image_Extents f off len = Inl ErrOutOfRange"
proof (cases "0 \<le> off \<and> 0 < len \<and> off + len \<le> gi_size f")
  case True
  then show ?thesis using image_Extents_ok [OF assms] by simp
next
  case False
  then show ?thesis using assms(1) ensureIndexed_ok(3) [OF assms(1)]
    by (auto simp: image_Extents_def ValidateRange_def holes_def)
qed

theorem generated_image_extents_witness:
  "\<exists>out. image_Extents (NewGeneratedImage 8 two_extents) 0 8 = Inr out \<and> tiles 0 8 out \<and> coalesced out \<and>
    out = [\<lparr>ext_Offset = 0, ext_Length = 1, ext_Allocated = False\<rparr>,
           \<lparr>ext_Offset = 1, ext_Length = 2, ext_Allocated = True\<rparr>,
           \<lparr>ext_Offset = 3, ext_Length = 1, ext_Allocated = False\<rparr>,
           \<lparr>ext_Offset = 4, ext_Length = 2, ext_Allocated = True\<rparr>,
           \<lparr>ext_Offset = 6, ext_Length = 2, ext_Allocated = False\<rparr>]"
proof -
  let ?f = "NewGeneratedImage 8 two_extents"
  have "\<forall>e \<in> set (rev two_extents). extent_backed e \<and> extenter_ok e"
    using two_extents_image(2) by (simp add: two_extents_def extenter_ok_def)
  from generated_image_extents [OF two_extents_image(1) this, of 0 8]
  obtain out where "image_Extents ?f 0 8 = Inr out" "tiles 0 8 out" "coalesced out"
    by (auto simp: NewGeneratedImage_def)
  moreover have "image_Extents ?f 0 8 = Inr
      [\<lparr>ext_Offset = 0, ext_Length = 1, ext_Allocated = False\<rparr>,
       \<lparr>ext_Offset = 1, ext_Length = 2, ext_Allocated = True\<rparr>,
       \<lparr>ext_Offset = 3, ext_Length = 1, ext_Allocated = False\<rparr>,
       \<lparr>ext_Offset = 4, ext_Length = 2, ext_Allocated = True\<rparr>,
       \<lparr>ext_Offset = 6, ext_Length = 2, ext_Allocated = False\<rparr>]"
    by code_simp
  ultimately show ?thesis by simp
qed

end
