(* ===== verification/Format_Support.thy ===== *)
theory Format_Support
  imports Generated_Image
begin

text \<open>
  Helpers that the disk format packages share: \<open>src/filesystem/internal/format.go\<close> (bounded reads, rounding, GUIDs),
  \<open>src/windows/guid\<close>, and the parts of the standard library they call (\<open>io.ReadFull\<close> on a section,
  \<open>crc32.ChecksumIEEE\<close>, \<open>utf16\<close>). A Go string that only its runes matter of is the list of its code points.
\<close>

subsection \<open>Rounding\<close>

definition fs_CeilDiv :: "int \<Rightarrow> int \<Rightarrow> int" where
  "fs_CeilDiv value quantum = (if value \<le> 0 then 0 else i64 (i64 (value + quantum) - 1) sdiv quantum)"

definition fs_Align :: "int \<Rightarrow> int \<Rightarrow> int" where
  "fs_Align value alignment = i64 (fs_CeilDiv value alignment * alignment)"

lemma fs_CeilDiv_eq:
  assumes "0 < q" and "0 < v" and "v + q \<le> max_int64"
  shows "fs_CeilDiv v q = (v + q - 1) div q" and "(fs_CeilDiv v q - 1) * q < v" and "v \<le> fs_CeilDiv v q * q"
proof -
  have a: "i64 (v + q) = v + q" "i64 (v + q - 1) = v + q - 1" using assms by (simp_all add: i64_nonneg)
  show e: "fs_CeilDiv v q = (v + q - 1) div q"
    using assms a by (simp add: fs_CeilDiv_def signed_divide_int_def)
  define d m where "d = (v + q - 1) div q" and "m = (v + q - 1) mod q"
  have "v + q - 1 = d * q + m" unfolding d_def m_def by (rule div_mult_mod_eq [symmetric])
  moreover have "0 \<le> m" "m < q" using assms(1) by (simp_all add: m_def)
  moreover have "(d - 1) * q = d * q - q" by (simp add: left_diff_distrib)
  ultimately show "(fs_CeilDiv v q - 1) * q < v" "v \<le> fs_CeilDiv v q * q"
    unfolding e d_def [symmetric] by linarith+
qed

text \<open>The number of 512-byte sectors that \<open>z\<close> bytes take.\<close>

lemma sectors_needed:
  fixes z :: int
  assumes d: "d = (z + 511) div 512"
  shows "z \<le> d * 512" and "(d - 1) * 512 < z" and "0 < z \<Longrightarrow> 1 \<le> d"
proof -
  define m where "m = (z + 511) mod 512"
  have e: "z + 511 = d * 512 + m" unfolding d m_def by (rule div_mult_mod_eq [symmetric])
  have m: "0 \<le> m" "m < 512" by (simp_all add: m_def)
  show "z \<le> d * 512" using e m by linarith
  show "(d - 1) * 512 < z" using e m by (simp add: left_diff_distrib)
  show "1 \<le> d" if "0 < z" using e m that by linarith
qed

subsection \<open>Bounded reads\<close>

text \<open>
  \<open>io.ReadFull\<close> on \<open>io.NewSectionReader(file, offset, size)\<close>. A file that returns neither bytes nor an error is read
  again at the same place for ever: that run is \<open>None\<close>.
\<close>

definition read_full_result :: "nat \<Rightarrow> bytes \<Rightarrow> go_error \<Rightarrow> go_error + bytes" where
  "read_full_result need p e =
     (if length p \<ge> need then Inr p else if p \<noteq> [] \<and> e = EOF then Inl ErrUnexpectedEOF else Inl e)"

function read_section :: "reader \<Rightarrow> int \<Rightarrow> int \<Rightarrow> nat \<Rightarrow> bytes \<Rightarrow> (go_error + bytes) option" where
  "read_section file offset limit need p =
     (if length p < need
      then let pos = offset + int (length p) in
        if pos \<ge> limit then Some (read_full_result need p EOF)
        else (case rd_ReadAt file (min (need - length p) (nat (limit - pos))) pos of
                (bs, Some e) \<Rightarrow> Some (read_full_result need (p @ bs) e)
              | (bs, None) \<Rightarrow> if bs = [] then None else read_section file offset limit need (p @ bs))
      else Some (Inr p))"
  by pat_completeness auto
termination
  by (relation "measure (\<lambda>(file, offset, limit, need, p). need - length p)") (auto intro: shorter_rest)

declare read_section.simps [simp del]

definition ReadBytesAt :: "reader \<Rightarrow> int \<Rightarrow> int \<Rightarrow> (go_error + bytes) option" where
  "ReadBytesAt file offset sz =
     (if offset < 0 \<or> sz < 0 \<or> offset > rd_Size file \<or> sz > rd_Size file - offset \<or> sz > max_int64
      then Some (Inl ErrUnexpectedEOF)
      else read_section file offset (offset + sz) (nat sz) [])"

lemma ReadBytesAt_ok:
  assumes ok: "reader_ok r" and "0 \<le> off" and "0 \<le> sz" and "off + sz \<le> rd_Size r" and "sz \<le> max_int64"
  shows "ReadBytesAt r off sz = Some (Inr (segment (nat off) (nat sz) (reader_bytes r)))"
proof (cases "sz = 0")
  case True
  then show ?thesis using assms by (simp add: ReadBytesAt_def read_section.simps)
next
  case False
  have len: "length (reader_bytes r) = nat (rd_Size r)" using ok by (simp add: reader_ok_def)
  then have fit: "nat off + nat sz \<le> length (reader_bytes r)" using assms(2-4) by linarith
  obtain e where r: "rd_ReadAt r (nat sz) off = (segment (nat off) (nat sz) (reader_bytes r), e)" and e: "e = None \<or> e = Some EOF"
    using reader_okE [OF ok _ assms(2) fit] False assms(3) by auto
  have ln: "length (segment (nat off) (nat sz) (reader_bytes r)) = nat sz" using fit by simp
  then have ne: "segment (nat off) (nat sz) (reader_bytes r) \<noteq> []" using False assms(3) by fastforce
  from e show ?thesis
  proof
    assume "e = None"
    with r ne ln assms False show ?thesis
      by (simp add: ReadBytesAt_def) (subst read_section.simps, simp add: Let_def, subst read_section.simps, simp)
  next
    assume "e = Some EOF"
    with r ln assms False show ?thesis
      by (simp add: ReadBytesAt_def) (subst read_section.simps, simp add: Let_def read_full_result_def)
  qed
qed


subsection \<open>GUIDs\<close>

type_synonym guid = bytes

definition ZeroGUID :: "guid \<Rightarrow> bool" where
  "ZeroGUID value = (value = replicate 16 0)"

definition hex_digit :: "nat \<Rightarrow> char" where
  "hex_digit n = char_of (if n < 10 then 48 + n else 55 + n)"

definition hex_upper :: "byte \<Rightarrow> string" where
  "hex_upper b = [hex_digit (unat b div 16), hex_digit (unat b mod 16)]"

definition hex_value :: "char \<Rightarrow> nat option" where
  "hex_value c =
     (let n = (of_char c :: nat) in
      if 48 \<le> n \<and> n \<le> 57 then Some (n - 48)
      else if 97 \<le> n \<and> n \<le> 102 then Some (n - 87)
      else if 65 \<le> n \<and> n \<le> 70 then Some (n - 55)
      else None)"

text \<open>\<open>hex.DecodeString\<close>: \<open>None\<close> for an odd length or a byte that is no digit.\<close>

fun DecodeString :: "string \<Rightarrow> bytes option" where
  "DecodeString [] = Some []"
| "DecodeString [c] = None"
| "DecodeString (c # d # cs) =
     (case (hex_value c, hex_value d, DecodeString cs) of
        (Some a, Some b, Some bs) \<Rightarrow> Some (word_of_nat (16 * a + b) # bs)
      | _ \<Rightarrow> None)"

definition in_braces :: "char \<Rightarrow> bool" where
  "in_braces c \<longleftrightarrow> c = CHR ''{'' \<or> c = CHR ''}''"

definition trim_braces :: "string \<Rightarrow> string" where
  "trim_braces s = rev (dropWhile in_braces (rev (dropWhile in_braces s)))"

definition guid_Format :: "guid \<Rightarrow> string" where
  "guid_Format raw =
     (let h = (\<lambda>i. hex_upper (raw ! i)) in
      ''{'' @ h 3 @ h 2 @ h 1 @ h 0 @ ''-'' @ h 5 @ h 4 @ ''-'' @ h 7 @ h 6 @ ''-'' @ h 8 @ h 9 @ ''-'' @
      h 10 @ h 11 @ h 12 @ h 13 @ h 14 @ h 15 @ ''}'')"

definition guid_Parse :: "string \<Rightarrow> guid option" where
  "guid_Parse value =
     (case DecodeString (filter (\<lambda>c. c \<noteq> CHR ''-'') (trim_braces value)) of
        None \<Rightarrow> None
      | Some d \<Rightarrow>
          if length d \<noteq> 16 then None
          else Some ([d ! 3, d ! 2, d ! 1, d ! 0, d ! 5, d ! 4, d ! 7, d ! 6] @ drop 8 d))"

lemma guid_Parse_length: "guid_Parse s = Some g \<Longrightarrow> length g = 16"
  by (auto simp: guid_Parse_def split: option.splits if_splits)

lemma hex_value_digit: "n < 16 \<Longrightarrow> hex_value (hex_digit n) = Some n"
  by (simp add: hex_value_def hex_digit_def)

lemma hex_digit_plain: "n < 16 \<Longrightarrow> hex_digit n \<noteq> CHR ''-'' \<and> \<not> in_braces (hex_digit n)"
proof -
  have "list_all (\<lambda>n. hex_digit n \<noteq> CHR ''-'' \<and> \<not> in_braces (hex_digit n)) [0..<16]"
    by code_simp
  then show "n < 16 \<Longrightarrow> ?thesis" by (simp add: list_all_iff)
qed

lemma DecodeString_hex: "DecodeString (hex_upper b @ cs) = map_option ((#) b) (DecodeString cs)"
proof -
  have u: "unat b < 256" by simp
  have "16 * (unat b div 16) + unat b mod 16 = unat b" by simp
  then have "word_of_nat (16 * (unat b div 16) + unat b mod 16) = b"
    using word_of_nat_eq_iff by simp
  moreover have "unat b div 16 < 16" using u by (simp add: less_mult_imp_div_less)
  ultimately show ?thesis by (simp add: hex_upper_def hex_value_digit split: option.splits)
qed


lemma hex_upper_plain: "c \<in> set (hex_upper b) \<Longrightarrow> c \<noteq> CHR ''-'' \<and> \<not> in_braces c"
proof -
  have "unat b div 16 < 16" "unat b mod 16 < 16" using unat_byte_lt [of b] by (simp_all add: less_mult_imp_div_less)
  then show "c \<in> set (hex_upper b) \<Longrightarrow> ?thesis" using hex_digit_plain by (auto simp: hex_upper_def)
qed

lemma filter_hex_upper: "filter (\<lambda>c. c \<noteq> CHR ''-'') (hex_upper b) = hex_upper b"
  using hex_upper_plain by (auto simp: filter_id_conv)

lemma trim_braces_hex: "trim_braces (''{'' @ hex_upper a @ s @ hex_upper b @ ''}'') = hex_upper a @ s @ hex_upper b"
proof -
  have h: "\<And>x. \<not> in_braces (hd (hex_upper x))" "\<And>x. hex_upper x \<noteq> []" "\<And>x. \<not> in_braces (last (hex_upper x))"
    using hex_upper_plain by (auto simp: hex_upper_def)
  have d: "dropWhile in_braces (hex_upper a @ t) = hex_upper a @ t" for t
    using h(1) [of a] h(2) [of a] by (cases "hex_upper a") simp_all
  have r: "dropWhile in_braces (rev (hex_upper b) @ t) = rev (hex_upper b) @ t" for t
    using h(3) [of b] h(2) [of b] by (cases "hex_upper b" rule: rev_cases) auto
  have b: "in_braces CHR ''{''" "in_braces CHR ''}''" by (simp_all add: in_braces_def)
  show ?thesis using d r b by (simp add: trim_braces_def)
qed

lemma guid_Parse_Format:
  assumes "length g = 16"
  shows "guid_Parse (guid_Format g) = Some g"
proof -
  have "\<exists>b0 b1 b2 b3 b4 b5 b6 b7 b8 b9 b10 b11 b12 b13 b14 b15.
    g = [b0, b1, b2, b3, b4, b5, b6, b7, b8, b9, b10, b11, b12, b13, b14, b15]"
    using assms by (simp add: eval_nat_numeral length_Suc_conv) blast
  then obtain b0 b1 b2 b3 b4 b5 b6 b7 b8 b9 b10 b11 b12 b13 b14 b15 where
    g: "g = [b0, b1, b2, b3, b4, b5, b6, b7, b8, b9, b10, b11, b12, b13, b14, b15]" by blast
  let ?mid = "hex_upper b2 @ hex_upper b1 @ hex_upper b0 @ ''-'' @ hex_upper b5 @ hex_upper b4 @ ''-'' @
    hex_upper b7 @ hex_upper b6 @ ''-'' @ hex_upper b8 @ hex_upper b9 @ ''-'' @ hex_upper b10 @ hex_upper b11 @
    hex_upper b12 @ hex_upper b13 @ hex_upper b14"
  have f: "guid_Format g = ''{'' @ hex_upper b3 @ ?mid @ hex_upper b15 @ ''}''"
    by (simp add: g guid_Format_def Let_def)
  have "filter (\<lambda>c. c \<noteq> CHR ''-'') (trim_braces (guid_Format g)) =
    hex_upper b3 @ hex_upper b2 @ hex_upper b1 @ hex_upper b0 @ hex_upper b5 @ hex_upper b4 @ hex_upper b7 @ hex_upper b6 @
    hex_upper b8 @ hex_upper b9 @ hex_upper b10 @ hex_upper b11 @ hex_upper b12 @ hex_upper b13 @ hex_upper b14 @ hex_upper b15 @ []"
    unfolding f trim_braces_hex by (simp add: filter_hex_upper)
  then have "DecodeString (filter (\<lambda>c. c \<noteq> CHR ''-'') (trim_braces (guid_Format g))) =
      Some [b3, b2, b1, b0, b5, b4, b7, b6, b8, b9, b10, b11, b12, b13, b14, b15]"
    by (simp only: DecodeString_hex DecodeString.simps option.map)
  then show ?thesis by (simp add: guid_Parse_def g)
qed


subsection \<open>Checksums and UTF-16\<close>

definition crc_bit :: "u32 \<Rightarrow> u32" where
  "crc_bit c = (if bit c 0 then drop_bit 1 c XOR 0xedb88320 else drop_bit 1 c)"

definition crc_byte :: "u32 \<Rightarrow> byte \<Rightarrow> u32" where
  "crc_byte c b = (crc_bit ^^ 8) (c XOR ucast b)"

definition ChecksumIEEE :: "bytes \<Rightarrow> u32" where
  "ChecksumIEEE bs = NOT (foldl crc_byte (NOT 0) bs)"

definition valid_rune :: "nat \<Rightarrow> bool" where
  "valid_rune r \<longleftrightarrow> r < 0xd800 \<or> 0xe000 \<le> r \<and> r \<le> 0x10ffff"

fun utf16_Encode :: "nat list \<Rightarrow> nat list" where
  "utf16_Encode [] = []"
| "utf16_Encode (r # rs) =
     (if r < 0xd800 \<or> 0xe000 \<le> r \<and> r < 0x10000 then [r]
      else if 0x10000 \<le> r \<and> r \<le> 0x10ffff
      then [0xd800 + ((r - 0x10000) div 0x400) mod 0x400, 0xdc00 + (r - 0x10000) mod 0x400]
      else [0xfffd]) @ utf16_Encode rs"

fun utf16_Decode :: "nat list \<Rightarrow> nat list" where
  "utf16_Decode [] = []"
| "utf16_Decode (u # us) =
     (if u < 0xd800 \<or> 0xe000 \<le> u then u # utf16_Decode us
      else if u < 0xdc00 \<and> us \<noteq> [] \<and> 0xdc00 \<le> hd us \<and> hd us < 0xe000
      then ((u - 0xd800) * 0x400 + (hd us - 0xdc00) + 0x10000) # utf16_Decode (tl us)
      else 0xfffd # utf16_Decode us)"

lemma utf16_Encode_bound: "u \<in> set (utf16_Encode rs) \<Longrightarrow> u < 0x10000"
  by (induction rs rule: utf16_Encode.induct) (auto split: if_splits)

text \<open>Only the rune \<open>0\<close> has the unit \<open>0\<close>, so cutting the units at a zero cuts the runes at a zero.\<close>

lemma utf16_take_zero: "takeWhile (\<lambda>u. u \<noteq> 0) (utf16_Encode rs) = utf16_Encode (takeWhile (\<lambda>r. r \<noteq> 0) rs)"
  by (induction rs rule: utf16_Encode.induct) auto

lemma utf16_Decode_Encode:
  assumes "\<forall>r \<in> set rs. valid_rune r"
  shows "utf16_Decode (utf16_Encode rs) = rs"
  using assms
proof (induction rs)
  case Nil
  then show ?case by simp
next
  case (Cons r rs)
  consider "r < 0xd800 \<or> 0xe000 \<le> r \<and> r < 0x10000" | "0x10000 \<le> r" "r \<le> 0x10ffff"
    using Cons.prems by (fastforce simp: valid_rune_def not_less)
  then show ?case
  proof cases
    case 1
    then show ?thesis using Cons by auto
  next
    case 2
    define h where "h = r - 0x10000"
    have h: "h div 0x400 < 0x400" "h mod 0x400 < 0x400" "r = h + 0x10000" using 2 by (auto simp: h_def)
    have "(h div 0x400) mod 0x400 * 0x400 + h mod 0x400 = h" using h(1) by simp
    with h 2 Cons show ?thesis by (simp flip: h_def)
  qed
qed

subsection \<open>Fixed layouts\<close>

text \<open>A buffer of \<open>n\<close> zero bytes whose start is filled.\<close>

definition zero_padded :: "nat \<Rightarrow> bytes \<Rightarrow> bytes" where
  "zero_padded n bs = bs @ replicate (n - length bs) 0"

text \<open>\<open>binary.LittleEndian\<close> on the slice \<open>bs[off:off+n]\<close>.\<close>

definition le_at :: "nat \<Rightarrow> nat \<Rightarrow> bytes \<Rightarrow> nat" where
  "le_at off n bs = le_value (segment off n bs)"

lemma length_zero_padded [simp]: "length (zero_padded n bs) = max n (length bs)"
  by (simp add: zero_padded_def)

lemma segment_field: "length xs = n \<Longrightarrow> segment 0 n (xs @ ys) = xs"
  by (simp add: segment_def)

lemma segment_later: "length xs \<le> off \<Longrightarrow> segment off n (xs @ ys) = segment (off - length xs) n ys"
  by (simp add: segment_def)

lemmas fields = segment_field segment_later zero_padded_def

lemma unat_u32_bound: "unat (w :: u32) < 256 ^ 4"
  using unsigned_less [of w] by simp

lemma unat_u64_bound: "unat (w :: u64) < 256 ^ 8"
  using unsigned_less [of w] by simp

end
