(* ===== verification/Gpt.thy ===== *)
theory Gpt
  imports Format_Support
begin

text \<open>
  GUID partition tables: \<open>src/filesystem/gpt/gpt.go\<close> and \<open>read.go\<close>, the builder and the reader. The arguments are
  those of the builtins after Starlark has unpacked them; the volume keeps its partitions, the path index over
  them and the text of \<open>String\<close> are not part of the model.
\<close>

subsection \<open>Building\<close>

record gptPartition =
  gp_file :: reader
  gp_extenter :: "(int \<Rightarrow> int \<Rightarrow> go_error + extent list) option"
  gp_typeGUID :: guid
  gp_uniqueGUID :: guid
  gp_startLBA :: int
  gp_endLBA :: int
  gp_attributes :: u64
  gp_name :: "nat list"

record gptBuilder =
  gb_size :: int
  gb_diskGUID :: guid
  gb_partitions :: "gptPartition list"

definition GPTBuiltin :: "int \<Rightarrow> string \<Rightarrow> go_error + gptBuilder" where
  "GPTBuiltin sz diskGUIDText =
     (if sz < 2 * 1024 * 1024 \<or> sz smod 512 \<noteq> 0
      then Inl (Errorf ''gpt: size must be a sector-aligned value of at least 2 MiB'')
      else if diskGUIDText = '''' then Inl (Errorf ''gpt: disk_guid is required when building an image'')
      else case guid_Parse diskGUIDText of
        None \<Rightarrow> Inl (Errorf ''gpt: invalid disk_guid %q'')
      | Some diskGUID \<Rightarrow>
          if ZeroGUID diskGUID then Inl (Errorf ''gpt: invalid disk_guid %q'')
          else Inr \<lparr>gb_size = sz, gb_diskGUID = diskGUID, gb_partitions = []\<rparr>)"

text \<open>The first aligned sector after every partition, at least the default one.\<close>

definition default_start :: "gptPartition list \<Rightarrow> int" where
  "default_start ps = fold (\<lambda>p s. let candidate = fs_Align (i64 (gp_endLBA p + 1)) 2048 in if candidate > s then candidate else s) ps 2048"

definition withPartition ::
    "gptBuilder \<Rightarrow> reader \<times> (int \<Rightarrow> int \<Rightarrow> go_error + extent list) option \<Rightarrow> guid \<Rightarrow> guid \<Rightarrow> nat list \<Rightarrow> int \<Rightarrow> u64 \<Rightarrow>
     go_error + gptBuilder" where
  "withPartition b source typeGUID partitionGUID name startLBA attributes =
     (let file = fst source in
      if rd_Size file \<le> 0 then Inl (Errorf ''partition: filesystem must not be empty'')
      else if length (utf16_Encode name) > 36 then Inl (Errorf ''partition: name exceeds 36 UTF-16 code units'')
      else if length (gb_partitions b) \<ge> 128 then Inl (Errorf ''partition: GPT supports at most %d partitions'')
      else if \<exists>p \<in> set (gb_partitions b). gp_uniqueGUID p = partitionGUID
      then Inl (Errorf ''partition: duplicate partition_guid %s'')
      else let startLBA = (if startLBA = 0 then default_start (gb_partitions b) else startLBA);
               lastUsable = gb_size b sdiv 512 - 34;
               sectors = fs_CeilDiv (rd_Size file) 512;
               endLBA = i64 (i64 (startLBA + sectors) - 1) in
      if startLBA < 34 \<or> endLBA > lastUsable \<or> endLBA < startLBA
      then Inl (Errorf ''partition: LBA range %d-%d is outside GPT usable range %d-%d'')
      else if \<exists>p \<in> set (gb_partitions b). startLBA \<le> gp_endLBA p \<and> endLBA \<ge> gp_startLBA p
      then Inl (Errorf ''partition: LBA range %d-%d overlaps %d-%d'')
      else Inr (b\<lparr>gb_partitions := gb_partitions b @
        [\<lparr>gp_file = file, gp_extenter = snd source, gp_typeGUID = typeGUID, gp_uniqueGUID = partitionGUID,
          gp_startLBA = startLBA, gp_endLBA = endLBA, gp_attributes = attributes, gp_name = name\<rparr>]\<rparr>))"

definition partitionBuiltin ::
    "gptBuilder \<Rightarrow> reader \<times> (int \<Rightarrow> int \<Rightarrow> go_error + extent list) option \<Rightarrow> string \<Rightarrow> string \<Rightarrow> nat list \<Rightarrow> int \<Rightarrow> u64 \<Rightarrow>
     go_error + gptBuilder" where
  "partitionBuiltin b source partitionGUIDText typeGUIDText name startLBA attributes =
     (case guid_Parse typeGUIDText of
        None \<Rightarrow> Inl (Errorf ''partition: invalid type_guid %q'')
      | Some typeGUID \<Rightarrow>
          if ZeroGUID typeGUID then Inl (Errorf ''partition: invalid type_guid %q'')
          else case guid_Parse partitionGUIDText of
            None \<Rightarrow> Inl (Errorf ''partition: invalid partition_guid %q'')
          | Some partitionGUID \<Rightarrow>
              if ZeroGUID partitionGUID then Inl (Errorf ''partition: invalid partition_guid %q'')
              else withPartition b source typeGUID partitionGUID name startLBA attributes)"

definition uint64_of :: "int \<Rightarrow> nat" where
  "uint64_of v = nat (v mod 18446744073709551616)"

definition gpt_entry :: "gptPartition \<Rightarrow> bytes" where
  "gpt_entry p = zero_padded 128
     (gp_typeGUID p @ gp_uniqueGUID p @ le_bytes 8 (uint64_of (gp_startLBA p)) @ le_bytes 8 (uint64_of (gp_endLBA p)) @
      le_bytes 8 (unat (gp_attributes p)) @ concat (map (le_bytes 2) (utf16_Encode (gp_name p))))"

definition gpt_entries :: "gptPartition list \<Rightarrow> bytes" where
  "gpt_entries ps = zero_padded 16384 (concat (map gpt_entry ps))"

definition efi_part :: bytes where
  "efi_part = map (\<lambda>c. word_of_nat (of_char c)) ''EFI PART''"

text \<open>The header sector, with a given checksum in its place.\<close>

definition header_with :: "u32 \<Rightarrow> gptBuilder \<Rightarrow> int \<Rightarrow> int \<Rightarrow> int \<Rightarrow> u32 \<Rightarrow> bytes" where
  "header_with crc b currentLBA backupLBA entriesLBA entryCRC = zero_padded 512
     (efi_part @ le_bytes 4 0x00010000 @ le_bytes 4 92 @ le_bytes 4 (unat crc) @ le_bytes 4 0 @
      le_bytes 8 (uint64_of currentLBA) @ le_bytes 8 (uint64_of backupLBA) @ le_bytes 8 34 @
      le_bytes 8 (uint64_of (gb_size b sdiv 512 - 34)) @ gb_diskGUID b @ le_bytes 8 (uint64_of entriesLBA) @
      le_bytes 4 128 @ le_bytes 4 128 @ le_bytes 4 (unat entryCRC))"

definition gpt_header :: "gptBuilder \<Rightarrow> int \<Rightarrow> int \<Rightarrow> int \<Rightarrow> u32 \<Rightarrow> bytes" where
  "gpt_header b currentLBA backupLBA entriesLBA entryCRC =
     header_with (ChecksumIEEE (take 92 (header_with 0 b currentLBA backupLBA entriesLBA entryCRC)))
       b currentLBA backupLBA entriesLBA entryCRC"

definition protectiveMBR :: "int \<Rightarrow> bytes" where
  "protectiveMBR totalSectors =
     (let sectors = uint64_of (totalSectors - 1);
          sectors = (if sectors > 0xffffffff then 0xffffffff else sectors)
      in replicate 446 0 @ [0, 0, 2, 0, 0xee, 0xff, 0xff, 0xff] @ le_bytes 4 1 @ le_bytes 4 sectors @ replicate 48 0 @ [0x55, 0xaa])"

definition data_extent :: "int \<Rightarrow> int \<Rightarrow> bytes \<Rightarrow> imageExtent" where
  "data_extent start sz d = \<lparr>ie_start = start, ie_size = sz, ie_data = Some d, ie_file = None, ie_extenter = None, ie_off = 0\<rparr>"

definition partition_extent :: "gptPartition \<Rightarrow> imageExtent" where
  "partition_extent p = \<lparr>ie_start = gp_startLBA p * 512, ie_size = rd_Size (gp_file p), ie_data = None,
     ie_file = Some (gp_file p), ie_extenter = gp_extenter p, ie_off = 0\<rparr>"

text \<open>\<open>sort.Slice\<close> is not stable; no two partitions of a builder start at the same sector.\<close>

definition gpt_specs :: "gptBuilder \<Rightarrow> imageExtent list" where
  "gpt_specs b =
     (let partitions = sort_key gp_startLBA (gb_partitions b);
          entries = gpt_entries partitions;
          entryCRC = ChecksumIEEE entries;
          totalSectors = gb_size b sdiv 512;
          lastLBA = totalSectors - 1;
          backupEntriesLBA = lastLBA - 32 in
      [data_extent 0 512 (protectiveMBR totalSectors),
       data_extent 512 512 (gpt_header b 1 lastLBA 2 entryCRC),
       data_extent 1024 16384 entries,
       data_extent (backupEntriesLBA * 512) 16384 entries,
       data_extent (lastLBA * 512) 512 (gpt_header b lastLBA 1 backupEntriesLBA entryCRC)] @
      map partition_extent partitions)"

definition gpt_build :: "gptBuilder \<Rightarrow> go_error + generatedImageFile" where
  "gpt_build b =
     (if gb_partitions b = [] then Inl (Errorf ''gpt: disk has no partitions'')
      else Inr (NewGeneratedImage (gb_size b) (gpt_specs b)))"

subsection \<open>Reading\<close>

record gptReadPartition =
  rp_index :: nat
  rp_typeGUID :: guid
  rp_uniqueGUID :: guid
  rp_startLBA :: int
  rp_endLBA :: int
  rp_attributes :: nat
  rp_name :: "nat list"
  rp_file :: Slice

record gptVolume =
  gv_diskGUID :: guid
  gv_partitions :: "gptReadPartition list"

definition name_units :: "bytes \<Rightarrow> nat list" where
  "name_units entry = takeWhile (\<lambda>u. u \<noteq> 0) (map (\<lambda>k. le_at (56 + 2 * k) 2 entry) [0..<36])"

text \<open>One entry: \<open>Inr None\<close> skips an unused one.\<close>

definition read_entry :: "reader \<Rightarrow> nat \<Rightarrow> bytes \<Rightarrow> go_error + gptReadPartition option" where
  "read_entry file index entry =
     (if ZeroGUID (segment 0 16 entry) then Inr None
      else let uniqueGUID = segment 16 16 entry;
               startLBA = i64 (int (le_at 32 8 entry));
               endLBA = i64 (int (le_at 40 8 entry)) in
      if ZeroGUID uniqueGUID \<or> startLBA < 0 \<or> endLBA < startLBA \<or> endLBA \<ge> rd_Size file sdiv 512
      then Inl (Errorf ''gpt: invalid partition entry %d'')
      else Inr (Some \<lparr>rp_index = index + 1, rp_typeGUID = segment 0 16 entry, rp_uniqueGUID = uniqueGUID,
        rp_startLBA = startLBA, rp_endLBA = endLBA, rp_attributes = le_at 48 8 entry,
        rp_name = utf16_Decode (name_units entry),
        rp_file = \<lparr>sl_Base = file, sl_Offset = startLBA * 512, sl_Length = (endLBA - startLBA + 1) * 512\<rparr>\<rparr>))"

fun read_entries :: "reader \<Rightarrow> nat \<Rightarrow> bytes \<Rightarrow> nat list \<Rightarrow> go_error + gptReadPartition list" where
  "read_entries file entrySize table [] = Inr []"
| "read_entries file entrySize table (index # rest) =
     (case read_entry file index (segment (index * entrySize) entrySize table) of
        Inl err \<Rightarrow> Inl err
      | Inr found \<Rightarrow>
          (case read_entries file entrySize table rest of
             Inl err \<Rightarrow> Inl err
           | Inr ps \<Rightarrow> Inr (case found of None \<Rightarrow> ps | Some p \<Rightarrow> p # ps)))"

text \<open>The checks on the header sector; its result is the table's sector, entry count and entry size.\<close>

definition read_header :: "reader \<Rightarrow> bytes \<Rightarrow> go_error + nat \<times> nat \<times> nat" where
  "read_header file header =
     (if segment 0 8 header \<noteq> efi_part then Inl (Errorf ''gpt: invalid header signature'')
      else let headerSize = le_at 12 4 header in
      if headerSize < 92 \<or> headerSize > 512 then Inl (Errorf ''gpt: invalid header size %d'')
      else if unat (ChecksumIEEE (overwrite 16 [0, 0, 0, 0] (take headerSize header))) \<noteq> le_at 16 4 header
      then Inl (Errorf ''gpt: header checksum mismatch'')
      else if le_at 24 8 header \<noteq> 1 \<or> le_at 32 8 header \<ge> uint64_of (rd_Size file sdiv 512)
      then Inl (Errorf ''gpt: invalid header LBA values'')
      else if ZeroGUID (segment 56 16 header) then Inl (Errorf ''gpt: zero disk GUID'')
      else let entryCount = le_at 80 4 header; entrySize = le_at 84 4 header in
      if entryCount = 0 \<or> entryCount > 4096 \<or> entrySize < 128 \<or> entrySize > 4096 \<or> entrySize mod 8 \<noteq> 0
      then Inl (Errorf ''gpt: invalid partition entry geometry'')
      else Inr (le_at 72 8 header, entryCount, entrySize))"

definition newGPTVolume :: "reader \<Rightarrow> (go_error + gptVolume) option" where
  "newGPTVolume file =
     (if rd_Size file < 3 * 512 then Some (Inl (Errorf ''gpt: image is too small''))
      else case ReadBytesAt file 512 512 of
        None \<Rightarrow> None
      | Some (Inl err) \<Rightarrow> Some (Inl (Wrapped ''gpt: read header: %w'' err))
      | Some (Inr header) \<Rightarrow>
          (case read_header file header of
             Inl err \<Rightarrow> Some (Inl err)
           | Inr (entryLBA, entryCount, entrySize) \<Rightarrow>
               (case ReadBytesAt file (i64 (i64 (int entryLBA) * 512)) (int entryCount * int entrySize) of
                  None \<Rightarrow> None
                | Some (Inl err) \<Rightarrow> Some (Inl (Wrapped ''gpt: read partition table: %w'' err))
                | Some (Inr table) \<Rightarrow>
                    if unat (ChecksumIEEE table) \<noteq> le_at 88 4 header
                    then Some (Inl (Errorf ''gpt: partition table checksum mismatch''))
                    else (case read_entries file entrySize table [0..<entryCount] of
                            Inl err \<Rightarrow> Some (Inl err)
                          | Inr ps \<Rightarrow> Some (Inr \<lparr>gv_diskGUID = segment 56 16 header, gv_partitions = ps\<rparr>)))))"

subsection \<open>What a builder keeps\<close>

definition partition_ok :: "int \<Rightarrow> gptPartition \<Rightarrow> bool" where
  "partition_ok sectors p \<longleftrightarrow> reader_ok (gp_file p) \<and> 0 < rd_Size (gp_file p) \<and> rd_Size (gp_file p) \<le> max_int64 - 512 \<and>
     length (gp_typeGUID p) = 16 \<and> \<not> ZeroGUID (gp_typeGUID p) \<and>
     length (gp_uniqueGUID p) = 16 \<and> \<not> ZeroGUID (gp_uniqueGUID p) \<and>
     length (utf16_Encode (gp_name p)) \<le> 36 \<and> (\<forall>r \<in> set (gp_name p). valid_rune r) \<and>
     34 \<le> gp_startLBA p \<and> gp_endLBA p \<le> sectors - 34 \<and>
     gp_endLBA p = gp_startLBA p + (rd_Size (gp_file p) + 511) div 512 - 1"

definition apart :: "gptPartition \<Rightarrow> gptPartition \<Rightarrow> bool" where
  "apart p q \<longleftrightarrow> gp_endLBA p < gp_startLBA q \<or> gp_endLBA q < gp_startLBA p"

definition gpt_inv :: "gptBuilder \<Rightarrow> bool" where
  "gpt_inv b \<longleftrightarrow> 2 * 1024 * 1024 \<le> gb_size b \<and> gb_size b \<le> max_int64 \<and> 512 dvd gb_size b \<and>
     length (gb_diskGUID b) = 16 \<and> \<not> ZeroGUID (gb_diskGUID b) \<and> length (gb_partitions b) \<le> 128 \<and>
     (\<forall>p \<in> set (gb_partitions b). partition_ok (gb_size b div 512) p) \<and>
     sorted_wrt apart (gb_partitions b) \<and> distinct (map gp_uniqueGUID (gb_partitions b))"

text \<open>The builders a script can make, from files whose reads are stable.\<close>

inductive gpt_built :: "gptBuilder \<Rightarrow> bool" where
  built_new: "GPTBuiltin sz diskGUIDText = Inr b \<Longrightarrow> sz \<le> max_int64 \<Longrightarrow> gpt_built b"
| built_partition: "gpt_built b \<Longrightarrow> partitionBuiltin b (file, extenter) partitionGUID typeGUID name startLBA attributes = Inr b' \<Longrightarrow>
    reader_ok file \<Longrightarrow> rd_Size file \<le> max_int64 - 512 \<Longrightarrow> (\<forall>r \<in> set name. valid_rune r) \<Longrightarrow>
    min_int64 \<le> startLBA \<Longrightarrow> startLBA \<le> max_int64 \<Longrightarrow> gpt_built b'"


lemma i64_pred: "i64 (i64 y - 1) = i64 (y - 1)"
  by (simp add: i64_def mod_simps algebra_simps)

lemma i64_wrap: "i64 (x - 18446744073709551616) = i64 x"
proof -
  have "x - 18446744073709551616 + 9223372036854775808 = (x + 9223372036854775808) - 18446744073709551616" by simp
  then show ?thesis unfolding i64_def by (simp only: minus_mod_self2)
qed

lemma default_start_bounds: "2048 \<le> default_start ps \<and> default_start ps \<le> max_int64"
proof -
  have "2048 \<le> s \<and> s \<le> max_int64 \<Longrightarrow>
    (let r = fold (\<lambda>p s. let candidate = fs_Align (i64 (gp_endLBA p + 1)) 2048 in if candidate > s then candidate else s) ps s
     in 2048 \<le> r \<and> r \<le> max_int64)" for s
    by (induction ps arbitrary: s) (use i64_bounds in \<open>auto simp: Let_def fs_Align_def\<close>)
  from this [of 2048] show ?thesis by (simp add: default_start_def Let_def)
qed

lemma end_exact:
  assumes st: "34 \<le> st" "st \<le> max_int64" and sec: "1 \<le> sec" "sec \<le> 2 ^ 60" and le: "st \<le> i64 (i64 (st + sec) - 1)"
  shows "i64 (i64 (st + sec) - 1) = st + sec - 1"
proof (cases "st + sec - 1 \<le> max_int64")
  case True
  then show ?thesis using st sec by (simp add: i64_pred i64_nonneg)
next
  case False
  have "i64 (st + sec - 1) = i64 (st + sec - 1 - 18446744073709551616)" by (rule i64_wrap [symmetric])
  also have "\<dots> = st + sec - 1 - 18446744073709551616" using False st sec by (intro i64_id) simp_all
  finally show ?thesis using le st sec by (simp add: i64_pred)
qed

lemma withPartition_inv:
  assumes inv: "gpt_inv b" and w: "withPartition b (file, x) tg ug name st at = Inr b'"
    and g: "length tg = 16" "\<not> ZeroGUID tg" "length ug = 16" "\<not> ZeroGUID ug"
    and f: "reader_ok file" "rd_Size file \<le> max_int64 - 512" and nm: "\<forall>r \<in> set name. valid_rune r"
    and st: "st \<le> max_int64"
  shows "gpt_inv b'"
proof -
  define s where "s = (if st = 0 then default_start (gb_partitions b) else st)"
  define sec where "sec = fs_CeilDiv (rd_Size file) 512"
  define e where "e = i64 (i64 (s + sec) - 1)"
  let ?p = "\<lparr>gp_file = file, gp_extenter = x, gp_typeGUID = tg, gp_uniqueGUID = ug, gp_startLBA = s, gp_endLBA = e,
    gp_attributes = at, gp_name = name\<rparr>"
  have sz: "0 < rd_Size file" and un: "length (utf16_Encode name) \<le> 36" and n: "length (gb_partitions b) < 128"
    and u: "\<forall>p \<in> set (gb_partitions b). gp_uniqueGUID p \<noteq> ug" and r: "34 \<le> s" "e \<le> gb_size b sdiv 512 - 34" "s \<le> e"
    and o: "\<forall>p \<in> set (gb_partitions b). \<not> (s \<le> gp_endLBA p \<and> e \<ge> gp_startLBA p)"
    and b': "b' = b\<lparr>gb_partitions := gb_partitions b @ [?p]\<rparr>"
    using w unfolding withPartition_def Let_def fst_conv snd_conv s_def [symmetric] sec_def [symmetric] e_def [symmetric]
    by (auto split: if_splits simp: not_le not_less)
  have sec_eq: "sec = (rd_Size file + 511) div 512"
    using fs_CeilDiv_eq(1) [of 512 "rd_Size file"] sz f(2) by (simp add: sec_def)
  have sec_b: "1 \<le> sec" "sec \<le> 2 ^ 60" using sz f(2) unfolding sec_eq by simp_all
  have "s \<le> max_int64" using st default_start_bounds by (simp add: s_def)
  then have e: "e = s + sec - 1" using end_exact [OF r(1) _ sec_b] r(3) by (simp add: e_def)
  have bs: "0 \<le> gb_size b" using inv by (simp add: gpt_inv_def)
  have "partition_ok (gb_size b div 512) ?p"
    using f sz g un nm r e sec_eq bs by (simp add: partition_ok_def sdiv_nonneg)
  moreover have "\<forall>q \<in> set (gb_partitions b). apart q ?p" using o by (auto simp: apart_def)
  ultimately show ?thesis using inv n u unfolding b' by (auto simp: gpt_inv_def sorted_wrt_append)
qed

lemma gpt_built_inv: "gpt_built b \<Longrightarrow> gpt_inv b"
proof (induction rule: gpt_built.induct)
  case (built_new sz diskGUIDText b)
  have "512 dvd sz" if "sz smod 512 = 0" "0 \<le> sz"
    using that by (cases "sz = 0") (auto simp: signed_modulo_int_def dvd_eq_mod_eq_0)
  with built_new show ?case
    by (auto simp: GPTBuiltin_def gpt_inv_def guid_Parse_length split: if_splits option.splits)
next
  case built_partition
  then show ?case
    by (auto simp: partitionBuiltin_def split: if_splits option.splits
        intro: withPartition_inv guid_Parse_length)
qed


subsection \<open>The image of a builder\<close>

abbreviation in_order :: "gptBuilder \<Rightarrow> gptPartition list" where
  "in_order b \<equiv> sort_key gp_startLBA (gb_partitions b)"

lemma length_efi_part [simp]: "length efi_part = 8"
  by (simp add: efi_part_def)

lemma length_name_bytes: "length (concat (map (le_bytes 2) us)) = 2 * length us"
  by (induction us) auto

lemma length_gpt_entry: "partition_ok t p \<Longrightarrow> length (gpt_entry p) = 128"
  by (simp add: gpt_entry_def partition_ok_def length_name_bytes)

lemma length_entries_concat:
  "\<forall>p \<in> set ps. partition_ok t p \<Longrightarrow> length (concat (map gpt_entry ps)) = 128 * length ps"
  by (induction ps) (auto simp: length_gpt_entry)

lemma length_gpt_entries: "\<forall>p \<in> set ps. partition_ok t p \<Longrightarrow> length ps \<le> 128 \<Longrightarrow> length (gpt_entries ps) = 16384"
  using length_entries_concat [of ps t] by (simp add: gpt_entries_def)

lemma length_header_with: "length (gb_diskGUID b) = 16 \<Longrightarrow> length (header_with crc b c k e x) = 512"
  by (simp add: header_with_def)

lemma length_protectiveMBR [simp]: "length (protectiveMBR n) = 512"
  by (simp add: protectiveMBR_def Let_def)

lemma partition_end:
  assumes "partition_ok t p"
  shows "gp_startLBA p * 512 + rd_Size (gp_file p) \<le> (gp_endLBA p + 1) * 512" and "gp_startLBA p \<le> gp_endLBA p"
    and "gp_endLBA p * 512 < gp_startLBA p * 512 + rd_Size (gp_file p)"
proof -
  let ?z = "rd_Size (gp_file p)" and ?d = "(rd_Size (gp_file p) + 511) div 512"
  have "0 < ?z" using assms by (simp add: partition_ok_def)
  then have "?z \<le> ?d * 512" "(?d - 1) * 512 < ?z" "1 \<le> ?d" using sectors_needed [OF refl, of ?z] by simp_all
  with assms show "gp_startLBA p * 512 + ?z \<le> (gp_endLBA p + 1) * 512" "gp_startLBA p \<le> gp_endLBA p"
    "gp_endLBA p * 512 < gp_startLBA p * 512 + ?z"
    by (simp_all add: partition_ok_def algebra_simps)
qed

lemma gpt_invD:
  assumes "gpt_inv b"
  defines "t \<equiv> gb_size b div 512"
  shows "gb_size b = t * 512" and "4096 \<le> t" and "gb_size b sdiv 512 = t" and "t \<le> max_int64 div 512"
    and "\<forall>p \<in> set (in_order b). partition_ok t p" and "sorted_wrt apart (in_order b)" and "length (in_order b) \<le> 128"
    and "length (gb_diskGUID b) = 16" and "\<not> ZeroGUID (gb_diskGUID b)"
proof -
  show "gb_size b = t * 512" using assms by (simp add: gpt_inv_def)
  show "4096 \<le> t" using assms by (auto simp: gpt_inv_def elim!: dvdE)
  show "gb_size b sdiv 512 = t" using assms by (simp add: gpt_inv_def sdiv_nonneg)
  show "t \<le> max_int64 div 512" unfolding t_def using assms by (intro zdiv_mono1) (simp_all add: gpt_inv_def)
  show "sorted_wrt apart (in_order b)" using assms
    by (subst sorted_wrt_sort_key) (auto simp: apart_def gpt_inv_def)
qed (use assms in \<open>auto simp: gpt_inv_def\<close>)

lemma gpt_specs_ok:
  assumes inv: "gpt_inv b"
  shows "\<forall>e \<in> set (gpt_specs b). extent_fits (gb_size b) e" and "sorted_wrt disjoint_extents (gpt_specs b)"
    and "\<forall>e \<in> set (gpt_specs b). extent_backed e"
proof -
  define t where "t = gb_size b div 512"
  note d = gpt_invD [OF inv, folded t_def]
  note lens = length_header_with [OF d(8)] length_gpt_entries [OF d(5,7)]
  have p: "34 \<le> gp_startLBA p" "gp_endLBA p \<le> t - 34" "0 < rd_Size (gp_file p)"
      "gp_startLBA p * 512 + rd_Size (gp_file p) \<le> (gp_endLBA p + 1) * 512" "reader_ok (gp_file p)" "rd_Size (gp_file p) \<le> max_int64"
    if "p \<in> set (in_order b)" for p
    using bspec [OF d(5) that] partition_end(1) by (auto simp: partition_ok_def)
  have pe: "gp_startLBA p * 512 + rd_Size (gp_file p) \<le> (t - 33) * 512" "17408 \<le> gp_startLBA p * 512" if "p \<in> set (in_order b)" for p
    using p [OF that] by simp_all
  define tables where "tables =
      [data_extent 0 512 (protectiveMBR t), data_extent 512 512 (gpt_header b 1 (t - 1) 2 (ChecksumIEEE (gpt_entries (in_order b)))),
       data_extent 1024 16384 (gpt_entries (in_order b)), data_extent ((t - 33) * 512) 16384 (gpt_entries (in_order b)),
       data_extent ((t - 1) * 512) 512 (gpt_header b (t - 1) 1 (t - 33) (ChecksumIEEE (gpt_entries (in_order b))))]"
  have specs: "gpt_specs b = tables @ map partition_extent (in_order b)"
    by (simp add: gpt_specs_def Let_def d(3) tables_def)
  have fit: "extent_fits (t * 512) (partition_extent p)" "extent_backed (partition_extent p)"
      "\<forall>e \<in> set tables. disjoint_extents e (partition_extent p)" if "p \<in> set (in_order b)" for p
    using pe [OF that] p [OF that] d(2)
    by (auto simp: extent_fits_def extent_backed_def partition_extent_def disjoint_extents_def reader_ok_def tables_def data_extent_def)
  have tab: "\<forall>e \<in> set tables. extent_fits (t * 512) e \<and> extent_backed e" "sorted_wrt disjoint_extents tables"
    using d(2) lens by (simp_all add: tables_def data_extent_def extent_fits_def extent_backed_def gpt_header_def disjoint_extents_def)
  show "\<forall>e \<in> set (gpt_specs b). extent_fits (gb_size b) e" "\<forall>e \<in> set (gpt_specs b). extent_backed e"
    unfolding specs d(1) using tab fit by auto
  have "sorted_wrt disjoint_extents (map partition_extent ps)" if "sorted_wrt apart ps" "\<forall>q \<in> set ps. partition_ok t q" for ps
    using that
  proof (induction ps)
    case (Cons p ps)
    have "disjoint_extents (partition_extent p) (partition_extent q)" if "q \<in> set ps" for q
      using Cons.prems that partition_end(1) [of t p] partition_end(1) [of t q]
      by (auto simp: partition_extent_def disjoint_extents_def apart_def)
    then show ?case using Cons by simp
  qed simp
  from this [OF d(6,5)] show "sorted_wrt disjoint_extents (gpt_specs b)"
    unfolding specs using tab(2) fit(3) by (auto simp: sorted_wrt_append)
qed


subsection \<open>Reading back\<close>

lemma uint64_of_id: "0 \<le> v \<Longrightarrow> v \<le> max_int64 \<Longrightarrow> uint64_of v = nat v"
  by (simp add: uint64_of_def)

lemma uint64_of_bound: "uint64_of v < 256 ^ 8"
  by (simp add: uint64_of_def nat_less_iff)

lemma le_bytes_4_0: "le_bytes 4 0 = [0, 0, 0, 0]"
proof -
  have "le_bytes (Suc (Suc (Suc (Suc 0)))) 0 = [0, 0, 0, 0]" by simp
  then show ?thesis by (metis Suc_numeral numeral_One semiring_norm(2,5,8) One_nat_def)
qed

lemma header_fields:
  assumes g: "length (gb_diskGUID b) = 16" and h_def: "h = gpt_header b c k e x"
  shows "segment 0 8 h = efi_part" and "le_at 12 4 h = 92" and "le_at 24 8 h = uint64_of c" and "le_at 32 8 h = uint64_of k"
    and "segment 56 16 h = gb_diskGUID b" and "le_at 72 8 h = uint64_of e" and "le_at 80 4 h = 128" and "le_at 84 4 h = 128"
    and "le_at 88 4 h = unat x"
    and "unat (ChecksumIEEE (overwrite 16 [0, 0, 0, 0] (take 92 h))) = le_at 16 4 h"
proof -
  define crc where "crc = ChecksumIEEE (take 92 (header_with 0 b c k e x))"
  have h: "h = header_with crc b c k e x" by (simp add: h_def gpt_header_def crc_def)
  note v = le_value_le_bytes [OF uint64_of_bound] le_value_le_bytes [OF unat_u32_bound]
  show "segment 0 8 h = efi_part" by (simp add: h header_with_def fields)
  show "le_at 12 4 h = 92" "le_at 24 8 h = uint64_of c" "le_at 32 8 h = uint64_of k"
    by (simp_all add: h header_with_def fields le_at_def v le_value_le_bytes)
  show "segment 56 16 h = gb_diskGUID b" by (simp add: h header_with_def fields g)
  show "le_at 72 8 h = uint64_of e" "le_at 80 4 h = 128" "le_at 84 4 h = 128" "le_at 88 4 h = unat x"
    by (simp_all add: h header_with_def fields le_at_def v le_value_le_bytes g)
  have "le_at 16 4 h = unat crc" by (simp add: h header_with_def fields le_at_def v)
  moreover obtain A C where A: "length A = 16" and split: "\<And>r. header_with r b c k e x = A @ le_bytes 4 (unat r) @ C"
    by (rule that [of "efi_part @ le_bytes 4 0x00010000 @ le_bytes 4 92"]) (simp_all add: header_with_def zero_padded_def g)
  then have "take 92 (header_with r b c k e x) = A @ le_bytes 4 (unat r) @ take 72 C" for r by simp
  then have "overwrite 16 [0, 0, 0, 0] (take 92 h) = take 92 (header_with 0 b c k e x)"
    using A le_bytes_4_0 by (simp add: h overwrite_def)
  ultimately show "unat (ChecksumIEEE (overwrite 16 [0, 0, 0, 0] (take 92 h))) = le_at 16 4 h" by (simp add: crc_def)
qed


lemma segment_chunk:
  "\<forall>x \<in> set xs. length (f x) = n \<Longrightarrow>
   segment (k * n) n (concat (map f xs) @ zs) = (if k < length xs then f (xs ! k) else segment ((k - length xs) * n) n zs)"
proof (induction xs arbitrary: k)
  case (Cons x xs)
  show ?case
  proof (cases k)
    case 0
    then show ?thesis using Cons.prems by (simp add: segment_field)
  next
    case (Suc k')
    have "segment (k * n) n (concat (map f (x # xs)) @ zs) = segment (k' * n) n (concat (map f xs) @ zs)"
      using Cons.prems by (simp add: Suc segment_later)
    with Cons Suc show ?thesis by simp
  qed
qed simp

lemma takeWhile_pad: "takeWhile (\<lambda>u. u \<noteq> (0 :: nat)) (us @ replicate n 0) = takeWhile (\<lambda>u. u \<noteq> 0) us"
  by (induction us) (auto intro: takeWhile_eq_Nil_iff [THEN iffD2] simp: takeWhile_eq_Nil_iff)

lemma le_value_zeros [simp]: "le_value (replicate n 0) = 0"
  by (induction n) auto

lemma name_units_entry:
  assumes p: "partition_ok t p"
  shows "name_units (gpt_entry p) = takeWhile (\<lambda>u. u \<noteq> 0) (utf16_Encode (gp_name p))"
proof -
  define us X where "us = utf16_Encode (gp_name p)" and "X = gp_typeGUID p @ gp_uniqueGUID p @ le_bytes 8 (uint64_of (gp_startLBA p)) @
    le_bytes 8 (uint64_of (gp_endLBA p)) @ le_bytes 8 (unat (gp_attributes p))"
  have u: "length us \<le> 36" "length X = 56" using p by (simp_all add: us_def X_def partition_ok_def)
  have e: "gpt_entry p = X @ concat (map (le_bytes 2) us) @ replicate (72 - 2 * length us) 0"
    using u by (simp add: gpt_entry_def zero_padded_def us_def X_def length_name_bytes)
  have "le_at (56 + 2 * k) 2 (gpt_entry p) = (us @ replicate (36 - length us) 0) ! k" if "k < 36" for k
  proof -
    have "segment (56 + 2 * k) 2 (gpt_entry p) =
        (if k < length us then le_bytes 2 (us ! k) else segment ((k - length us) * 2) 2 (replicate (72 - 2 * length us) 0))"
      unfolding e using u segment_chunk [of us "le_bytes 2" 2 k "replicate (72 - 2 * length us) 0"]
      by (simp add: segment_later mult.commute)
    moreover have "le_value (le_bytes 2 (us ! k)) = us ! k" if "k < length us"
      using utf16_Encode_bound [of "us ! k" "gp_name p"] that by (intro le_value_le_bytes) (simp add: us_def)
    ultimately show ?thesis using that by (simp add: le_at_def nth_append)
  qed
  then have "map (\<lambda>k. le_at (56 + 2 * k) 2 (gpt_entry p)) [0..<36] = us @ replicate (36 - length us) 0"
    using u by (intro nth_equalityI) simp_all
  then show ?thesis unfolding name_units_def us_def [symmetric] by (simp only: takeWhile_pad)
qed

text \<open>What the reader makes of a partition of the builder; a name is cut at its first NUL.\<close>

definition recovered :: "reader \<Rightarrow> nat \<Rightarrow> gptPartition \<Rightarrow> gptReadPartition" where
  "recovered file i p = \<lparr>rp_index = i + 1, rp_typeGUID = gp_typeGUID p, rp_uniqueGUID = gp_uniqueGUID p,
     rp_startLBA = gp_startLBA p, rp_endLBA = gp_endLBA p, rp_attributes = unat (gp_attributes p),
     rp_name = takeWhile (\<lambda>r. r \<noteq> 0) (gp_name p),
     rp_file = \<lparr>sl_Base = file, sl_Offset = gp_startLBA p * 512,
                sl_Length = (gp_endLBA p - gp_startLBA p + 1) * 512\<rparr>\<rparr>"

lemma read_entry_entry:
  assumes p: "partition_ok t p" and f: "rd_Size file = t * 512" and t: "4096 \<le> t" "t \<le> max_int64 div 512"
  shows "read_entry file i (gpt_entry p) = Inr (Some (recovered file i p))"
proof -
  have s: "0 \<le> gp_startLBA p" "gp_startLBA p \<le> gp_endLBA p" "gp_endLBA p < t" "gp_endLBA p \<le> max_int64" "gp_startLBA p \<le> max_int64"
    using p t partition_end(2) [OF p] by (simp_all add: partition_ok_def)
  have g: "length (gp_typeGUID p) = 16" "length (gp_uniqueGUID p) = 16" using p by (simp_all add: partition_ok_def)
  note v = le_value_le_bytes [OF uint64_of_bound] le_value_le_bytes [OF unat_u64_bound]
  have seg: "segment 0 16 (gpt_entry p) = gp_typeGUID p" "segment 16 16 (gpt_entry p) = gp_uniqueGUID p"
    "le_at 32 8 (gpt_entry p) = uint64_of (gp_startLBA p)" "le_at 40 8 (gpt_entry p) = uint64_of (gp_endLBA p)"
    "le_at 48 8 (gpt_entry p) = unat (gp_attributes p)"
    using g by (simp_all add: gpt_entry_def fields le_at_def v)
  have l: "i64 (int (uint64_of (gp_startLBA p))) = gp_startLBA p" "i64 (int (uint64_of (gp_endLBA p))) = gp_endLBA p"
    using s by (simp_all add: uint64_of_id i64_nonneg)
  have nm: "utf16_Decode (name_units (gpt_entry p)) = takeWhile (\<lambda>r. r \<noteq> 0) (gp_name p)"
    unfolding name_units_entry [OF p] utf16_take_zero
    by (rule utf16_Decode_Encode) (use p in \<open>auto simp: partition_ok_def dest: set_takeWhileD\<close>)
  have "rd_Size file sdiv 512 = t" using f t by (simp add: sdiv_nonneg)
  then show ?thesis using s p unfolding read_entry_def seg l nm Let_def
    by (simp add: recovered_def partition_ok_def)
qed

lemma read_entries_eq:
  "(\<And>i. i \<in> set is \<Longrightarrow> read_entry file i (segment (i * n) n table) = Inr (f i)) \<Longrightarrow>
   read_entries file n table is = Inr (List.map_filter f is)"
  by (induction "is") (auto simp: List.map_filter_def split: option.splits)


lemma entries_of_table:
  assumes ps: "\<forall>p \<in> set ps. partition_ok t p" "length ps \<le> 128"
    and f: "rd_Size file = t * 512" and t: "4096 \<le> t" "t \<le> max_int64 div 512"
  shows "read_entries file 128 (gpt_entries ps) [0..<128] = Inr (map (\<lambda>i. recovered file i (ps ! i)) [0..<length ps])"
proof -
  define g where "g i = (if i < length ps then Some (recovered file i (ps ! i)) else None)" for i
  have "read_entry file i (segment (i * 128) 128 (gpt_entries ps)) = Inr (g i)" if "i < 128" for i
  proof -
    let ?z = "replicate (16384 - 128 * length ps) (0 :: byte)"
    have ln: "\<forall>p \<in> set ps. length (gpt_entry p) = 128" using ps(1) length_gpt_entry by blast
    have e: "gpt_entries ps = concat (map gpt_entry ps) @ ?z"
      using length_entries_concat [OF ps(1)] by (simp add: gpt_entries_def zero_padded_def)
    have seg: "segment (i * 128) 128 (gpt_entries ps) =
        (if i < length ps then gpt_entry (ps ! i) else segment ((i - length ps) * 128) 128 ?z)"
      unfolding e by (rule segment_chunk [OF ln])
    show ?thesis
    proof (cases "i < length ps")
      case True
      then show ?thesis using read_entry_entry [OF _ f t] ps(1) by (simp add: seg g_def)
    next
      case False
      then have "segment 0 16 (segment ((i - length ps) * 128) 128 ?z) = replicate 16 0" using that by simp
      then show ?thesis using False unfolding seg by (simp add: read_entry_def ZeroGUID_def g_def)
    qed
  qed
  then have r: "read_entries file 128 (gpt_entries ps) [0..<128] = Inr (List.map_filter g [0..<128])"
    by (intro read_entries_eq) (simp only: set_upt atLeastLessThan_iff)
  have u: "[0..<128] = [0..<length ps] @ [length ps..<128]"
    using upt_add_eq_append [of 0 "length ps" "128 - length ps"] ps(2) by simp
  have "List.map_filter g [0..<128] = map (\<lambda>i. recovered file i (ps ! i)) [0..<length ps]"
    unfolding u by (simp add: List.map_filter_def g_def)
  then show ?thesis by (simp only: r)
qed

lemma gpt_image:
  assumes inv: "gpt_inv b" and img: "gpt_build b = Inr img"
  defines "es \<equiv> sort_key ie_start (gpt_specs b)" and "r \<equiv> image_reader img"
  shows "reader_ok r" and "reader_bytes r = image_bytes (gb_size b) es" and "rd_Size r = gb_size b"
    and "index_ok (gb_size b) es"
proof -
  note d = gpt_invD [OF inv]
  have i: "img = NewGeneratedImage (gb_size b) (gpt_specs b)" using img by (auto simp: gpt_build_def split: if_splits)
  have "0 \<le> gb_size b" using inv by (simp add: gpt_inv_def)
  then have ix: "ensureIndexed img = Inr es"
    using ensureIndexed_disjoint gpt_specs_ok(1,2) [OF inv] by (simp add: i es_def)
  have b: "\<forall>e \<in> set es. extent_backed e" using gpt_specs_ok(3) [OF inv] by (simp add: es_def)
  have sz: "gi_size img = gb_size b" by (simp add: i NewGeneratedImage_def)
  show "reader_ok r" "reader_bytes r = image_bytes (gb_size b) es"
    using image_reader_ok [OF ix b] sz by (simp_all add: r_def)
  show "rd_Size r = gb_size b" using sz by (simp add: r_def image_reader_def)
  show "index_ok (gb_size b) es" using ensureIndexed_ok(1) [OF ix] sz by simp
qed

lemma gpt_data_bytes:
  assumes inv: "gpt_inv b" and img: "gpt_build b = Inr img"
    and e: "data_extent start (int n) d \<in> set (gpt_specs b)" and n: "n = length d"
  shows "segment (nat start) n (reader_bytes (image_reader img)) = d"
proof -
  note g = gpt_image [OF inv img]
  have "map (extent_byte (data_extent start (int n) d)) [0..<n] = d"
    unfolding n by (rule nth_equalityI) (simp_all add: extent_byte_def data_extent_def)
  with image_bytes_extent [OF g(4), of "data_extent start (int n) d"] e
  show ?thesis unfolding g(2) by (simp add: data_extent_def)
qed


lemma gpt_read_back:
  assumes inv: "gpt_inv b" and img: "gpt_build b = Inr img"
  shows "newGPTVolume (image_reader img) =
    Some (Inr \<lparr>gv_diskGUID = gb_diskGUID b,
               gv_partitions = map (\<lambda>i. recovered (image_reader img) i (in_order b ! i)) [0..<length (gb_partitions b)]\<rparr>)"
proof -
  define t r where "t = gb_size b div 512" and "r = image_reader img"
  note d = gpt_invD [OF inv, folded t_def] and g = gpt_image [OF inv img, folded r_def]
  define entries where "entries = gpt_entries (in_order b)"
  define header where "header = gpt_header b 1 (t - 1) 2 (ChecksumIEEE entries)"
  have ent: "length entries = 16384" using length_gpt_entries [OF d(5,7)] by (simp add: entries_def)
  have hdr: "length header = 512" using length_header_with [OF d(8)] by (simp add: header_def gpt_header_def)
  have specs: "data_extent 512 (int 512) header \<in> set (gpt_specs b)" "data_extent 1024 (int 16384) entries \<in> set (gpt_specs b)"
    by (simp_all add: gpt_specs_def Let_def d(3) header_def entries_def)
  have h: "ReadBytesAt r 512 512 = Some (Inr header)"
    using ReadBytesAt_ok [OF g(1), of 512 512] gpt_data_bytes [OF inv img specs(1)] hdr g(3) d(1,2) by (simp add: r_def)
  have e: "ReadBytesAt r 1024 16384 = Some (Inr entries)"
    using ReadBytesAt_ok [OF g(1), of 1024 16384] gpt_data_bytes [OF inv img specs(2)] ent g(3) d(1,2) by (simp add: r_def)
  have u: "uint64_of 1 = 1" "uint64_of 2 = 2" "uint64_of (t - 1) = nat (t - 1)" "uint64_of t = nat t"
    using d(2,4) by (simp_all add: uint64_of_id)
  note hf = header_fields [OF d(8) header_def]
  have "rd_Size r sdiv 512 = t" using g(3) d(3) by simp
  then have rh: "read_header r header = Inr (2, 128, 128)"
    using hf u d(2,9) by (simp add: read_header_def Let_def)
  have i: "i64 (i64 (int 2) * 512) = 1024" by (simp add: i64_nonneg)
  have re: "read_entries r 128 entries [0..<128] = Inr (map (\<lambda>i. recovered r i (in_order b ! i)) [0..<length (in_order b)])"
    unfolding entries_def by (rule entries_of_table [OF d(5,7) _ d(2,4)]) (use g(3) d(1) in simp)
  have "\<not> rd_Size r < 3 * 512" using g(3) d(1,2) by simp
  then show ?thesis using h rh e i re hf(5,9) by (simp add: newGPTVolume_def flip: r_def)
qed

lemma gpt_specs_cases:
  assumes "f \<in> set (gpt_specs b)" and "gb_size b sdiv 512 = t"
  obtains q where "q \<in> set (gb_partitions b)" and "f = partition_extent q"
  | "ie_end f \<le> 34 * 512" | "(t - 33) * 512 \<le> ie_start f"
  using assms by (auto simp: gpt_specs_def Let_def data_extent_def)

lemma gpt_slice:
  assumes inv: "gpt_inv b" and img: "gpt_build b = Inr img" and p: "p \<in> set (gb_partitions b)"
    and s_def: "s = rp_file (recovered (image_reader img) i p)"
  shows "slice_ok s" and "slice_bytes s = zero_padded (nat ((gp_endLBA p - gp_startLBA p + 1) * 512)) (reader_bytes (gp_file p))"
proof -
  define t r where "t = gb_size b div 512" and "r = image_reader img"
  note d = gpt_invD [OF inv, folded t_def] and g = gpt_image [OF inv img, folded r_def]
  let ?a = "gp_startLBA p * 512" and ?z = "rd_Size (gp_file p)" and ?b = "(gp_endLBA p + 1) * 512" and ?e = "partition_extent p"
  have pi: "p \<in> set (in_order b)" using p by simp
  note pk = bspec [OF d(5) pi]
  have pb: "34 \<le> gp_startLBA p" "gp_endLBA p \<le> t - 34" "reader_ok (gp_file p)" "0 < ?z" using pk by (simp_all add: partition_ok_def)
  have end1: "?a + ?z \<le> ?b" "gp_startLBA p \<le> gp_endLBA p" using partition_end [OF pk] by simp_all
  have len: "length (reader_bytes (gp_file p)) = nat ?z" using pb(3) by (simp add: reader_ok_def)
  have tot: "?b \<le> gb_size b" "0 \<le> ?a" using pb(1,2) d(1) by simp_all
  have lr: "length (reader_bytes r) = nat (gb_size b)" by (simp add: g(2))
  show "slice_ok s" using g(1) end1(2) tot lr by (simp add: s_def recovered_def slice_ok_def r_def algebra_simps)
  have "?e \<in> set (gpt_specs b)" using p by (simp add: gpt_specs_def Let_def)
  then have e: "?e \<in> set (sort_key ie_start (gpt_specs b))" by simp
  have "map (extent_byte ?e) [0..<nat ?z] = reader_bytes (gp_file p)"
    by (rule nth_equalityI) (simp_all add: len extent_byte_def partition_extent_def)
  then have head: "segment (nat ?a) (nat ?z) (reader_bytes r) = reader_bytes (gp_file p)"
    using image_bytes_extent [OF g(4) e] unfolding g(2) by (simp add: partition_extent_def)
  have free: "ie_end f \<le> ?a + ?z \<or> ?b \<le> ie_start f" if "f \<in> set (gpt_specs b)" for f
  proof (cases rule: gpt_specs_cases [OF that d(3)])
    case (1 q)
    then have q: "q \<in> set (in_order b)" by simp
    show ?thesis
    proof (cases "q = p")
      case True
      then show ?thesis using 1 by (simp add: partition_extent_def)
    next
      case False
      then have "apart p q \<or> apart q p" using d(6) pi q by (metis in_set_conv_nth linorder_neqE_nat sorted_wrt_iff_nth_less)
      with partition_end(1,2) [OF bspec [OF d(5) q]] 1(2) pb(4) show ?thesis by (auto simp: apart_def partition_extent_def)
    qed
  next
    case 2
    then have "ie_end f \<le> ?a + ?z" using pb(1,4) by linarith
    then show ?thesis ..
  next
    case 3
    moreover have "?b \<le> (t - 33) * 512" using pb(2) by (intro mult_right_mono) simp_all
    ultimately have "?b \<le> ie_start f" by (rule order_trans [rotated])
    then show ?thesis ..
  qed
  have tail: "segment (nat (?a + ?z)) (nat (?b - (?a + ?z))) (reader_bytes r) = replicate (nat (?b - (?a + ?z))) 0"
    unfolding g(2) by (rule image_bytes_slack [OF g(4)]) (use tot end1 pb(4) free in auto)
  have n: "nat (?b - ?a) = nat ?z + nat (?b - (?a + ?z))" "nat (?a + ?z) = nat ?a + nat ?z" using end1 tot pb(4) by simp_all
  let ?k = "nat (?b - (?a + ?z))" and ?len = "(gp_endLBA p - gp_startLBA p + 1) * 512"
  have "?len = ?b - ?a" by (simp add: algebra_simps)
  then have l: "nat ?len = nat ?z + ?k" using n(1) by simp
  have "slice_bytes s = segment (nat ?a) (nat ?z + ?k) (reader_bytes r)"
    unfolding l [symmetric] by (simp add: s_def recovered_def slice_bytes_def r_def)
  also have "\<dots> = reader_bytes (gp_file p) @ replicate ?k 0" using head tail n(2) by (simp only: segment_add)
  also have "\<dots> = zero_padded (nat ?len) (reader_bytes (gp_file p))" by (simp only: zero_padded_def len l add_diff_cancel_left')
  finally show "slice_bytes s = zero_padded (nat ?len) (reader_bytes (gp_file p))" .
qed


subsection \<open>Properties\<close>

text \<open>
  C29. A disk that the builder writes is read back as it was described: the reader accepts the image, checksums
  included, and recovers the disk GUID and, in the order of their first sectors, every partition with its number,
  GUIDs, sectors and attributes and with its name up to the first NUL in it; the builder accepts a name with a NUL.
\<close>

theorem gpt_roundtrip:
  assumes "gpt_built b" and "gpt_build b = Inr img"
  shows "newGPTVolume (image_reader img) =
    Some (Inr \<lparr>gv_diskGUID = gb_diskGUID b,
               gv_partitions = map (\<lambda>i. recovered (image_reader img) i (in_order b ! i)) [0..<length (gb_partitions b)]\<rparr>)"
  by (rule gpt_read_back [OF gpt_built_inv [OF assms(1)] assms(2)])

definition demo_guid :: string where
  "demo_guid = guid_Format (replicate 15 0 @ [1])"

definition demo_gpt :: gptBuilder where
  "demo_gpt = \<lparr>gb_size = 2097152, gb_diskGUID = replicate 15 0 @ [1], gb_partitions =
     [\<lparr>gp_file = Bytes_reader [1, 2, 3], gp_extenter = None, gp_typeGUID = replicate 15 0 @ [1],
       gp_uniqueGUID = replicate 15 0 @ [1], gp_startLBA = 2048, gp_endLBA = 2048, gp_attributes = 0, gp_name = [66, 79]\<rparr>]\<rparr>"

lemma demo_guid_parse: "guid_Parse demo_guid = Some (replicate 15 0 @ [1])"
  unfolding demo_guid_def by (rule guid_Parse_Format) simp

lemma demo_guid_nonzero: "\<not> ZeroGUID (replicate 15 0 @ [1])"
proof
  assume "ZeroGUID (replicate 15 0 @ [1])"
  then have "last (replicate 15 0 @ [1]) = last (replicate 16 (0 :: byte))" by (simp only: ZeroGUID_def)
  then show False by simp
qed

lemma demo_gpt_built: "gpt_built demo_gpt"
proof -
  have n: "GPTBuiltin 2097152 demo_guid = Inr (demo_gpt\<lparr>gb_partitions := []\<rparr>)"
    by (simp add: GPTBuiltin_def demo_guid_parse demo_guid_nonzero demo_gpt_def) (simp add: demo_guid_def guid_Format_def Let_def)
  have "partitionBuiltin (demo_gpt\<lparr>gb_partitions := []\<rparr>) (Bytes_reader [1, 2, 3], None) demo_guid demo_guid [66, 79] 0 0 = Inr demo_gpt"
    by (simp add: partitionBuiltin_def withPartition_def demo_guid_parse demo_guid_nonzero demo_gpt_def Bytes_reader_def
        fs_CeilDiv_def default_start_def i64_def)
  from built_partition [OF built_new [OF n] this] show ?thesis
    by (simp add: valid_rune_def Bytes_reader_def [symmetric]) (simp add: Bytes_reader_def)
qed

theorem gpt_roundtrip_witness:
  "\<exists>img v. gpt_build demo_gpt = Inr img \<and> newGPTVolume (image_reader img) = Some (Inr v) \<and>
     map rp_name (gv_partitions v) = [[66, 79]] \<and> map rp_startLBA (gv_partitions v) = [2048]"
proof -
  obtain img where b: "gpt_build demo_gpt = Inr img" by (simp add: gpt_build_def demo_gpt_def)
  show ?thesis
    by (intro exI conjI, rule b, rule gpt_roundtrip [OF demo_gpt_built b]) (simp_all add: demo_gpt_def recovered_def)
qed

text \<open>
  C30. Every partition of the disk that is read back is a stable file that holds exactly the bytes of the file it was
  built from, filled with zeros up to the end of its last sector: no other partition and no table reaches into it.
\<close>

theorem gpt_partition_contents:
  assumes "gpt_built b" and "gpt_build b = Inr img" and "newGPTVolume (image_reader img) = Some (Inr v)"
    and "i < length (gv_partitions v)"
  defines "p \<equiv> in_order b ! i" and "f \<equiv> Slice_reader (rp_file (gv_partitions v ! i))"
  shows "reader_ok f \<and> reader_bytes f = zero_padded (nat ((gp_endLBA p - gp_startLBA p + 1) * 512)) (reader_bytes (gp_file p))"
proof -
  note inv = gpt_built_inv [OF assms(1)]
  have v: "v = \<lparr>gv_diskGUID = gb_diskGUID b,
      gv_partitions = map (\<lambda>i. recovered (image_reader img) i (in_order b ! i)) [0..<length (gb_partitions b)]\<rparr>"
    using gpt_read_back [OF inv assms(2)] assms(3) by simp
  have i: "i < length (in_order b)" using assms(4) by (simp add: v)
  then have "p \<in> set (in_order b)" unfolding p_def by (rule nth_mem)
  then have p: "p \<in> set (gb_partitions b)" by simp
  have s: "rp_file (gv_partitions v ! i) = rp_file (recovered (image_reader img) i p)" using i by (simp add: v p_def)
  show ?thesis using gpt_slice [OF inv assms(2) p s] Slice_reader_ok by (simp add: f_def)
qed

theorem gpt_partition_contents_witness:
  "\<exists>img v. gpt_build demo_gpt = Inr img \<and> newGPTVolume (image_reader img) = Some (Inr v) \<and>
     reader_bytes (Slice_reader (rp_file (gv_partitions v ! 0))) = [1, 2, 3] @ replicate 509 0"
proof -
  obtain img where b: "gpt_build demo_gpt = Inr img" by (simp add: gpt_build_def demo_gpt_def)
  obtain v where v: "newGPTVolume (image_reader img) = Some (Inr v)" and l: "length (gv_partitions v) = 1"
    using gpt_read_back [OF gpt_built_inv [OF demo_gpt_built] b] by (simp add: demo_gpt_def)
  have "0 < length (gv_partitions v)" using l by simp
  note c = gpt_partition_contents [OF demo_gpt_built b v this]
  have "reader_bytes (Slice_reader (rp_file (gv_partitions v ! 0))) = [1, 2, 3] @ replicate 509 0"
    using conjunct2 [OF c] by (simp add: demo_gpt_def zero_padded_def)
  with b v show ?thesis by blast
qed

end
