(* ===== verification/Mbr.thy ===== *)
theory Mbr
  imports Format_Support
begin

text \<open>
  MBR partition tables: \<open>src/filesystem/mbr/mbr.go\<close>, the builder of a disk with one partition and the reader, with
  the boot code and CHS helpers of \<open>src/filesystem/internal/format.go\<close>. The arguments are those of the builtins after
  Starlark has unpacked them: the boot code is a file or absent, the geometry a sequence of integers or absent. Of a
  volume the partitions are modelled, not the path index over them. The division by the product of heads and sectors in
  \<open>encodeMBRCHS\<close> is reached with a product of zero by no builder: \<open>MBRBuiltin_geometry\<close> below.
\<close>

subsection \<open>Building\<close>

record CHSGeometry =
  chs_Cylinders :: int
  chs_Heads :: int
  chs_Sectors :: int

record mbrBuilder =
  mb_size :: int
  mb_bootCode :: bytes
  mb_diskSignature :: u32
  mb_chs :: "CHSGeometry option"

definition BootCodeBytes :: "reader option \<Rightarrow> go_error + bytes" where
  "BootCodeBytes source =
     (case source of
        None \<Rightarrow> Inr []
      | Some r \<Rightarrow>
          if rd_Size r \<le> 0 then Inl (Errorf ''%s: boot_code must not be empty'')
          else if rd_Size r > 64 * 1024 then Inl (Errorf ''%s: boot_code is too large'')
          else (case ReadAll r of (_, Some err) \<Rightarrow> Inl err | (data, None) \<Rightarrow> Inr data))"

definition fs_CHSGeometry :: "int list option \<Rightarrow> go_error + CHSGeometry option" where
  "fs_CHSGeometry chs =
     (case chs of
        None \<Rightarrow> Inr None
      | Some values \<Rightarrow>
          if length values \<noteq> 3 then Inl (Errorf ''got %d values, want cylinders, heads, and sectors'')
          else if \<exists>v \<in> set values. v < - (2 ^ 31) \<or> v \<ge> 2 ^ 31 then Inl (Errorf ''value %d is %s, want int'')
          else let c = values ! 0; h = values ! 1; n = values ! 2 in
          if c < 1 \<or> c > 1024 \<or> h < 1 \<or> h > 255 \<or> n < 1 \<or> n > 63
          then Inl (Errorf ''cylinders, heads, and sectors must be within 1..1024, 1..255, and 1..63'')
          else Inr (Some \<lparr>chs_Cylinders = c, chs_Heads = h, chs_Sectors = n\<rparr>))"

definition MBRBuiltin :: "int \<Rightarrow> reader option \<Rightarrow> u64 \<Rightarrow> int list option \<Rightarrow> go_error + mbrBuilder" where
  "MBRBuiltin sz bootCodeValue diskSignature chsValue =
     (if diskSignature > 0xffffffff then Inl (Errorf ''mbr: disk_signature must fit in 32 bits'')
      else if sz < 2 * 512 then Inl (Errorf ''mbr: size must be at least %d bytes'')
      else case BootCodeBytes bootCodeValue of
        Inl err \<Rightarrow> Inl err
      | Inr bootCode \<Rightarrow>
          (case fs_CHSGeometry chsValue of
             Inl err \<Rightarrow> Inl (Wrapped ''mbr: chs: %w'' err)
           | Inr chs \<Rightarrow> Inr \<lparr>mb_size = sz, mb_bootCode = bootCode, mb_diskSignature = ucast diskSignature, mb_chs = chs\<rparr>))"

definition LegacyBIOSGeometry :: "u32 \<Rightarrow> u32 \<times> u32" where
  "LegacyBIOSGeometry totalSectors =
     (case find (\<lambda>heads. totalSectors \<le> 1024 * heads * 63) [16, 32, 64, 128] of
        Some heads \<Rightarrow> (heads, 63)
      | None \<Rightarrow> (255, 63))"

definition encodeMBRCHS :: "u32 \<Rightarrow> u32 \<Rightarrow> u32 \<Rightarrow> bytes" where
  "encodeMBRCHS lba heads sectors =
     (if lba \<ge> 1024 * heads * sectors then [254, 0xff, 0xff]
      else let cylinder = lba div (heads * sectors);
               temp = lba mod (heads * sectors);
               head = temp div sectors;
               sector = temp mod sectors + 1
           in [ucast head, ucast sector OR ucast (drop_bit 2 cylinder AND 0xc0), ucast cylinder])"

definition mbrCHSForGeometry :: "u32 \<Rightarrow> u32 \<Rightarrow> CHSGeometry option \<Rightarrow> bytes" where
  "mbrCHSForGeometry lba totalSectors geometry =
     (case geometry of
        None \<Rightarrow> (let (heads, sectors) = LegacyBIOSGeometry totalSectors in encodeMBRCHS lba heads sectors)
      | Some g \<Rightarrow> encodeMBRCHS lba (word_of_int (chs_Heads g)) (word_of_int (chs_Sectors g)))"

definition defaultMBRBootCode :: bytes where
  "defaultMBRBootCode = [
    0xfa, 0x31, 0xc0, 0x8e, 0xd8, 0x8e, 0xc0, 0x8e, 0xd0, 0xbc, 0x00, 0x7c, 0xfb, 0xfc, 0xbe, 0x00, 0x7c, 0xbf,
    0x00, 0x06, 0xb9, 0x00, 0x01, 0xf3, 0xa5, 0xea, 0x1e, 0x06, 0x00, 0x00, 0xbe, 0xbe, 0x07, 0xb1, 0x04, 0x80,
    0x3c, 0x80, 0x74, 0x0f, 0x80, 0x3c, 0x00, 0x75, 0x78, 0x83, 0xc6, 0x10, 0xe2, 0xf1, 0xbe, 0xc3, 0x06, 0xeb,
    0x7b, 0x89, 0xf7, 0xb4, 0x41, 0xbb, 0xaa, 0x55, 0xcd, 0x13, 0x72, 0x45, 0x81, 0xfb, 0x55, 0xaa, 0x75, 0x3f,
    0xf7, 0xc1, 0x01, 0x00, 0x74, 0x39, 0xc6, 0x06, 0x30, 0x07, 0x10, 0xc6, 0x06, 0x31, 0x07, 0x00, 0xc7, 0x06,
    0x32, 0x07, 0x01, 0x00, 0xc7, 0x06, 0x34, 0x07, 0x00, 0x7c, 0xc7, 0x06, 0x36, 0x07, 0x00, 0x00, 0x8b, 0x45,
    0x08, 0xa3, 0x38, 0x07, 0x8b, 0x45, 0x0a, 0xa3, 0x3a, 0x07, 0x31, 0xc0, 0xa3, 0x3c, 0x07, 0xa3, 0x3e, 0x07,
    0xbe, 0x30, 0x07, 0xb4, 0x42, 0xcd, 0x13, 0x73, 0x0f, 0x8b, 0x15, 0x8b, 0x4d, 0x02, 0xbb, 0x00, 0x7c, 0xb8,
    0x01, 0x02, 0xcd, 0x13, 0x72, 0x14, 0x81, 0x3e, 0xfe, 0x7d, 0x55, 0xaa, 0x75, 0x11, 0x89, 0xfe, 0xea, 0x00,
    0x7c, 0x00, 0x00, 0xbe, 0xd9, 0x06, 0xeb, 0x08, 0xbe, 0xf3, 0x06, 0xeb, 0x03, 0xbe, 0x14, 0x07, 0xac, 0x84,
    0xc0, 0x74, 0x09, 0xb4, 0x0e, 0xbb, 0x07, 0x00, 0xcd, 0x10, 0xeb, 0xf2, 0xf4, 0xeb, 0xfd, 0x4e, 0x6f, 0x20,
    0x61, 0x63, 0x74, 0x69, 0x76, 0x65, 0x20, 0x70, 0x61, 0x72, 0x74, 0x69, 0x74, 0x69, 0x6f, 0x6e, 0x0d, 0x0a,
    0x00, 0x49, 0x6e, 0x76, 0x61, 0x6c, 0x69, 0x64, 0x20, 0x70, 0x61, 0x72, 0x74, 0x69, 0x74, 0x69, 0x6f, 0x6e,
    0x20, 0x74, 0x61, 0x62, 0x6c, 0x65, 0x0d, 0x0a, 0x00, 0x45, 0x72, 0x72, 0x6f, 0x72, 0x20, 0x6c, 0x6f, 0x61,
    0x64, 0x69, 0x6e, 0x67, 0x20, 0x6f, 0x70, 0x65, 0x72, 0x61, 0x74, 0x69, 0x6e, 0x67, 0x20, 0x73, 0x79, 0x73,
    0x74, 0x65, 0x6d, 0x0d, 0x0a, 0x00, 0x4d, 0x69, 0x73, 0x73, 0x69, 0x6e, 0x67, 0x20, 0x6f, 0x70, 0x65, 0x72,
    0x61, 0x74, 0x69, 0x6e, 0x67, 0x20, 0x73, 0x79, 0x73, 0x74, 0x65, 0x6d, 0x0d, 0x0a, 0x00, 0x90]"

definition mbr_entry :: "mbrBuilder \<Rightarrow> bool \<Rightarrow> byte \<Rightarrow> u32 \<Rightarrow> u32 \<Rightarrow> bytes" where
  "mbr_entry b bootable partitionType startLBA sectors =
     (let totalSectors = word_of_int (fs_CeilDiv (mb_size b) 512) in
      [if bootable then 0x80 else 0] @ mbrCHSForGeometry startLBA totalSectors (mb_chs b) @ [partitionType] @
      mbrCHSForGeometry (startLBA + sectors - 1) totalSectors (mb_chs b) @ le_bytes 4 (unat startLBA) @ le_bytes 4 (unat sectors))"

definition mbrSector :: "mbrBuilder \<Rightarrow> bool \<Rightarrow> byte \<Rightarrow> u32 \<Rightarrow> u32 \<Rightarrow> bytes" where
  "mbrSector b bootable partitionType startLBA sectors =
     (let code = take 446 (if mb_bootCode b \<noteq> [] then mb_bootCode b else defaultMBRBootCode);
          code = zero_padded 446 code
      in overwrite 440 (le_bytes 4 (unat (mb_diskSignature b))) code @
         mbr_entry b bootable partitionType startLBA sectors @ replicate 48 0 @ [0x55, 0xaa])"

definition mbr_file_extent :: "int \<Rightarrow> reader \<Rightarrow> (int \<Rightarrow> int \<Rightarrow> go_error + extent list) option \<Rightarrow> imageExtent" where
  "mbr_file_extent start file extenter = \<lparr>ie_start = start, ie_size = rd_Size file, ie_data = None,
     ie_file = Some file, ie_extenter = extenter, ie_off = 0\<rparr>"

definition mbr_partitionBuiltin ::
    "mbrBuilder \<Rightarrow> reader \<times> (int \<Rightarrow> int \<Rightarrow> go_error + extent list) option \<Rightarrow> bool \<Rightarrow> int \<Rightarrow> int \<Rightarrow> go_error + generatedImageFile" where
  "mbr_partitionBuiltin b source bootable partitionType startLBA =
     (if partitionType < 0 \<or> partitionType > 0xff then Inl (Errorf ''partition: type must fit in one byte'')
      else if startLBA < 1 \<or> startLBA > 0xffffffff then Inl (Errorf ''partition: start_lba must be between 1 and %#x'')
      else let file = fst source in
      if rd_Size file \<le> 0 then Inl (Errorf ''partition: filesystem must not be empty'')
      else let partitionOffset = startLBA * 512;
               needed = i64 (partitionOffset + rd_Size file);
               diskSize = (if mb_size b < needed then fs_Align needed (1024 * 1024) else mb_size b) in
      if diskSize sdiv 512 > 0xffffffff then Inl (Errorf ''partition: disk image is too large for an MBR partition table'')
      else let partitionSectors = fs_CeilDiv (rd_Size file) 512 in
      if startLBA + int (nat (partitionSectors mod 2 ^ 64)) > 0xffffffff + 1
      then Inl (Errorf ''partition: partition is too large for an MBR partition table'')
      else Inr (NewGeneratedImage diskSize
        [\<lparr>ie_start = 0, ie_size = 512,
          ie_data = Some (mbrSector b bootable (word_of_int partitionType) (word_of_int startLBA) (word_of_int partitionSectors)),
          ie_file = None, ie_extenter = None, ie_off = 0\<rparr>,
         mbr_file_extent partitionOffset file (snd source)]))"

subsection \<open>Reading\<close>

record mbrReadPartition =
  mp_index :: nat
  mp_bootable :: bool
  mp_kind :: byte
  mp_startLBA :: int
  mp_sectors :: int
  mp_partition :: Slice

record mbrVolume =
  mv_diskSignature :: nat
  mv_partitions :: "mbrReadPartition list"

fun read_slots :: "reader \<Rightarrow> bytes \<Rightarrow> nat list \<Rightarrow> go_error + mbrReadPartition list" where
  "read_slots file sector [] = Inr []"
| "read_slots file sector (slot # rest) =
     (let entry = segment (446 + slot * 16) 16 sector;
          kind = entry ! 4;
          sectors = int (le_at 12 4 entry) in
      if kind = 0 \<or> sectors = 0 then read_slots file sector rest
      else if entry ! 0 \<noteq> 0 \<and> entry ! 0 \<noteq> 0x80 then Inl (Errorf ''mbr: partition %d has invalid boot flag %#x'')
      else let startLBA = int (le_at 8 4 entry);
               offset = startLBA * 512;
               partitionSize = sectors * 512 in
      if offset > rd_Size file \<or> partitionSize > rd_Size file - offset
      then Inl (Errorf ''mbr: partition %d extends past the image'')
      else case read_slots file sector rest of
        Inl err \<Rightarrow> Inl err
      | Inr ps \<Rightarrow>
          Inr (\<lparr>mp_index = slot + 1, mp_bootable = (entry ! 0 = 0x80), mp_kind = kind, mp_startLBA = startLBA,
                mp_sectors = sectors,
                mp_partition = \<lparr>sl_Base = file, sl_Offset = offset, sl_Length = partitionSize\<rparr>\<rparr> # ps))"

definition newMBRVolume :: "reader \<Rightarrow> (go_error + mbrVolume) option" where
  "newMBRVolume file =
     (if rd_Size file < 512 then Some (Inl (Errorf ''mbr: image is too small''))
      else case ReadBytesAt file 0 512 of
        None \<Rightarrow> None
      | Some (Inl err) \<Rightarrow> Some (Inl (Wrapped ''mbr: read sector: %w'' err))
      | Some (Inr sector) \<Rightarrow>
          if sector ! 510 \<noteq> 0x55 \<or> sector ! 511 \<noteq> 0xaa then Some (Inl (Errorf ''mbr: invalid boot signature''))
          else (case read_slots file sector [0..<4] of
                  Inl err \<Rightarrow> Some (Inl err)
                | Inr ps \<Rightarrow> Some (Inr \<lparr>mv_diskSignature = le_at 440 4 sector, mv_partitions = ps\<rparr>)))"


subsection \<open>The sector of a builder\<close>

lemma MBRBuiltin_geometry:
  assumes "MBRBuiltin sz bootCodeValue diskSignature chsValue = Inr b"
  shows "1024 \<le> mb_size b" and "mb_chs b = Some g \<Longrightarrow> chs_Heads g \<in> {1..255} \<and> chs_Sectors g \<in> {1..63}"
  using assms by (auto simp: MBRBuiltin_def fs_CHSGeometry_def Let_def split: if_splits sum.splits option.splits)

lemma length_encodeMBRCHS [simp]: "length (encodeMBRCHS lba h n) = 3"
  by (simp add: encodeMBRCHS_def Let_def)

lemma length_mbrCHS [simp]: "length (mbrCHSForGeometry lba t g) = 3"
  by (simp add: mbrCHSForGeometry_def split: option.splits prod.splits)

lemma length_mbr_entry [simp]: "length (mbr_entry b bootable k st n) = 16"
  by (simp add: mbr_entry_def Let_def)

lemma mbr_entry_fields:
  assumes e_def: "e = mbr_entry b bootable k st n"
  shows "e ! 0 = (if bootable then 0x80 else 0)" and "e ! 4 = k" and "le_at 8 4 e = unat st" and "le_at 12 4 e = unat n"
proof -
  note v = le_value_le_bytes [OF unat_u32_bound]
  show "e ! 0 = (if bootable then 0x80 else 0)" "e ! 4 = k"
    by (simp_all add: e_def mbr_entry_def Let_def nth_append)
  obtain X where x: "length X = 8" "e = X @ le_bytes 4 (unat st) @ le_bytes 4 (unat n)"
    by (rule that [of "take 8 e"]) (simp_all add: e_def mbr_entry_def Let_def)
  show "le_at 8 4 e = unat st" "le_at 12 4 e = unat n"
    using segment_field [of "le_bytes 4 (unat n)" 4 "[]"] x(1)
    by (simp_all add: x(2) le_at_def segment_later segment_field v)
qed

lemma mbrSector_shape:
  obtains C where "length C = 446" and "segment 440 4 C = le_bytes 4 (unat (mb_diskSignature b))"
    and "mbrSector b bootable k st n = C @ mbr_entry b bootable k st n @ replicate 48 0 @ [0x55, 0xaa]"
proof -
  define code where "code = zero_padded 446 (take 446 (if mb_bootCode b \<noteq> [] then mb_bootCode b else defaultMBRBootCode))"
  have l: "length code = 446" by (simp add: code_def)
  show thesis
    by (rule that [of "overwrite 440 (le_bytes 4 (unat (mb_diskSignature b))) code"])
      (use l segment_overwrite_same [of 440 "le_bytes 4 (unat (mb_diskSignature b))" code] in
        \<open>simp_all add: mbrSector_def Let_def flip: code_def\<close>)
qed

lemma mbrSector_fields:
  assumes s_def: "s = mbrSector b bootable k st n"
  shows "length s = 512" and "s ! 510 = 0x55" and "s ! 511 = 0xaa" and "le_at 440 4 s = unat (mb_diskSignature b)"
    and "segment 446 16 s = mbr_entry b bootable k st n"
    and "slot \<in> {1, 2, 3} \<Longrightarrow> segment (446 + slot * 16) 16 s = replicate 16 0"
proof -
  obtain C where c: "length C = 446" "segment 440 4 C = le_bytes 4 (unat (mb_diskSignature b))"
    and s: "s = C @ mbr_entry b bootable k st n @ replicate 48 0 @ [0x55, 0xaa]"
    unfolding s_def by (rule mbrSector_shape)
  show "length s = 512" "s ! 510 = 0x55" "s ! 511 = 0xaa" using c(1) by (simp_all add: s nth_append)
  show "le_at 440 4 s = unat (mb_diskSignature b)"
    using c by (simp add: s le_at_def segment_append_left le_value_le_bytes [OF unat_u32_bound])
  show "segment 446 16 s = mbr_entry b bootable k st n" using c(1) by (simp add: s segment_later segment_field)
  show "slot \<in> {1, 2, 3} \<Longrightarrow> segment (446 + slot * 16) 16 s = replicate 16 0"
    using c(1) by (auto simp: s segment_later segment_append_left)
qed

text \<open>What the reader makes of the sector on a disk of a given size.\<close>

definition mbr_recovered :: "reader \<Rightarrow> bool \<Rightarrow> byte \<Rightarrow> int \<Rightarrow> int \<Rightarrow> mbrReadPartition" where
  "mbr_recovered file bootable k st n = \<lparr>mp_index = 1, mp_bootable = bootable, mp_kind = k, mp_startLBA = st, mp_sectors = n,
     mp_partition = \<lparr>sl_Base = file, sl_Offset = st * 512, sl_Length = n * 512\<rparr>\<rparr>"

lemma read_slots_sector:
  assumes "0 < unat n"
  shows "read_slots file (mbrSector b bootable k st n) [0..<4] =
    (if k = 0 then Inr []
     else if (int (unat st) + int (unat n)) * 512 \<le> rd_Size file
     then Inr [mbr_recovered file bootable k (int (unat st)) (int (unat n))]
     else Inl (Errorf ''mbr: partition %d extends past the image''))"
proof -
  define s where "s = mbrSector b bootable k st n"
  note f = mbrSector_fields [OF s_def]
  have skip: "read_slots file s (slot # rest) = read_slots file s rest" if "slot \<in> {1, 2, 3}" for slot rest
    using f(6) [OF that] by (simp add: Let_def)
  have rest: "read_slots file s [1, 2, 3] = Inr []" using skip [of 1] skip [of 2] skip [of 3] by simp
  have fit: "(int (unat st) * 512 > rd_Size file \<or> int (unat n) * 512 > rd_Size file - int (unat st) * 512) \<longleftrightarrow>
      \<not> (int (unat st) + int (unat n)) * 512 \<le> rd_Size file"
    using of_nat_0_le_iff [of "unat n", where 'a = int] by (simp only: distrib_right) arith
  have flag: "(if bootable then 0x80 else 0 :: byte) = 0x80 \<longleftrightarrow> bootable"
    "(if bootable then 0x80 else 0 :: byte) \<noteq> 0 \<and> (if bootable then 0x80 else 0 :: byte) \<noteq> 0x80 \<longleftrightarrow> False" by simp_all
  have zero: "446 + 0 * 16 = (446 :: nat)" by simp
  have "read_slots file s (0 # [1, 2, 3]) =
    (if k = 0 then Inr []
     else if (int (unat st) + int (unat n)) * 512 \<le> rd_Size file
     then Inr [mbr_recovered file bootable k (int (unat st)) (int (unat n))]
     else Inl (Errorf ''mbr: partition %d extends past the image''))"
    unfolding read_slots.simps(2) [of "file" s 0 "[1, 2, 3]"] rest zero f(5) Let_def
      mbr_entry_fields [OF refl, of b bootable k st n] flag fit
    using assms by (simp add: mbr_recovered_def del: of_nat_unat)
  moreover have "[0..<4] = 0 # [1, 2, 3 :: nat]" by (simp add: upt_rec)
  ultimately show ?thesis by (simp only: s_def)
qed


subsection \<open>The disk of a builder\<close>

lemma mbr_built:
  assumes built: "mbr_partitionBuiltin b (file, x) bootable k st = Inr img"
    and f: "reader_ok file" "rd_Size file \<le> max_int64 - 512" and b: "1024 \<le> mb_size b" "mb_size b \<le> max_int64"
  defines "n \<equiv> (rd_Size file + 511) div 512"
  shows "0 \<le> k" and "k \<le> 255" and "1 \<le> st" and "0 < rd_Size file" and "st + n \<le> 2 ^ 32" and "1 \<le> n"
    and "rd_Size file \<le> n * 512" and "st * 512 + rd_Size file \<le> gi_size img"
    and "mb_size b < st * 512 + rd_Size file \<Longrightarrow> (st + n) * 512 \<le> gi_size img"
    and "\<not> mb_size b < st * 512 + rd_Size file \<Longrightarrow> gi_size img = mb_size b"
    and "img = NewGeneratedImage (gi_size img)
        [\<lparr>ie_start = 0, ie_size = 512, ie_data = Some (mbrSector b bootable (word_of_int k) (word_of_int st) (word_of_int n)),
          ie_file = None, ie_extenter = None, ie_off = 0\<rparr>, mbr_file_extent (st * 512) file x]"
proof -
  define needed where "needed = i64 (st * 512 + rd_Size file)"
  define D where "D = (if mb_size b < needed then fs_Align needed (1024 * 1024) else mb_size b)"
  have c: "0 \<le> k" "k \<le> 255" "1 \<le> st" "st \<le> 0xffffffff" "0 < rd_Size file"
    and sec: "st + int (nat (fs_CeilDiv (rd_Size file) 512 mod 2 ^ 64)) \<le> 2 ^ 32"
    and img: "img = NewGeneratedImage D
        [\<lparr>ie_start = 0, ie_size = 512, ie_data = Some (mbrSector b bootable (word_of_int k) (word_of_int st) (word_of_int (fs_CeilDiv (rd_Size file) 512))),
          ie_file = None, ie_extenter = None, ie_off = 0\<rparr>, mbr_file_extent (st * 512) file x]"
    using built unfolding mbr_partitionBuiltin_def Let_def fst_conv snd_conv needed_def [symmetric] D_def [symmetric]
    by (auto split: if_splits)
  have n: "fs_CeilDiv (rd_Size file) 512 = n" using fs_CeilDiv_eq(1) [of 512 "rd_Size file"] c(5) f(2) by (simp add: n_def)
  have n1: "1 \<le> n" "rd_Size file \<le> n * 512" "(n - 1) * 512 < rd_Size file" using sectors_needed [OF n_def [THEN meta_eq_to_obj_eq]] c(5) by simp_all
  have n2: "n < 2 ^ 64" using n1(3) f(2) by simp
  show sn: "st + n \<le> 2 ^ 32" using sec n1(1) n2 by (simp add: n)
  have needed: "needed = st * 512 + rd_Size file" unfolding needed_def using c(3-5) n1(2) sn by (intro i64_nonneg) simp_all
  have al: "needed \<le> D \<and> (mb_size b < needed \<longrightarrow> 1024 * 1024 dvd D)"
  proof (cases "mb_size b < needed")
    case True
    let ?q = "fs_CeilDiv needed (1024 * 1024)"
    have nb: "0 < needed" "needed + 1024 * 1024 \<le> max_int64" using needed c(3,5) n1(2) sn by simp_all
    note q = fs_CeilDiv_eq [of "1024 * 1024" needed, OF _ nb]
    have "i64 (?q * (1024 * 1024)) = ?q * (1024 * 1024)" using q(2,3) nb by (intro i64_nonneg) simp_all
    then show ?thesis using q(3) True by (simp add: D_def fs_Align_def)
  next
    case False
    then show ?thesis by (simp add: D_def)
  qed
  have gi: "gi_size img = D" by (simp add: img NewGeneratedImage_def)
  show "st * 512 + rd_Size file \<le> gi_size img" using al needed gi by simp
  show "(st + n) * 512 \<le> gi_size img" if "mb_size b < st * 512 + rd_Size file"
  proof -
    have "1024 * 1024 dvd D" using al that needed by simp
    then obtain i where "D = 1024 * 1024 * i" by (rule dvdE)
    then have "D = 512 * (2048 * i)" by simp
    then obtain j where "D = 512 * j" ..
    have "(st + n - 1) * 512 < j * 512" using \<open>D = 512 * j\<close> al needed n1(3) by simp
    then have "st + n \<le> j" by simp
    then show ?thesis using \<open>D = 512 * j\<close> gi by simp
  qed
  show "gi_size img = mb_size b" if "\<not> mb_size b < st * 512 + rd_Size file" using that needed gi by (simp add: D_def)
  show "img = NewGeneratedImage (gi_size img)
        [\<lparr>ie_start = 0, ie_size = 512, ie_data = Some (mbrSector b bootable (word_of_int k) (word_of_int st) (word_of_int n)),
          ie_file = None, ie_extenter = None, ie_off = 0\<rparr>, mbr_file_extent (st * 512) file x]"
    using img gi n by simp
  show "0 \<le> k" "k \<le> 255" "1 \<le> st" "0 < rd_Size file" "1 \<le> n" "rd_Size file \<le> n * 512" using c n1 by simp_all
qed


lemma mbr_aligned_fits:
  assumes "mbr_partitionBuiltin b (file, x) bootable k st = Inr img"
    and "reader_ok file" "rd_Size file \<le> max_int64 - 512" and "1024 \<le> mb_size b" "mb_size b \<le> max_int64" and "512 dvd mb_size b"
  shows "(st + (rd_Size file + 511) div 512) * 512 \<le> gi_size img"
proof (cases "mb_size b < st * 512 + rd_Size file")
  case False
  obtain j where j: "mb_size b = 512 * j" using assms(6) by (rule dvdE)
  have "((rd_Size file + 511) div 512 - 1) * 512 < rd_Size file" by (rule sectors_needed(2) [OF refl])
  then have "st + (rd_Size file + 511) div 512 \<le> j" using False j by linarith
  then show ?thesis using mbr_built(10) [OF assms(1-5) False] j by simp
qed (rule mbr_built(9) [OF assms(1-5)])

lemma mbr_image:
  assumes built: "mbr_partitionBuiltin b (file, x) bootable k st = Inr img"
    and f: "reader_ok file" "rd_Size file \<le> max_int64 - 512" and b: "1024 \<le> mb_size b" "mb_size b \<le> max_int64"
  defines "n \<equiv> (rd_Size file + 511) div 512"
  shows "reader_ok (image_reader img)" and "rd_Size (image_reader img) = gi_size img"
    and "segment 0 512 (reader_bytes (image_reader img)) = mbrSector b bootable (word_of_int k) (word_of_int st) (word_of_int n)"
    and "segment (nat (st * 512)) (nat (rd_Size file)) (reader_bytes (image_reader img)) = reader_bytes file"
proof -
  note m = mbr_built [OF assms(1-5), folded n_def]
  let ?s = "mbrSector b bootable (word_of_int k) (word_of_int st) (word_of_int n)"
  let ?e = "\<lparr>ie_start = 0, ie_size = 512, ie_data = Some ?s, ie_file = None, ie_extenter = None, ie_off = 0\<rparr>"
  let ?p = "mbr_file_extent (st * 512) file x"
  define D where "D = gi_size img"
  have img: "img = NewGeneratedImage D [?e, ?p]" unfolding D_def by (rule m(11))
  have ls: "length ?s = 512" by (rule mbrSector_fields(1) [OF refl])
  have lf: "length (reader_bytes file) = nat (rd_Size file)" using f(1) by (simp add: reader_ok_def)
  have fit: "\<forall>e \<in> set [?e, ?p]. extent_fits D e" "sorted_wrt disjoint_extents [?e, ?p]" "\<forall>e \<in> set [?e, ?p]. extent_backed e"
    using m(3,4,8) ls f lf by (auto simp: extent_fits_def disjoint_extents_def extent_backed_def mbr_file_extent_def D_def)
  have "0 \<le> D" using m(3,4,8) by (simp add: D_def)
  then have ix: "ensureIndexed img = Inr (sort_key ie_start [?e, ?p])"
    using ensureIndexed_disjoint [OF _ fit(1,2)] by (simp only: img)
  have bk: "\<forall>e \<in> set (sort_key ie_start [?e, ?p]). extent_backed e" using fit(3) by (simp only: set_sort)
  note r = image_reader_ok [OF ix bk] and ok = ensureIndexed_ok(1) [OF ix]
  show "reader_ok (image_reader img)" by (rule r(1))
  show "rd_Size (image_reader img) = gi_size img" by (simp add: image_reader_def)
  have "map (extent_byte ?e) [0..<512] = ?s" by (rule nth_equalityI) (simp_all add: ls extent_byte_def)
  then show "segment 0 512 (reader_bytes (image_reader img)) = ?s"
    using image_bytes_extent [OF ok, of ?e] unfolding r(2) by (simp del: sort_key_simps)
  have "map (extent_byte ?p) [0..<nat (rd_Size file)] = reader_bytes file"
    by (rule nth_equalityI) (simp_all add: lf extent_byte_def mbr_file_extent_def)
  then show "segment (nat (st * 512)) (nat (rd_Size file)) (reader_bytes (image_reader img)) = reader_bytes file"
    using image_bytes_extent [OF ok, of ?p] unfolding r(2) by (simp add: mbr_file_extent_def del: sort_key_simps)
qed


subsection \<open>Properties\<close>

text \<open>
  C31. What the reader makes of the disk of a builder, for every partition the builder accepts. A partition of a
  non-zero type is read back as it was described (boot flag, type, first sector and sector count), with the disk
  signature and with the bytes of the file at its first sector, exactly when the last sector of the partition fits the
  image; otherwise the reader refuses the disk. It fits for a disk size in whole sectors, but the builder accepts a disk
  size that ends inside the last sector too. The builder also accepts type 0, which marks an unused slot: the reader
  then finds a volume without partitions.
\<close>

theorem mbr_roundtrip:
  assumes "mbr_partitionBuiltin b (file, x) bootable k st = Inr img"
    and "reader_ok file" and "rd_Size file \<le> max_int64 - 512" and "1024 \<le> mb_size b" and "mb_size b \<le> max_int64"
  shows "newMBRVolume (image_reader img) =
    Some (if k = 0 then Inr \<lparr>mv_diskSignature = unat (mb_diskSignature b), mv_partitions = []\<rparr>
          else if (st + (rd_Size file + 511) div 512) * 512 \<le> gi_size img
          then Inr \<lparr>mv_diskSignature = unat (mb_diskSignature b),
                    mv_partitions = [mbr_recovered (image_reader img) bootable (word_of_int k) st ((rd_Size file + 511) div 512)]\<rparr>
          else Inl (Errorf ''mbr: partition %d extends past the image''))
    \<and> segment (nat (st * 512)) (nat (rd_Size file)) (reader_bytes (image_reader img)) = reader_bytes file
    \<and> (512 dvd mb_size b \<longrightarrow> (st + (rd_Size file + 511) div 512) * 512 \<le> gi_size img)"
proof -
  define n r where "n = (rd_Size file + 511) div 512" and "r = image_reader img"
  note m = mbr_built [OF assms(1-5), folded n_def] and i = mbr_image [OF assms(1-5), folded n_def r_def]
  let ?s = "mbrSector b bootable (word_of_int k) (word_of_int st) (word_of_int n)"
  have u: "int (unat (word_of_int st :: u32)) = st" "int (unat (word_of_int n :: u32)) = n"
    using m(3,5,6) by (simp_all add: uint_word_of_int)
  have k: "(word_of_int k :: byte) = 0 \<longleftrightarrow> k = 0"
    using m(1,2) by (auto simp: word_of_int_eq_0_iff dest: zdvd_imp_le)
  have sz: "512 \<le> rd_Size r" using m(3,4,8) i(2) by simp
  then have rb: "ReadBytesAt r 0 512 = Some (Inr ?s)" using ReadBytesAt_ok [OF i(1), of 0 512] i(3) by simp
  have "0 < unat (word_of_int n :: u32)" using u(2) m(6) by linarith
  note slots = read_slots_sector [OF this, of r b bootable "word_of_int k" "word_of_int st", unfolded u k]
  note s = mbrSector_fields(2-4) [OF refl, of b bootable "word_of_int k" "word_of_int st" "word_of_int n"]
  have "512 dvd mb_size b \<longrightarrow> (st + n) * 512 \<le> gi_size img" using mbr_aligned_fits [OF assms(1-5)] by (simp add: n_def)
  then show ?thesis using sz rb slots s i(2,4)
    by (cases "k = 0") (simp_all add: newMBRVolume_def flip: n_def r_def)
qed

definition demo_mbr :: "int \<Rightarrow> mbrBuilder" where
  "demo_mbr sz = (case MBRBuiltin sz None 7 None of Inr b \<Rightarrow> b)"

text \<open>
  Three bytes at sector 2. On a disk of 1027 bytes their sector does not fit, on one of three sectors it does, and with
  type 0 the partition is lost.
\<close>

theorem mbr_roundtrip_witness:
  "\<exists>bad good lost.
     mbr_partitionBuiltin (demo_mbr 1027) (Bytes_reader [1, 2, 3], None) True 7 2 = Inr bad \<and>
     newMBRVolume (image_reader bad) = Some (Inl (Errorf ''mbr: partition %d extends past the image'')) \<and>
     mbr_partitionBuiltin (demo_mbr 1536) (Bytes_reader [1, 2, 3], None) True 7 2 = Inr good \<and>
     newMBRVolume (image_reader good) = Some (Inr \<lparr>mv_diskSignature = 7,
       mv_partitions = [mbr_recovered (image_reader good) True 7 2 1]\<rparr>) \<and>
     mbr_partitionBuiltin (demo_mbr 1536) (Bytes_reader [1, 2, 3], None) True 0 2 = Inr lost \<and>
     newMBRVolume (image_reader lost) = Some (Inr \<lparr>mv_diskSignature = 7, mv_partitions = []\<rparr>)"
proof -
  have d: "demo_mbr sz = \<lparr>mb_size = sz, mb_bootCode = [], mb_diskSignature = 7, mb_chs = None\<rparr>" if "1024 \<le> sz" for sz
    using that by (simp add: demo_mbr_def MBRBuiltin_def BootCodeBytes_def fs_CHSGeometry_def)
  have s: "rd_Size (Bytes_reader [1, 2, 3]) = 3" by (simp add: Bytes_reader_def)
  have built: "\<exists>img. mbr_partitionBuiltin (demo_mbr sz) (Bytes_reader [1, 2, 3], None) True k 2 = Inr img \<and> gi_size img = sz"
    if "sz \<in> {1027, 1536}" "k \<in> {0, 7}" for sz k
    using that by (auto simp: mbr_partitionBuiltin_def d Bytes_reader_def i64_def fs_CeilDiv_def NewGeneratedImage_def)
  obtain bad good lost where
    b: "mbr_partitionBuiltin (demo_mbr 1027) (Bytes_reader [1, 2, 3], None) True 7 2 = Inr bad" "gi_size bad = 1027" and
    g: "mbr_partitionBuiltin (demo_mbr 1536) (Bytes_reader [1, 2, 3], None) True 7 2 = Inr good" "gi_size good = 1536" and
    l: "mbr_partitionBuiltin (demo_mbr 1536) (Bytes_reader [1, 2, 3], None) True 0 2 = Inr lost" "gi_size lost = 1536"
    using built [of 1027 7] built [of 1536 7] built [of 1536 0] by auto
  show ?thesis
    using mbr_roundtrip [OF b(1)] mbr_roundtrip [OF g(1)] mbr_roundtrip [OF l(1)] b g l
    by (intro exI [of _ bad] exI [of _ good] exI [of _ lost]) (simp add: d s)
qed

end
