(* ===== verification/Arm64_Tlb.thy ===== *)
theory Arm64_Tlb
  imports Arm64_Run Guest_Memory_Maps
begin

text \<open>
  The translation cache of \<open>src/emulator/arm64/translation_cache.go\<close> is transparent: together with the write tracking of
  the address space it never serves a translation that a walk of the current tables would not give.
\<close>

subsection \<open>The walk as a function of the tables\<close>

text \<open>
  The result of the walk of \<open>Arm64_MMU\<close>, with the addresses of the descriptors it reads, over a function that gives the
  descriptor at an address.
\<close>

function tables_loop :: "(u64 \<Rightarrow> go_error + u64) \<Rightarrow> CPU \<Rightarrow> u64 \<Rightarrow> u64 \<Rightarrow> access \<Rightarrow> nat \<Rightarrow> u64 \<Rightarrow> walk_rights \<Rightarrow>
    (go_error + u64 \<times> u64) \<times> u64 list" where
  "tables_loop rd c address va access level table rights =
     (if level \<le> 3
      then let a = table + (drop_bit (12 + 9 * (3 - level)) va AND 511) * 8 in
        case rd a of
          Inl e \<Rightarrow> (Inl (Wrapped ''arm64: translation table read: %w'' e), [a])
        | Inr d \<Rightarrow>
            let kind = d AND 3 in
            if kind = 0 \<or> kind = 2 \<or> level = 0 \<and> kind = 1 \<or> level = 3 \<and> kind \<noteq> 3
            then (Inl (TranslationFault address (4 + of_nat level)), [a])
            else if kind = 3 \<and> level < 3
            then (case tables_loop rd c address va access (level + 1) (d AND 0x0000fffffffff000)
                         \<lparr>wr_readOnly = wr_readOnly rights \<or> bit d 62, wr_userDenied = wr_userDenied rights \<or> bit d 61,
                          wr_pxn = wr_pxn rights \<or> bit d 59, wr_uxn = wr_uxn rights \<or> bit d 60\<rparr> of
                    (r, as) \<Rightarrow> (r, a # as))
            else (leaf c address va access level rights d, [a])
      else (Inl (TranslationFault address 7), []))"
  by pat_completeness auto
termination
  by (relation "measure (\<lambda>(rd, c, address, va, access, level, table, rights). 4 - level)") auto

declare tables_loop.simps [simp del]

abbreviation descriptor_address :: "nat \<Rightarrow> u64 \<Rightarrow> u64 \<Rightarrow> u64" where
  "descriptor_address level table va \<equiv> table + (drop_bit (12 + 9 * (3 - level)) va AND 511) * 8"

abbreviation narrowed :: "walk_rights \<Rightarrow> u64 \<Rightarrow> walk_rights" where
  "narrowed rights x \<equiv> \<lparr>wr_readOnly = wr_readOnly rights \<or> bit x 62, wr_userDenied = wr_userDenied rights \<or> bit x 61,
     wr_pxn = wr_pxn rights \<or> bit x 59, wr_uxn = wr_uxn rights \<or> bit x 60\<rparr>"

abbreviation bad_descriptor :: "nat \<Rightarrow> u64 \<Rightarrow> bool" where
  "bad_descriptor level x \<equiv> x AND 3 = 0 \<or> x AND 3 = 2 \<or> level = 0 \<and> x AND 3 = 1 \<or> level = 3 \<and> x AND 3 \<noteq> 3"

text \<open>One level, with the next level as a value.\<close>

lemma tables_loop_step:
  assumes "level \<le> 3" and a: "a = descriptor_address level table va"
    and n: "n = (\<lambda>x. tables_loop rd c address va access (level + 1) (x AND 0x0000fffffffff000) (narrowed rights x))"
  shows "tables_loop rd c address va access level table rights =
    (case rd a of
       Inl e \<Rightarrow> (Inl (Wrapped ''arm64: translation table read: %w'' e), [a])
     | Inr x \<Rightarrow> if bad_descriptor level x then (Inl (TranslationFault address (4 + of_nat level)), [a])
         else if x AND 3 = 3 \<and> level < 3 then (fst (n x), a # snd (n x))
         else (leaf c address va access level rights x, [a]))"
  unfolding n by (subst tables_loop.simps) (simp only: assms(1) if_True Let_def a [symmetric] case_prod_beta)

lemma tables_loop_end: "\<not> level \<le> 3 \<Longrightarrow> tables_loop rd c address va access level table rights = (Inl (TranslationFault address 7), [])"
  by (simp add: tables_loop.simps)

definition table_walk :: "(u64 \<Rightarrow> go_error + u64) \<Rightarrow> CPU \<Rightarrow> u64 \<Rightarrow> access \<Rightarrow> (go_error + u64 \<times> u64) \<times> u64 list" where
  "table_walk rd c address access =
     (if \<not> bit (c_system c ! 0) 0 then (Inr (address, 0xff00000000000800), [])
      else if c_currentEL c > 4 then (Inl (Errorf ''arm64: EL2/EL3 translation is not implemented''), [])
      else let g = regime_of c address in
      if \<not> rg_granule4k g then (Inl (Errorf ''arm64: only 4 KiB translation granules are implemented''), [])
      else if rg_tsize g < 16 \<or> rg_tsize g > 39 then (Inl (Errorf ''arm64: unsupported TCR address size %d''), [])
      else let abits = 64 - rg_tsize g in
      if drop_bit abits (rg_va g) \<noteq> (if bit address 55 then mask64 (rg_tsize g) else 0)
      then (Inl (TranslationFault address 0), [])
      else let level = 4 - (abits - 12 + 8) div 9 in
      if rg_disabled g then (Inl (TranslationFault address (4 + of_nat level)), [])
      else tables_loop rd c address (rg_va g) access level (rg_ttbr g AND 0x0000fffffffff000)
             \<lparr>wr_readOnly = False, wr_userDenied = False, wr_pxn = False, wr_uxn = False\<rparr>)"

definition descriptor_at :: "address_space \<Rightarrow> u64 \<Rightarrow> go_error + u64" where
  "descriptor_at ram a = (case mem_read ram a 8 Read_access of Inl e \<Rightarrow> Inl e | Inr b \<Rightarrow> Inr (lane b 0 8))"

text \<open>What a walk leaves of the address space: only subscriptions and the read cache change.\<close>

definition same_memory :: "address_space \<Rightarrow> address_space \<Rightarrow> bool" where
  "same_memory m m' \<longleftrightarrow> as_regions m' = as_regions m \<and> as_protections m' = as_protections m \<and> as_ref m' = as_ref m \<and>
     as_trackedVersion m' = as_trackedVersion m"

lemma same_memory_refl [simp]: "same_memory m m"
  by (simp add: same_memory_def)

lemma same_memory_trans: "same_memory m m' \<Longrightarrow> same_memory m' m'' \<Longrightarrow> same_memory m m''"
  by (simp add: same_memory_def)

lemma descriptor_at_same: "same_memory m m' \<Longrightarrow> descriptor_at m' = descriptor_at m"
  using mem_read_cong(1) [of m' m] by (auto simp: same_memory_def descriptor_at_def)

lemma track_space:
  assumes "as_inv ram"
  obtains ram' where "track c (Space ram) a = Space ram'" and "as_inv ram'" and "same_memory ram ram'"
    and "set (as_trackedPages ram') = (if c_DisableTranslationCache c then {} else {page_of a}) \<union> set (as_trackedPages ram)"
proof (cases "c_DisableTranslationCache c")
  case True
  then show thesis using that [of ram] assms by (simp add: track_def)
next
  case False
  then show thesis using that [of "TrackPageWrites ram a"] TrackPageWrites_inv [OF assms, of a]
    by (simp add: track_def TrackPageWrites_def same_memory_def Let_def)
qed

lemma readDescriptor_space:
  assumes "as_inv ram"
  obtains ram' where "readDescriptor ops (Space ram) a = (descriptor_at ram a, Space ram')" and "as_inv ram'" and "same_memory ram ram'"
    and "as_trackedPages ram' = as_trackedPages ram"
proof -
  obtain r ram' where r: "ReadMemory ram a 8 Read_access = (r, ram')" by fastforce
  have k: "r = mem_read ram a 8 Read_access" "as_inv ram'" "cache_only ram ram'"
    using ReadMemory_eq [OF assms, of 8 a Read_access] r by simp_all
  have "same_memory ram ram' \<and> as_trackedPages ram' = as_trackedPages ram"
    using k(3) by (auto simp: same_memory_def dest: cache_only_fields)
  then show thesis using that [of ram'] k(1,2) r by (simp add: readDescriptor_def descriptor_at_def split: sum.split)
qed

text \<open>A walk of an address space, given as what it should give and what it gives.\<close>

definition walked :: "address_space \<Rightarrow> CPU \<Rightarrow> 'r \<times> u64 list \<Rightarrow> 'r \<times> 'd guest \<Rightarrow> bool" where
  "walked ram c t w \<longleftrightarrow> (\<exists>ram'. w = (fst t, Space ram') \<and> as_inv ram' \<and> same_memory ram ram' \<and>
     set (as_trackedPages ram') = (if c_DisableTranslationCache c then {} else page_of ` set (snd t)) \<union> set (as_trackedPages ram))"

lemma walked_stay: "as_inv ram \<Longrightarrow> walked ram c (r, []) (r, Space ram)"
  by (simp add: walked_def)

lemma walk_loop_space:
  fixes ops :: "'d device_ops"
  assumes "as_inv ram"
  shows "walked ram c (tables_loop (descriptor_at ram) c address va access level table rights)
    (walk_loop ops c address va access level table rights (Space ram))"
  using assms
proof (induction "4 - level" arbitrary: level table rights ram)
  case 0
  then show ?case by (simp add: walk_loop.simps [of _ _ _ _ _ level] tables_loop.simps [of _ _ _ _ _ level] walked_stay)
next
  case (Suc k)
  have le: "level \<le> 3" using Suc.hyps(2) by simp
  define a where "a = table + (drop_bit (12 + 9 * (3 - level)) va AND 511) * 8"
  obtain m1 where t: "track c (Space ram :: 'd guest) a = Space m1" "as_inv m1" "same_memory ram m1"
    "set (as_trackedPages m1) = (if c_DisableTranslationCache c then {} else {page_of a}) \<union> set (as_trackedPages ram)"
    by (rule track_space [OF Suc.prems])
  obtain m2 where d: "readDescriptor ops (Space m1) a = (descriptor_at m1 a, Space m2)" "as_inv m2" "same_memory m1 m2"
    "as_trackedPages m2 = as_trackedPages m1"
    by (rule readDescriptor_space [OF t(2)])
  have s2: "same_memory ram m2" using same_memory_trans t(3) d(3) by blast
  have rd: "descriptor_at m1 = descriptor_at ram" "descriptor_at m2 = descriptor_at ram"
    using descriptor_at_same t(3) s2 by simp_all
  define n where "n = (\<lambda>x. tables_loop (descriptor_at ram) c address va access (level + 1) (x AND 0x0000fffffffff000) (narrowed rights x))"
  have w: "walk_loop ops c address va access level table rights (Space ram) =
      (case descriptor_at ram a of
         Inl e \<Rightarrow> (Inl (Wrapped ''arm64: translation table read: %w'' e), Space m2)
       | Inr x \<Rightarrow> if bad_descriptor level x then (Inl (TranslationFault address (4 + of_nat level)), Space m2)
           else if x AND 3 = 3 \<and> level < 3
           then walk_loop ops c address va access (level + 1) (x AND 0x0000fffffffff000) (narrowed rights x) (Space m2)
           else (leaf c address va access level rights x, Space m2))"
    by (subst walk_loop.simps) (simp only: le if_True Let_def a_def [symmetric] t(1) d(1) rd(1) prod.case)
  note tl = tables_loop_step [OF le a_def n_def]
  have tp: "set (as_trackedPages m2) = (if c_DisableTranslationCache c then {} else {page_of a}) \<union> set (as_trackedPages ram)"
    using t(4) d(4) by simp
  show ?case
  proof (cases "\<exists>x. descriptor_at ram a = Inr x \<and> \<not> bad_descriptor level x \<and> x AND 3 = 3 \<and> level < 3")
    case True
    then obtain x where x: "descriptor_at ram a = Inr x" "bad_descriptor level x = False" "(x AND 3 = 3 \<and> level < 3) = True" by auto
    have "k = 4 - (level + 1)" using Suc.hyps(2) by simp
    from Suc.hyps(1) [OF this d(2)] obtain m3 where
      nx: "walk_loop ops c address va access (level + 1) (x AND 0x0000fffffffff000) (narrowed rights x) (Space m2) = (fst (n x), Space m3)"
        "as_inv m3" "same_memory m2 m3"
        "set (as_trackedPages m3) = (if c_DisableTranslationCache c then {} else page_of ` set (snd (n x))) \<union> set (as_trackedPages m2)"
      unfolding rd(2) walked_def n_def by blast
    have "same_memory ram m3" using same_memory_trans s2 nx(3) by blast
    then show ?thesis unfolding walked_def w tl x sum.case if_True if_False nx(1) using nx(2,4) tp by auto
  next
    case False
    have "\<exists>r. walk_loop ops c address va access level table rights (Space ram) = (r, Space m2) \<and>
        tables_loop (descriptor_at ram) c address va access level table rights = (r, [a])"
      unfolding w tl using False by (auto split: sum.split)
    then show ?thesis using d(2) s2 tp by (auto simp: walked_def)
  qed
qed

lemma walk_space:
  assumes "as_inv ram"
  shows "walked ram c (table_walk (descriptor_at ram) c address access) (walk ops c (Space ram) address access)"
  by (simp add: walk_def table_walk_def Let_def walk_loop_space [OF assms] walked_stay [OF assms])

text \<open>The result depends on the descriptors it reads, and on no others.\<close>

lemma tables_loop_cong:
  "\<forall>a \<in> set (snd (tables_loop f c address va access level table rights)). g a = f a \<Longrightarrow>
   tables_loop g c address va access level table rights = tables_loop f c address va access level table rights"
proof (induction "4 - level" arbitrary: level table rights)
  case 0
  then show ?case by (simp add: tables_loop_end)
next
  case (Suc k)
  have le: "level \<le> 3" and k: "k = 4 - (level + 1)" using Suc.hyps(2) by simp_all
  define a where "a = descriptor_address level table va"
  note t = tables_loop_step [OF le a_def refl]
  have "a \<in> set (snd (tables_loop f c address va access level table rights))" unfolding t by (auto split: sum.split)
  then have ga: "g a = f a" using Suc.prems by blast
  have "tables_loop g c address va access (level + 1) (x AND 0x0000fffffffff000) (narrowed rights x) =
      tables_loop f c address va access (level + 1) (x AND 0x0000fffffffff000) (narrowed rights x)"
    if "f a = Inr x" "x AND 3 = 3 \<and> level < 3" for x
    using that Suc.prems unfolding t by (intro Suc.hyps(1) [OF k]) auto
  then show ?case unfolding t by (auto simp: ga split: sum.split)
qed

lemma table_walk_cong:
  "\<forall>a \<in> set (snd (table_walk f c address access)). g a = f a \<Longrightarrow> table_walk g c address access = table_walk f c address access"
  unfolding table_walk_def Let_def by (intro if_cong refl tables_loop_cong) (simp split: if_splits)

text \<open>Only the translation registers and the exception level matter.\<close>

definition same_regime :: "CPU \<Rightarrow> CPU \<Rightarrow> bool" where
  "same_regime c c' \<longleftrightarrow> c_currentEL c' = c_currentEL c \<and> (\<forall>j \<le> 4. c_system c' ! j = c_system c ! j)"

lemma same_regimeD:
  assumes "same_regime c c'"
  shows "c_currentEL c' = c_currentEL c" and "c_system c' ! 0 = c_system c ! 0" and "c_system c' ! 1 = c_system c ! 1"
    and "c_system c' ! 2 = c_system c ! 2" and "c_system c' ! 3 = c_system c ! 3" and "c_system c' ! 4 = c_system c ! 4"
  using assms by (simp_all add: same_regime_def)

lemma tables_loop_regime:
  assumes "same_regime c c'"
  shows "tables_loop f c' address va access level table rights = tables_loop f c address va access level table rights"
proof (induction "4 - level" arbitrary: level table rights)
  case 0
  then show ?case by (simp add: tables_loop_end)
next
  case (Suc k)
  have "k = 4 - (level + 1)" using Suc.hyps(2) by simp
  note IH = Suc.hyps(1) [OF this]
  have "leaf c' = leaf c" by (intro ext) (simp only: leaf_def same_regimeD [OF assms])
  then show ?case by (subst (1 2) tables_loop.simps) (simp only: IH)
qed

lemma table_walk_regime: "same_regime c c' \<Longrightarrow> table_walk f c' = table_walk f c"
proof (intro ext)
  fix a x
  assume r: "same_regime c c'"
  have "regime_of c' = regime_of c" by (intro ext) (simp only: regime_of_def same_regimeD [OF r])
  then show "table_walk f c' a x = table_walk f c a x" by (simp only: table_walk_def tables_loop_regime [OF r] same_regimeD [OF r])
qed

subsection \<open>All addresses of a page\<close>

abbreviation in_page :: "u64 \<Rightarrow> u64 \<Rightarrow> u64" where
  "in_page physical a \<equiv> (physical AND NOT 4095) OR (a AND 4095)"

lemma mask_12: "(4095 :: u64) = mask 12"
  by (simp add: mask_eq_exp_minus_1)

lemma same_page_bit: "page_of a = page_of b \<Longrightarrow> 12 \<le> n \<Longrightarrow> bit a n = bit b n"
proof -
  assume p: "page_of a = page_of b" and n: "12 \<le> n"
  have "bit (page_of x) (n - 12) = bit x n" for x using n by (simp add: bit_drop_bit_eq)
  from this [of a] this [of b] p show ?thesis by simp
qed

lemma same_page_drop: "page_of a = page_of b \<Longrightarrow> 12 \<le> n \<Longrightarrow> drop_bit n a = drop_bit n b"
proof -
  assume p: "page_of a = page_of b" and n: "12 \<le> n"
  have "drop_bit (n - 12) (page_of x) = drop_bit n x" for x using n by (simp add: drop_bit_drop_bit)
  from this [of a] this [of b] p show ?thesis by simp
qed

lemma mask64_eq: "n < 64 \<Longrightarrow> mask64 n = mask n"
  by (simp add: mask64_def mask_eq_exp_minus_1 push_bit_eq_mult)

lemma in_page_merge:
  fixes d :: u64
  assumes p: "page_of va' = page_of va" and s: "12 \<le> s"
  shows "(d AND NOT (mask s)) OR (va' AND mask s) = in_page ((d AND NOT (mask s)) OR (va AND mask s)) va'"
proof (rule bit_word_eqI)
  fix n assume "n < LENGTH(64)"
  show "bit ((d AND NOT (mask s)) OR (va' AND mask s)) n = bit (in_page ((d AND NOT (mask s)) OR (va AND mask s)) va') n"
    using same_page_bit [OF p, of n] s \<open>n < LENGTH(64)\<close> by (auto simp: mask_12 bit_or_iff bit_and_iff bit_not_iff bit_mask_iff)
qed

lemma leaf_page:
  assumes p: "page_of va' = page_of va" and l: "level \<le> 3" and r: "leaf c address va access level rights d = Inr (pa, at)"
  shows "leaf c address' va' access level rights d = Inr (in_page pa va', at)"
proof -
  define s where "s = 12 + 9 * (3 - level)"
  have s: "12 \<le> s" "mask64 s = mask s" using l by (simp_all add: s_def mask64_eq)
  note m = in_page_merge [OF p s(1), of "d AND 0x0000fffffffff000"]
  show ?thesis using r unfolding leaf_def s_def [symmetric] Let_def s(2) m by (simp split: if_splits)
qed

lemma tables_loop_page:
  assumes p: "page_of va' = page_of va" and "tables_loop f c address va access level table rights = (Inr (pa, at), as)"
  shows "tables_loop f c address' va' access level table rights = (Inr (in_page pa va', at), as)"
  using assms(2)
proof (induction "4 - level" arbitrary: level table rights as)
  case 0
  then show ?case by (simp add: tables_loop.simps [of _ _ _ _ _ level])
next
  case (Suc k)
  have le: "level \<le> 3" and k: "k = 4 - (level + 1)" using Suc.hyps(2) by simp_all
  have ix: "drop_bit (12 + 9 * (3 - level)) va' = drop_bit (12 + 9 * (3 - level)) va" by (rule same_page_drop [OF p]) simp
  note t = tables_loop_step [OF le refl refl]
  show ?case
  proof (cases "f (descriptor_address level table va)")
    case (Inr x)
    show ?thesis
    proof (cases "x AND 3 = 3 \<and> level < 3")
      case True
      then obtain bs where "tables_loop f c address va access (level + 1) (x AND 0x0000fffffffff000) (narrowed rights x) = (Inr (pa, at), bs)"
          and as: "as = descriptor_address level table va # bs"
        using Suc.prems Inr unfolding t by (auto simp: prod_eq_iff split: if_splits)
      from Suc.hyps(1) [OF k this(1)] show ?thesis unfolding t ix using Suc.prems Inr True unfolding t by (auto simp: as split: if_splits)
    next
      case False
      then have "leaf c address va access level rights x = Inr (pa, at)" "as = [descriptor_address level table va]" "\<not> bad_descriptor level x"
        using Suc.prems Inr unfolding t by (auto split: if_splits)
      then show ?thesis unfolding t ix using Inr False leaf_page [OF p le] by auto
    qed
  qed (use Suc.prems t in simp)
qed

lemma regime_page:
  assumes p: "page_of b = page_of a"
  shows "rg_tsize (regime_of c b) = rg_tsize (regime_of c a)" and "rg_ttbr (regime_of c b) = rg_ttbr (regime_of c a)"
    and "rg_disabled (regime_of c b) = rg_disabled (regime_of c a)" and "rg_granule4k (regime_of c b) = rg_granule4k (regime_of c a)"
    and "page_of (rg_va (regime_of c b)) = page_of (rg_va (regime_of c a))" and "rg_va (regime_of c b) AND 4095 = b AND 4095"
proof -
  have h: "bit b 55 = bit a 55" by (rule same_page_bit [OF p]) simp
  show "rg_tsize (regime_of c b) = rg_tsize (regime_of c a)" "rg_ttbr (regime_of c b) = rg_ttbr (regime_of c a)"
    "rg_disabled (regime_of c b) = rg_disabled (regime_of c a)" "rg_granule4k (regime_of c b) = rg_granule4k (regime_of c a)"
    by (simp_all add: regime_of_def Let_def h)
  show "page_of (rg_va (regime_of c b)) = page_of (rg_va (regime_of c a))" using p by (simp add: regime_of_def Let_def h drop_bit_or drop_bit_and)
  have "(b OR 0xff00000000000000) AND 4095 = b AND 4095" "(b AND 0x00ffffffffffffff) AND 4095 = b AND 4095"
    by (simp_all add: bit.conj_disj_distrib2 and.assoc)
  then show "rg_va (regime_of c b) AND 4095 = b AND 4095" by (simp add: regime_of_def Let_def)
qed

lemma table_walk_page:
  assumes p: "page_of b = page_of a" and on: "bit (c_system c ! 0) 0" and w: "table_walk f c a access = (Inr (pa, at), as)"
  shows "table_walk f c b access = (Inr (in_page pa b, at), as)"
proof -
  note g = regime_page [OF p]
  have h: "bit b 55 = bit a 55" by (rule same_page_bit [OF p]) simp
  have d: "drop_bit (64 - rg_tsize (regime_of c a)) (rg_va (regime_of c b)) = drop_bit (64 - rg_tsize (regime_of c a)) (rg_va (regime_of c a))"
    if "rg_tsize (regime_of c a) \<le> 39" by (rule same_page_drop [OF g(5)]) (use that in simp)
  show ?thesis
    using w on tables_loop_page [OF g(5), where address' = b and pa = pa and at = at and as = as and c = c and f = f]
    unfolding table_walk_def Let_def by (auto simp: g h d split: if_splits)
qed

subsection \<open>What the tracked pages protect\<close>

text \<open>Descriptors are aligned, so that the page of the first byte is that of all of them.\<close>

lemma take_bit_3_eq: "take_bit 3 (a :: u64) = 0 \<longleftrightarrow> 8 dvd unat a"
proof -
  have "unat (take_bit 3 a) = unat a mod 8" unfolding unsigned_take_bit_eq by (simp add: take_bit_eq_mod)
  then show ?thesis by (metis dvd_eq_mod_eq_0 unat_eq_zero)
qed

lemma descriptor_aligned:
  assumes "take_bit 12 table = 0"
  shows "8 dvd unat (descriptor_address level table va)"
proof -
  have "take_bit 3 table = take_bit 3 (take_bit 12 table)" by simp
  then have t: "8 dvd unat table" using assms by (simp add: take_bit_3_eq [symmetric])
  have m: "8 dvd (k :: nat) \<Longrightarrow> 8 dvd k mod 2 ^ LENGTH(64)" for k by (rule dvd_mod) simp_all
  have "8 dvd unat (x * 8 :: u64)" for x :: u64 unfolding unat_word_ariths by (rule m) simp
  then show ?thesis unfolding unat_word_ariths(1) by (intro m dvd_add t)
qed

lemma table_base: "take_bit 12 (x AND 0x0000fffffffff000 :: u64) = 0"
  by (simp add: take_bit_eq_mask mask_12 [symmetric] and.assoc)

lemma tables_loop_aligned:
  "take_bit 12 table = 0 \<Longrightarrow> a \<in> set (snd (tables_loop f c address va access level table rights)) \<Longrightarrow> 8 dvd unat a"
proof (induction "4 - level" arbitrary: level table rights)
  case 0
  then show ?case by (simp add: tables_loop_end)
next
  case (Suc k)
  have le: "level \<le> 3" and k: "k = 4 - (level + 1)" using Suc.hyps(2) by simp_all
  note t = tables_loop_step [OF le refl refl]
  show ?case using Suc.prems(2) Suc.hyps(1) [OF k table_base] descriptor_aligned [OF Suc.prems(1), of level va]
    unfolding t by (auto split: sum.splits if_splits)
qed

lemma table_walk_aligned: "a \<in> set (snd (table_walk f c address access)) \<Longrightarrow> 8 dvd unat a"
  unfolding table_walk_def Let_def by (auto split: if_splits dest: tables_loop_aligned [OF table_base])

lemma aligned_page:
  assumes "8 dvd unat a" and "i < 8"
  shows "page_of (a + of_nat i) = page_of a"
proof -
  obtain k where k: "unat a = 8 * k" using assms(1) by blast
  have "8 * k < 2 ^ 64" using k unat_lt_64 [of a] by simp
  then have u: "unat (a + of_nat i) = 8 * k + i" using unat_add_nat [of a i] assms(2) k by simp
  have "(8 * k + i) div 4096 = (8 * k + i) div 8 div 512" by (simp add: div_mult2_eq [symmetric])
  also have "\<dots> = 8 * k div 4096" using assms(2) by (simp add: div_mult2_eq [symmetric] div_mult2_eq [of _ 8 512])
  finally show ?thesis using u k by (simp add: word_unat_eq_iff unat_page)
qed

text \<open>From one moment of an address space to a later one, with no change of version.\<close>

definition settled :: "address_space \<Rightarrow> address_space \<Rightarrow> bool" where
  "settled m m' \<longleftrightarrow> set (as_trackedPages m) \<subseteq> set (as_trackedPages m') \<and>
     (\<forall>a. 8 dvd unat a \<longrightarrow> page_of a \<in> set (as_trackedPages m) \<longrightarrow> descriptor_at m' a = descriptor_at m a)"

lemma settled_trans: "settled m m' \<Longrightarrow> settled m' m'' \<Longrightarrow> settled m m''"
  unfolding settled_def by (metis subset_iff)

lemma settled_same: "same_memory m m' \<Longrightarrow> set (as_trackedPages m) \<subseteq> set (as_trackedPages m') \<Longrightarrow> settled m m'"
  by (simp add: settled_def descriptor_at_same)

text \<open>The operations on one address space: all but \<open>Clone\<close>, which makes another.\<close>

inductive live_step :: "address_space \<Rightarrow> address_space \<Rightarrow> bool" where
  live_map: "length data < 2 ^ 63 \<Longrightarrow> live_step m (snd (Map m a data access))"
| live_unmap: "live_step m (snd (Unmap m a))"
| live_protect: "n < 2 ^ 63 \<Longrightarrow> live_step m (snd (Protect m a (int n) access))"
| live_read: "n < 2 ^ 63 \<Longrightarrow> live_step m (snd (ReadMemory m a n access))"
| live_write: "length source < 2 ^ 63 \<Longrightarrow> live_step m (snd (WriteMemory m a source))"
| live_track: "live_step m (TrackPageWrites m a)"

definition later :: "nat \<Rightarrow> address_space \<Rightarrow> address_space \<Rightarrow> bool" where
  "later n m m' \<longleftrightarrow> as_inv m' \<and> as_ref m' = as_ref m \<and>
     (\<exists>d \<le> n. as_trackedVersion m' = as_trackedVersion m + of_nat d \<and> (d = 0 \<longrightarrow> settled m m'))"

lemma later_bump: "as_inv m' \<Longrightarrow> as_ref m' = as_ref m \<Longrightarrow> as_trackedVersion m' = as_trackedVersion m + 1 \<Longrightarrow> later 1 m m'"
  unfolding later_def by (intro conjI exI [of _ 1]) auto

lemma later_same:
  "as_inv m' \<Longrightarrow> same_memory m m' \<Longrightarrow> set (as_trackedPages m) \<subseteq> set (as_trackedPages m') \<Longrightarrow> later n m m'"
  unfolding later_def using settled_same [of m m'] by (intro conjI exI [of _ 0]) (auto simp: same_memory_def)

lemma later_trans: "later n m m' \<Longrightarrow> later k m' m'' \<Longrightarrow> later (n + k) m m''"
proof -
  assume "later n m m'" "later k m' m''"
  then obtain d e where "d \<le> n" "e \<le> k" "as_inv m''" "as_ref m'' = as_ref m" "as_trackedVersion m'' = as_trackedVersion m + of_nat (d + e)"
    "d = 0 \<longrightarrow> settled m m'" "e = 0 \<longrightarrow> settled m' m''" unfolding later_def by (auto simp: ac_simps)
  then show ?thesis unfolding later_def using settled_trans by (intro conjI exI [of _ "d + e"]) auto
qed

lemma untouched_bytes:
  assumes "\<forall>b. byte_at m' b = written m a source b" and "\<not> touches a (length source) (page_of b)" and "unat a + length source \<le> 2 ^ 64"
  shows "byte_at m' b = byte_at m b"
proof -
  have "\<not> (unat a \<le> unat b \<and> unat b < unat a + length source)"
  proof
    assume r: "unat a \<le> unat b \<and> unat b < unat a + length source"
    then have "page_of (a + of_nat (unat b - unat a)) = page_of b" using unat_add_nat [of a "unat b - unat a"] assms(3) by (simp add: word_unat_eq_iff)
    moreover have "unat b - unat a < length source" using r by linarith
    ultimately show False using assms(2) unfolding touches_def by blast
  qed
  then show ?thesis using assms(1) by (auto simp: written_def)
qed

lemma write_later:
  assumes inv: "as_inv m" and len: "length source < 2 ^ 63"
  shows "later 1 m (snd (WriteMemory m a source))"
proof (cases "mem_check m a (length source) Write_access")
  case (Some e)
  then show ?thesis using WriteMemory_eq [OF inv len, of a] inv by (simp add: later_same)
next
  case None
  then obtain m' where w: "WriteMemory m a source = (None, m')" and m': "as_inv m'" "as_protections m' = as_protections m"
      "same_layout (as_regions m) (as_regions m')" "\<forall>b. byte_at m' b = written m a source b" "as_ref m' = as_ref m"
      "as_trackedPages m' = as_trackedPages m"
      "as_trackedVersion m' = as_trackedVersion m + (if \<exists>p \<in> set (as_trackedPages m). touches a (length source) p then 1 else 0)"
    using WriteMemory_eq [OF inv len, of a] by auto
  have fit: "source = [] \<or> unat a + length source \<le> 2 ^ 64" using None by (auto simp: mem_check_def split: if_splits)
  show ?thesis
  proof (cases "\<exists>p \<in> set (as_trackedPages m). touches a (length source) p")
    case True
    then show ?thesis unfolding w snd_conv using m' by (intro later_bump) simp_all
  next
    case False
    have "descriptor_at m' b = descriptor_at m b" if b: "8 dvd unat b" "page_of b \<in> set (as_trackedPages m)" for b
    proof -
      have "byte_at m' (b + of_nat i) = byte_at m (b + of_nat i)" if "i < 8" for i
      proof (cases "source = []")
        case True
        then show ?thesis using m'(4) by (auto simp: written_def)
      next
        case ne: False
        show ?thesis using False b(2) aligned_page [OF b(1) that] fit ne by (intro untouched_bytes [OF m'(4)]) auto
      qed
      then have "mem_bytes m' b 8 = mem_bytes m b 8" by (simp add: mem_bytes_def)
      then show ?thesis using layout_perm_at(2) [OF m'(3,2)] by (simp add: descriptor_at_def mem_read_def mem_check_def)
    qed
    then have "settled m m'" using m'(6) by (simp add: settled_def)
    then show ?thesis unfolding later_def w snd_conv using m'(1,5,7) False by (intro conjI exI [of _ 0]) auto
  qed
qed

lemma live_step_later: "live_step m m' \<Longrightarrow> as_inv m \<Longrightarrow> later 1 m m'"
proof (induction rule: live_step.induct)
  case (live_map data m a access)
  obtain e m' where r: "Map m a data access = (e, m')" by fastforce
  show ?case
  proof (cases e)
    case None
    then show ?thesis using Map_inv(1,2,5) [OF live_map(2,1), of a access m'] r by (simp add: later_bump [simplified])
  next
    case (Some x)
    then show ?thesis using r Map_error live_map(2) by (metis later_same same_memory_refl snd_conv subset_refl)
  qed
next
  case (live_unmap m a)
  obtain e m' where r: "Unmap m a = (e, m')" by fastforce
  show ?case
  proof (cases e)
    case None
    then show ?thesis using Unmap_sound(1,2,4) [OF live_unmap, of a m'] r by (simp add: later_bump [simplified])
  next
    case (Some x)
    then show ?thesis using r Unmap_error live_unmap by (metis later_same same_memory_refl snd_conv subset_refl)
  qed
next
  case (live_protect n m a access)
  then show ?case using Protect_sound [of m n access a] by (auto simp: later_bump [simplified] later_same split: if_splits)
next
  case (live_read n m a access)
  then have "as_inv (snd (ReadMemory m a n access))" "cache_only m (snd (ReadMemory m a n access))" using ReadMemory_eq by blast+
  then show ?case by (intro later_same) (auto simp: same_memory_def dest: cache_only_fields)
next
  case (live_write source m a)
  then show ?case by (rule write_later [rotated])
next
  case (live_track m a)
  then show ?case by (intro later_same TrackPageWrites_inv) (auto simp: TrackPageWrites_def same_memory_def Let_def)
qed

subsection \<open>The entries of the cache\<close>

definition entry_ok :: "CPU \<Rightarrow> address_space \<Rightarrow> translationEntry \<Rightarrow> bool" where
  "entry_ok c ram e \<longleftrightarrow> (te_valid e \<longrightarrow> (\<forall>a. page_of a = te_virtual e \<longrightarrow>
     (\<exists>as. table_walk (descriptor_at ram) c a (te_access e) = (Inr (te_physical e OR (a AND 4095), te_attributes e), as) \<and>
        page_of ` set as \<subseteq> set (as_trackedPages ram))))"

definition tlb_inv :: "nat \<Rightarrow> CPU \<Rightarrow> address_space \<Rightarrow> bool" where
  "tlb_inv n c ram \<longleftrightarrow> as_inv ram \<and> length (tc_entries (c_translations c)) = 256 \<and>
     (tc_memory (c_translations c) = Some (as_ref ram) \<longrightarrow>
       (\<exists>d \<le> n. as_trackedVersion ram = tc_version (c_translations c) + of_nat d \<and>
          (d = 0 \<longrightarrow> (\<forall>e \<in> set (tc_entries (c_translations c)). entry_ok c ram e))))"

lemma entry_settled:
  assumes "entry_ok c m e" and s: "settled m m'"
  shows "entry_ok c m' e"
  unfolding entry_ok_def
proof (intro impI allI)
  fix a assume "te_valid e" "page_of a = te_virtual e"
  then obtain as where w: "table_walk (descriptor_at m) c a (te_access e) = (Inr (te_physical e OR (a AND 4095), te_attributes e), as)"
      and as: "page_of ` set as \<subseteq> set (as_trackedPages m)"
    using assms(1) unfolding entry_ok_def by blast
  have "8 dvd unat x" if "x \<in> set as" for x using table_walk_aligned [of x "descriptor_at m" c a "te_access e"] that w by simp
  then have "\<forall>x \<in> set as. descriptor_at m' x = descriptor_at m x" using s as unfolding settled_def by blast
  then have "table_walk (descriptor_at m') c a (te_access e) = table_walk (descriptor_at m) c a (te_access e)"
    by (intro table_walk_cong) (simp only: w snd_conv)
  then show "\<exists>as. table_walk (descriptor_at m') c a (te_access e) = (Inr (te_physical e OR (a AND 4095), te_attributes e), as) \<and>
      page_of ` set as \<subseteq> set (as_trackedPages m')"
    using w as s unfolding settled_def by auto
qed

lemma tlb_inv_memory: "tlb_inv n c m \<Longrightarrow> later k m m' \<Longrightarrow> tlb_inv (n + k) c m'"
proof -
  assume t: "tlb_inv n c m" and "later k m m'"
  then obtain e where e: "as_inv m'" "as_ref m' = as_ref m" "e \<le> k" "as_trackedVersion m' = as_trackedVersion m + of_nat e" "e = 0 \<longrightarrow> settled m m'"
    unfolding later_def by blast
  have "\<exists>d' \<le> n + k. as_trackedVersion m' = tc_version (c_translations c) + of_nat d' \<and>
      (d' = 0 \<longrightarrow> (\<forall>x \<in> set (tc_entries (c_translations c)). entry_ok c m' x))"
    if same: "tc_memory (c_translations c) = Some (as_ref m)"
  proof -
    obtain d where d: "d \<le> n" "as_trackedVersion m = tc_version (c_translations c) + of_nat d"
        "d = 0 \<longrightarrow> (\<forall>x \<in> set (tc_entries (c_translations c)). entry_ok c m x)"
      using t same unfolding tlb_inv_def by blast
    have "d + e = 0 \<longrightarrow> (\<forall>x \<in> set (tc_entries (c_translations c)). entry_ok c m' x)"
    proof (intro impI ballI)
      fix x assume z: "d + e = 0" and x: "x \<in> set (tc_entries (c_translations c))"
      show "entry_ok c m' x" by (rule entry_settled [of c m]) (use z x d(3) e(5) in auto)
    qed
    moreover have "as_trackedVersion m' = tc_version (c_translations c) + of_nat (d + e)" unfolding e(4) d(2) of_nat_add by (rule add.assoc)
    moreover have "d + e \<le> n + k" using d(1) e(3) by (rule add_mono)
    ultimately show ?thesis by blast
  qed
  then show ?thesis using t e(1,2) unfolding tlb_inv_def by simp
qed

text \<open>Changes of the processor that keep the cache as good as it is.\<close>

definition keeps_tlb :: "CPU \<Rightarrow> CPU \<Rightarrow> bool" where
  "keeps_tlb c c' \<longleftrightarrow> c_translations c' = empty_translations \<or> c_translations c' = c_translations c \<and> same_regime c c'"

lemma keeps_tlbI: "c_translations c' = c_translations c \<Longrightarrow> c_system c' = c_system c \<Longrightarrow> c_currentEL c' = c_currentEL c \<Longrightarrow> keeps_tlb c c'"
  by (simp add: keeps_tlb_def same_regime_def)

lemma keeps_tlb_system: "keeps_tlb c (if j \<le> 4 then ClearTranslationCache (c\<lparr>c_system := (c_system c)[j := v]\<rparr>) else c\<lparr>c_system := (c_system c)[j := v]\<rparr>)"
  by (auto simp: keeps_tlb_def same_regime_def ClearTranslationCache_def)

lemma tlb_inv_empty: "c_translations c = empty_translations \<Longrightarrow> as_inv ram \<Longrightarrow> tlb_inv n c ram"
  by (simp add: tlb_inv_def empty_translations_def)

lemma tlb_inv_keeps: "tlb_inv n c ram \<Longrightarrow> keeps_tlb c c' \<Longrightarrow> tlb_inv n c' ram"
proof -
  assume t: "tlb_inv n c ram" and k: "keeps_tlb c c'"
  show ?thesis
  proof (cases "c_translations c' = empty_translations")
    case True
    then show ?thesis using t by (intro tlb_inv_empty) (simp_all add: tlb_inv_def)
  next
    case False
    then have c': "c_translations c' = c_translations c" "same_regime c c'" using k by (simp_all add: keeps_tlb_def)
    have "entry_ok c' ram = entry_ok c ram" by (intro ext) (simp add: entry_ok_def table_walk_regime [OF c'(2)])
    then show ?thesis using t c'(1) by (simp add: tlb_inv_def)
  qed
qed

lemma keeps_updates:
  "keeps_tlb c c" "keeps_tlb c (c\<lparr>c_nzcv := v\<rparr>)" "keeps_tlb c (c\<lparr>c_sp := v\<rparr>)" "keeps_tlb c (c\<lparr>c_pc := v\<rparr>)" "keeps_tlb c (c\<lparr>c_daif := v\<rparr>)"
  "keeps_tlb c (c\<lparr>c_cycles := v\<rparr>)" "keeps_tlb c (c\<lparr>c_pmcr := v\<rparr>)" "keeps_tlb c (c\<lparr>c_pmovs := v\<rparr>)" "keeps_tlb c (c\<lparr>c_pminten := v\<rparr>)"
  "keeps_tlb c (c\<lparr>c_pmfilter := v\<rparr>)" "keeps_tlb c (c\<lparr>c_pmuser := v\<rparr>)" "keeps_tlb c (c\<lparr>c_frequency := v\<rparr>)" "keeps_tlb c (c\<lparr>c_pmcnten := v\<rparr>)"
  "keeps_tlb c (c\<lparr>c_ticks := v\<rparr>)" "keeps_tlb c (c\<lparr>c_x := xs\<rparr>)" "keeps_tlb c (c\<lparr>c_cycles := v, c_pmcr := w\<rparr>)"
  "keeps_tlb c (ClearTranslationCache c')"
  by (simp_all add: keeps_tlb_def same_regime_def ClearTranslationCache_def)

lemma keeps_if: "(b \<Longrightarrow> keeps_tlb c (snd p)) \<Longrightarrow> (\<not> b \<Longrightarrow> keeps_tlb c (snd q)) \<Longrightarrow> keeps_tlb c (snd (if b then p else q))"
  by simp

lemma SetRegister_keeps: "keeps_tlb c (snd (SetRegister c name v))"
proof -
  define n where "n = ToLower name"
  show ?thesis
  proof (cases "systemIndex n")
    case (Some j)
    then show ?thesis using keeps_tlb_system [of c j v] by (simp only: SetRegister_def Let_def n_def [symmetric] option.case snd_conv)
  next
    case None
    show ?thesis unfolding SetRegister_def Let_def n_def [symmetric] None option.case
    proof (intro keeps_if, simp_all only: snd_conv keeps_updates)
      show "keeps_tlb c ((if v AND 4 \<noteq> 0 then c\<lparr>c_cycles := 0\<rparr> else c)\<lparr>c_pmcr := v AND 0x79\<rparr>)" by (simp add: keeps_updates)
      show "keeps_tlb c (snd (case general_name n of None \<Rightarrow> (Some (Errorf ''arm64: unknown register %q''), c)
          | Some (n, narrow) \<Rightarrow> (None, c\<lparr>c_x := (c_x c)[n := if narrow then v AND 0xffffffff else v]\<rparr>)))"
        by (simp add: keeps_updates split: option.split prod.split)
    qed
  qed
qed

lemma exec_TLBI_keeps: "keeps_tlb c (snd (exec_TLBI c))"
  by (simp add: exec_TLBI_def keeps_tlb_def ClearTranslationCache_def Let_def)

lemma w_reg_keeps: "keeps_tlb c (w_reg c n v width sp)"
  by (rule keeps_tlbI) (simp_all add: w_reg_def Let_def)

lemma move_named_keeps: "keeps_tlb c (snd (move_named c b rd name))"
  by (auto simp: move_named_def SetRegister_keeps w_reg_keeps keeps_tlbI split: sum.splits)

definition opt_keeps :: "CPU \<Rightarrow> cpu_result option \<Rightarrow> bool" where
  "opt_keeps c r \<longleftrightarrow> (case r of None \<Rightarrow> True | Some q \<Rightarrow> keeps_tlb c (snd q))"

lemma opt_keeps_if: "(b \<Longrightarrow> opt_keeps c p) \<Longrightarrow> (\<not> b \<Longrightarrow> opt_keeps c q) \<Longrightarrow> opt_keeps c (if b then p else q)"
  by simp

lemma opt_keeps_Some: "keeps_tlb c (snd q) \<Longrightarrow> opt_keeps c (Some q)"
  by (simp add: opt_keeps_def)

lemma opt_keeps_case: "(\<And>j. keeps_tlb c (snd (f j))) \<Longrightarrow> opt_keeps c (case x of None \<Rightarrow> None | Some j \<Rightarrow> Some (f j))"
  by (cases x) (simp_all add: opt_keeps_def)

lemma systemInstruction_keeps: "systemInstruction c i = Some r \<Longrightarrow> keeps_tlb c (snd r)"
proof -
  have "opt_keeps c (systemInstruction c i)"
    unfolding systemInstruction_def Let_def
    by (intro opt_keeps_if opt_keeps_Some opt_keeps_case keeps_if)
      (simp_all only: snd_conv keeps_updates move_named_keeps SetRegister_keeps w_reg_keeps keeps_tlb_system simp_thms split: if_split)
  then show "systemInstruction c i = Some r \<Longrightarrow> keeps_tlb c (snd r)" by (simp add: opt_keeps_def)
qed

subsection \<open>Translating\<close>

text \<open>After the version check the cache is in step with the address space.\<close>

lemma synced_ok:
  assumes t: "tlb_inv n c ram" and n: "n < 2 ^ 64"
  shows "tc_memory (c_translations (synced c ram)) = Some (as_ref ram) \<and> tc_version (c_translations (synced c ram)) = as_trackedVersion ram
    \<and> (\<forall>e \<in> set (tc_entries (c_translations (synced c ram))). entry_ok (synced c ram) ram e)"
proof (cases "tc_memory (c_translations c) \<noteq> Some (as_ref ram) \<or> tc_version (c_translations c) \<noteq> as_trackedVersion ram")
  case True
  then have "synced c ram = c\<lparr>c_translations := fresh_translations ram\<rparr>" by (simp add: synced_def)
  then show ?thesis by (simp add: fresh_translations_def empty_translations_def entry_ok_def)
next
  case False
  then obtain d where d: "d \<le> n" "as_trackedVersion ram = tc_version (c_translations c) + of_nat d"
      "d = 0 \<longrightarrow> (\<forall>e \<in> set (tc_entries (c_translations c)). entry_ok c ram e)" using t unfolding tlb_inv_def by blast
  have "(of_nat d :: u64) = 0" using d(2) False by simp
  then have "d = 0" using d(1) n unat_of_nat_small [of d] by (metis le_less_trans unat_0)
  then show ?thesis using False d(3) by (simp add: synced_def)
qed

lemma synced_entries: "length (tc_entries (c_translations c)) = 256 \<Longrightarrow> length (tc_entries (c_translations (synced c ram))) = 256"
  by (simp add: synced_def fresh_translations_def empty_translations_def)

lemma in_step_inv:
  assumes "as_inv ram" and "length (tc_entries t) = 256" and "tc_memory t = Some (as_ref ram)" and "tc_version t = as_trackedVersion ram"
    and "c_translations c = t" and "\<forall>e \<in> set (tc_entries t). entry_ok c ram e"
  shows "tlb_inv 0 c ram"
  using assms by (simp add: tlb_inv_def)

lemma filled_entry:
  assumes w: "table_walk (descriptor_at ram) c a access = (Inr (pa, at), as)" and on: "bit (c_system c ! 0) 0"
    and as: "page_of ` set as \<subseteq> set (as_trackedPages ram)"
  shows "entry_ok c ram \<lparr>te_virtual = page_of a, te_physical = pa AND NOT 4095, te_attributes = at, te_access = access, te_valid = True\<rparr>"
  using table_walk_page [OF _ on w] as by (simp add: entry_ok_def)

lemma tlb_slot_bound: "tlb_slot page access < 256"
  using word_and_le1 [of "page XOR ucast access * 61" 255] by (simp add: tlb_slot_def word_le_nat_alt)

lemma fill_ok:
  assumes r: "as_inv ram'" "same_memory ram ram'" "set (as_trackedPages ram') = page_of ` set (snd (table_walk (descriptor_at ram) c a access)) \<union> T"
    and len: "length (tc_entries (c_translations c1)) = 256"
    and mem: "tc_memory (c_translations c1) = Some (as_ref ram')" "tc_version (c_translations c1) = as_trackedVersion ram'"
    and ok: "\<forall>e \<in> set (tc_entries (c_translations c1)). entry_ok c1 ram' e"
    and w: "fst (table_walk (descriptor_at ram) c a access) = Inr (pa, at)" and reg: "same_regime c c1" and on: "bit (c_system c ! 0) 0"
  shows "tlb_inv 0 (tlb_fill c1 (page_of a) access pa at) ram'"
proof -
  let ?c = "tlb_fill c1 (page_of a) access pa at"
  obtain as where as: "table_walk (descriptor_at ram') c a access = (Inr (pa, at), as)"
    using w descriptor_at_same [OF r(2)] by (metis prod.collapse)
  have "entry_ok ?c ram' = entry_ok c1 ram'"
    by (intro ext) (simp add: entry_ok_def tlb_fill_def table_walk_regime [of c1 "c1\<lparr>c_translations := t\<rparr>" for t] same_regime_def)
  moreover have "entry_ok c1 ram' = entry_ok c ram'" by (intro ext) (simp add: entry_ok_def table_walk_regime [OF reg])
  moreover have "page_of ` set as \<subseteq> set (as_trackedPages ram')" using r(3) as descriptor_at_same [OF r(2)] by auto
  ultimately have "\<forall>e \<in> set (tc_entries (c_translations ?c)). entry_ok ?c ram' e"
    using filled_entry [OF as on] ok set_update_subset_insert unfolding tlb_fill_def by fastforce
  then show ?thesis using r(1) len mem by (intro in_step_inv [OF _ _ _ _ refl]) (simp_all add: tlb_fill_def)
qed

lemma cachedTranslate_ok:
  fixes ops :: "'d device_ops"
  assumes t: "tlb_inv n c ram" and n: "n < 2 ^ 64" and on: "bit (c_system c ! 0) 0" "\<not> c_DisableTranslationCache c"
  shows "\<exists>c' ram'. cachedTranslate ops c ram a access = (fst (table_walk (descriptor_at ram) c a access), c', Space ram') \<and> tlb_inv 0 c' ram' \<and> same_memory ram ram'"
proof -
  define c1 where "c1 = synced c ram"
  define k where "k = tlb_slot (page_of a) access"
  let ?e = "tc_entries (c_translations c1) ! k"
  have inv: "as_inv ram" and len: "length (tc_entries (c_translations c1)) = 256" using t synced_entries by (simp_all add: tlb_inv_def c1_def)
  have mem: "tc_memory (c_translations c1) = Some (as_ref ram)" "tc_version (c_translations c1) = as_trackedVersion ram"
      and ok: "\<forall>e \<in> set (tc_entries (c_translations c1)). entry_ok c1 ram e"
    using synced_ok [OF t n] unfolding c1_def by blast+
  have reg: "same_regime c c1" by (simp add: c1_def synced_def same_regime_def)
  note w1 = table_walk_regime [OF reg]
  show ?thesis
  proof (cases "te_valid ?e \<and> te_virtual ?e = page_of a \<and> te_access ?e = access")
    case True
    have "k < 256" unfolding k_def by (rule tlb_slot_bound)
    then have "entry_ok c1 ram ?e" using ok len by simp
    then obtain as where "table_walk (descriptor_at ram) c a access = (Inr (te_physical ?e OR (a AND 4095), te_attributes ?e), as)"
      using True unfolding entry_ok_def w1 by metis
    then have "cachedTranslate ops c ram a access = (fst (table_walk (descriptor_at ram) c a access), c1, Space ram)"
      using True by (simp add: cachedTranslate_eq Let_def c1_def [symmetric] k_def [symmetric])
    then show ?thesis using in_step_inv [OF inv len mem refl ok] same_memory_refl by blast
  next
    case False
    obtain ram' where w: "walk ops c1 (Space ram) a access = (fst (table_walk (descriptor_at ram) c a access), Space ram')"
        and r: "as_inv ram'" "same_memory ram ram'"
          "set (as_trackedPages ram') = page_of ` set (snd (table_walk (descriptor_at ram) c a access)) \<union> set (as_trackedPages ram)"
      using walk_space [OF inv, of c1 a access ops] on(2) unfolding walked_def w1 by (auto simp: c1_def synced_def split: if_splits)
    have ok': "\<forall>e \<in> set (tc_entries (c_translations c1)). entry_ok c1 ram' e"
      using ok entry_settled [OF _ settled_same [OF r(2)]] r(3) by blast
    have mem': "tc_memory (c_translations c1) = Some (as_ref ram')" "tc_version (c_translations c1) = as_trackedVersion ram'"
      using mem r(2) by (simp_all add: same_memory_def)
    show ?thesis
    proof (cases "fst (table_walk (descriptor_at ram) c a access)")
      case (Inl err)
      then have "cachedTranslate ops c ram a access = (fst (table_walk (descriptor_at ram) c a access), c1, Space ram')"
        using False w by (simp add: cachedTranslate_eq Let_def c1_def [symmetric] k_def [symmetric])
      then show ?thesis using in_step_inv [OF r(1) len mem' refl ok'] r(2) by blast
    next
      case (Inr q)
      obtain pa at where q: "q = (pa, at)" by fastforce
      have eq: "cachedTranslate ops c ram a access = (fst (table_walk (descriptor_at ram) c a access), tlb_fill c1 (page_of a) access pa at, Space ram')"
        using False w Inr q by (auto simp: cachedTranslate_eq Let_def c1_def [symmetric] k_def [symmetric])
      show ?thesis unfolding eq using fill_ok [OF r len mem' ok' _ reg on(1)] Inr q r(2) by blast
    qed
  qed
qed

lemma translate_ok:
  fixes ops :: "'d device_ops"
  assumes t: "tlb_inv n c ram" and n: "n < 2 ^ 64"
  shows "\<exists>c' ram'. translate ops c (Space ram) a access = (fst (table_walk (descriptor_at ram) c a access), c', Space ram') \<and>
    tlb_inv (if bit (c_system c ! 0) 0 \<and> \<not> c_DisableTranslationCache c then 0 else n) c' ram' \<and> same_memory ram ram'"
proof (cases "bit (c_system c ! 0) 0 \<and> \<not> c_DisableTranslationCache c")
  case True
  then show ?thesis using cachedTranslate_ok [OF t n, of ops a access] by (simp add: translate_def)
next
  case False
  have inv: "as_inv ram" using t by (simp add: tlb_inv_def)
  obtain ram' where w: "walk ops c (Space ram) a access = (fst (table_walk (descriptor_at ram) c a access), Space ram')"
      and r: "as_inv ram'" "same_memory ram ram'" "set (as_trackedPages ram) \<subseteq> set (as_trackedPages ram')"
    using walk_space [OF inv, of c a access ops] unfolding walked_def by blast
  have "tlb_inv (n + 0) c ram'" by (rule tlb_inv_memory [OF t later_same [OF r]])
  then show ?thesis using False w r(2) by (auto simp: translate_def)
qed

subsection \<open>Runs\<close>

text \<open>
  A processor and its address space, with the number of memory operations since the cache was last brought in step. The
  processor starts with an empty cache. Besides translations and memory operations there are writes of registers by name
  and by instruction, the invalidation instruction, and every change of the processor that touches neither the cache nor
  the registers a translation depends on.
\<close>

inductive tlb_run :: "'d device_ops \<Rightarrow> nat \<Rightarrow> CPU \<Rightarrow> address_space \<Rightarrow> bool" for ops where
  start: "c_translations c = empty_translations \<Longrightarrow> space_reachable ram \<Longrightarrow> tlb_run ops n c ram"
| memory: "tlb_run ops n c ram \<Longrightarrow> live_step ram ram' \<Longrightarrow> tlb_run ops (n + 1) c ram'"
| translation: "tlb_run ops n c ram \<Longrightarrow> n < 2 ^ 64 \<Longrightarrow> translate ops c (Space ram) a access = (r, c', Space ram') \<Longrightarrow>
    tlb_run ops (if bit (c_system c ! 0) 0 \<and> \<not> c_DisableTranslationCache c then 0 else n) c' ram'"
| register: "tlb_run ops n c ram \<Longrightarrow> tlb_run ops n (snd (SetRegister c name v)) ram"
| system: "tlb_run ops n c ram \<Longrightarrow> systemInstruction c i = Some (e, c') \<Longrightarrow> tlb_run ops n c' ram"
| invalidate: "tlb_run ops n c ram \<Longrightarrow> tlb_run ops n (snd (exec_TLBI c)) ram"
| elsewhere: "tlb_run ops n c ram \<Longrightarrow> c_translations c' = c_translations c \<Longrightarrow> c_system c' = c_system c \<Longrightarrow>
    c_currentEL c' = c_currentEL c \<Longrightarrow> tlb_run ops n c' ram"

lemma tlb_run_inv: "tlb_run ops n c ram \<Longrightarrow> tlb_inv n c ram"
proof (induction rule: tlb_run.induct)
  case (start c ram n)
  then show ?case by (intro tlb_inv_empty space_reachable_inv)
next
  case (memory n c ram ram')
  then show ?case using live_step_later [of ram ram'] by (intro tlb_inv_memory) (simp_all add: tlb_inv_def)
next
  case (translation n c ram a access r c' ram')
  then show ?case using translate_ok [OF translation(4,2), of ops a access] by auto
next
  case (system n c ram i e c')
  then show ?case using tlb_inv_keeps systemInstruction_keeps by (metis snd_conv)
qed (auto intro: tlb_inv_keeps SetRegister_keeps exec_TLBI_keeps keeps_tlbI)

subsection \<open>Properties\<close>

text \<open>
  C37. The translation cache is transparent. Whatever was translated, mapped, unmapped, protected or written before, the
  page tables included, and whatever registers were set, a translation gives exactly what a walk of the tables as they
  are now gives, for every address and kind of access, faults included. The one condition is that fewer than \<open>2 ^ 64\<close>
  memory operations came since the cache was last used, after which the version counter may have come round.
\<close>

theorem arm64_translation_cache_transparent:
  assumes "tlb_run ops n c ram" and "n < 2 ^ 64"
  shows "fst (translate ops c (Space ram) a access) = fst (walk ops c (Space ram) a access)"
proof -
  note t = tlb_run_inv [OF assms(1)]
  have "fst (walk ops c (Space ram) a access) = fst (table_walk (descriptor_at ram) c a access)"
    using walk_space [of ram c a access ops] t by (auto simp: walked_def tlb_inv_def)
  then show ?thesis using translate_ok [OF t assms(2), of ops a access] by auto
qed

text \<open>
  One table with a block descriptor that maps the lowest 2 MiB to \<open>0x200000\<close>. The second of two translations of a page is
  served from the cache.
\<close>

definition no_device :: "unit device_ops" where
  "no_device = \<lparr>dev_CheckMemory = (\<lambda>_ _ _ _. (None, ())), dev_ReadMemory = (\<lambda>_ _ _ _. (Inl EOF, ())), dev_WriteMemory = (\<lambda>_ _ _. (None, ()))\<rparr>"

definition demo_tables :: address_space where
  "demo_tables = snd (Map (NewAddressSpace 0 0x10000) 0x1000 [0x01, 0x04, 0x20, 0, 0, 0, 0, 0] 3)"

definition demo_cpu :: CPU where
  "demo_cpu = zero_CPU\<lparr>c_system := [1, 0x1000, 0, 39] @ replicate 20 0, c_currentEL := 4\<rparr>"

lemma demo_tables_reachable: "space_reachable demo_tables"
  unfolding demo_tables_def by (rule next_space [OF new_space map_step]) simp

lemma demo_tables_eq: "demo_tables = (NewAddressSpace 0 0x10000)\<lparr>
    as_regions := [\<lparr>reg_start = 0x1000, reg_data = [0x01, 0x04, 0x20, 0, 0, 0, 0, 0], reg_access = 3\<rparr>], as_used := 8, as_trackedVersion := 1\<rparr>"
  by (simp add: demo_tables_def Map_def NewAddressSpace_def validRange_def Let_def)

lemma all_less_8: "(\<forall>i < 8 :: nat. P i) \<longleftrightarrow> P 0 \<and> P 1 \<and> P 2 \<and> P 3 \<and> P 4 \<and> P 5 \<and> P 6 \<and> P 7"
  by (simp add: numeral_eq_Suc All_less_Suc conj_ac)

lemma upt_8: "[0..<8] = [0, 1, 2, 3, 4, 5, 6, 7 :: nat]"
  by (simp add: upt_rec)

lemma demo_descriptor: "descriptor_at demo_tables 0x1000 = Inr 0x200401"
  unfolding descriptor_at_def mem_read_def mem_check_def all_less_8 mem_bytes_def upt_8
  by (simp add: byte_at_def allows_def perm_at_def region_at_def demo_tables_eq NewAddressSpace_def holds_def effective_def lane_def upt_8)

lemma demo_walk: "fst (table_walk (descriptor_at demo_tables) demo_cpu 0x123 Read_access) = Inr (0x200123, 0xa00)"
  by (simp add: table_walk_def regime_of_def demo_cpu_def Let_def tables_loop_step [OF _ refl refl] demo_descriptor leaf_def mask64_def)

theorem arm64_translation_cache_transparent_witness:
  "\<exists>r c ram. translate no_device demo_cpu (Space demo_tables) 0x456 Read_access = (r, c, Space ram) \<and>
     fst (translate no_device c (Space ram) 0x123 Read_access) = Inr (0x200123, 0xa00)"
proof -
  have s: "tlb_run no_device 0 demo_cpu demo_tables" by (rule start) (simp_all add: demo_cpu_def zero_CPU_def demo_tables_reachable)
  obtain r c ram where t: "translate no_device demo_cpu (Space demo_tables) 0x456 Read_access = (r, c, Space ram)"
      and m: "same_memory demo_tables ram" "as_inv ram"
    using translate_ok [OF tlb_run_inv [OF s], of no_device "0x456" Read_access] by (auto simp: tlb_inv_def)
  have run: "tlb_run no_device 0 c ram" using translation [OF s _ t] by simp
  obtain x where "c = demo_cpu\<lparr>c_translations := x\<rparr>" using translate_tlbD [OF t] by (auto simp: tlb_only_def)
  then have "same_regime demo_cpu c" by (simp add: same_regime_def)
  then have "fst (walk no_device c (Space ram) 0x123 Read_access) = Inr (0x200123, 0xa00)"
    using walk_space [OF m(2), of c "0x123" Read_access no_device] demo_walk
    by (auto simp: walked_def table_walk_regime descriptor_at_same [OF m(1)])
  then show ?thesis using t arm64_translation_cache_transparent [OF run] by auto
qed

end
