(* ===== verification/Memory_Channel.thy ===== *)
theory Memory_Channel
  imports Prelude
begin

text \<open>
  The bounded in-memory byte stream of \<open>src/channel/memory.go\<close> and \<open>WriteAll\<close> of \<open>src/channel/channel.go\<close>. Every method
  runs under the mutex of the pair, so a run of the program is a sequence of whole operations of the two endpoints. A Go
  channel that only ever gets closed is a number: \<open>pr_woken\<close> lists the closed ones and \<open>pr_made\<close> is the next one that
  \<open>make\<close> returns. Closing a closed channel panics, which is the result \<open>None\<close>. The side of an endpoint is a truth value.
\<close>

subsection \<open>The pair\<close>

record memoryState =
  ms_data :: "bool \<Rightarrow> bytes"
  ms_closed :: "bool \<Rightarrow> bool"

record memoryPair =
  pr_maximum :: int
  pr_state :: memoryState
  pr_changed :: "bool \<Rightarrow> nat"
  pr_woken :: "nat list"
  pr_made :: nat

definition memoryReady :: nat where
  "memoryReady = 0"

abbreviation data_of :: "memoryPair \<Rightarrow> bool \<Rightarrow> bytes" where
  "data_of p \<equiv> ms_data (pr_state p)"

abbreviation closed_of :: "memoryPair \<Rightarrow> bool \<Rightarrow> bool" where
  "closed_of p \<equiv> ms_closed (pr_state p)"

definition set_data :: "bool \<Rightarrow> bytes \<Rightarrow> memoryPair \<Rightarrow> memoryPair" where
  "set_data side d p = p\<lparr>pr_state := (pr_state p)\<lparr>ms_data := (data_of p)(side := d)\<rparr>\<rparr>"

definition notifyLocked :: "bool \<Rightarrow> memoryPair \<Rightarrow> memoryPair option" where
  "notifyLocked side p =
     (if pr_changed p side \<in> set (pr_woken p) then None
      else Some (p\<lparr>pr_woken := pr_changed p side # pr_woken p,
                   pr_changed := (pr_changed p)(side := pr_made p), pr_made := pr_made p + 1\<rparr>))"

definition NewMemoryPair :: "int \<Rightarrow> go_error + memoryPair" where
  "NewMemoryPair maximum =
     (if maximum \<le> 0 then Inl (Errorf ''memory channel requires a positive capacity'')
      else Inr \<lparr>pr_maximum = maximum, pr_state = \<lparr>ms_data = (\<lambda>_. []), ms_closed = (\<lambda>_. False)\<rparr>,
                pr_changed = (\<lambda>side. if side then 2 else 1), pr_woken = [memoryReady], pr_made = 3\<rparr>)"

definition ReadReady :: "bool \<Rightarrow> memoryPair \<Rightarrow> nat" where
  "ReadReady side p =
     (if data_of p side \<noteq> [] \<or> closed_of p side \<or> closed_of p (\<not> side) then memoryReady else pr_changed p side)"

definition WriteCapacity :: "bool \<Rightarrow> memoryPair \<Rightarrow> go_error + int \<times> nat" where
  "WriteCapacity side p =
     (let peer = (\<not> side) in
      if closed_of p side \<or> closed_of p peer then Inl ErrClosedPipe
      else Inr (pr_maximum p - int (length (data_of p peer)), pr_changed p peer))"

definition mem_Read :: "bool \<Rightarrow> nat \<Rightarrow> memoryPair \<Rightarrow> (memoryPair \<times> bytes \<times> go_error option) option" where
  "mem_Read side len p =
     (if len = 0 then Some (p, [], None)
      else if closed_of p side then Some (p, [], Some ErrClosedPipe)
      else let d = data_of p side in
      if d = [] then Some (p, [], Some (if closed_of p (\<not> side) then EOF else ErrWouldBlock))
      else let n = min len (length d) in
      case notifyLocked side (set_data side (drop n d) p) of
        None \<Rightarrow> None
      | Some p' \<Rightarrow> Some (p', take n d, None))"

definition mem_Write :: "bool \<Rightarrow> memoryPair \<Rightarrow> bytes \<Rightarrow> (memoryPair \<times> nat \<times> go_error option) option" where
  "mem_Write side p bs =
     (let peer = (\<not> side) in
      if closed_of p side \<or> closed_of p peer then Some (p, 0, Some ErrClosedPipe)
      else if int (length bs) > pr_maximum p - int (length (data_of p peer)) then Some (p, 0, Some ErrWouldBlock)
      else let p' = set_data peer (data_of p peer @ bs) p in
      if bs \<noteq> []
      then (case notifyLocked peer p' of None \<Rightarrow> None | Some p'' \<Rightarrow> Some (p'', length bs, None))
      else Some (p', length bs, None))"

definition notify_both :: "memoryPair \<Rightarrow> memoryPair option" where
  "notify_both p = Option.bind (notifyLocked False p) (notifyLocked True)"

definition mem_Close :: "bool \<Rightarrow> memoryPair \<Rightarrow> memoryPair option" where
  "mem_Close side p =
     (if \<not> closed_of p side
      then notify_both (p\<lparr>pr_state := (pr_state p)\<lparr>ms_closed := (closed_of p)(side := True)\<rparr>\<rparr>)
      else Some p)"

definition CaptureCheckpoint :: "memoryPair \<Rightarrow> memoryState" where
  "CaptureCheckpoint p = pr_state p"

definition restore_checkpoint :: "memoryState \<Rightarrow> memoryPair \<Rightarrow> memoryPair option" where
  "restore_checkpoint saved p = notify_both (p\<lparr>pr_state := saved\<rparr>)"

subsection \<open>Writing all of a buffer\<close>

text \<open>The writer is a parameter; slicing past the end of the buffer panics.\<close>

function WriteAll :: "('s \<Rightarrow> bytes \<Rightarrow> ('s \<times> nat \<times> go_error option) option) \<Rightarrow> 's \<Rightarrow> bytes \<Rightarrow> ('s \<times> go_error option) option" where
  "WriteAll wr s d =
     (if d = [] then Some (s, None)
      else case wr s d of
        None \<Rightarrow> None
      | Some (s', count, Some err) \<Rightarrow> Some (s', Some err)
      | Some (s', count, None) \<Rightarrow>
          if count = 0 then Some (s', Some ErrShortWrite)
          else if count > length d then None
          else WriteAll wr s' (drop count d))"
  by pat_completeness auto
termination
  by (relation "measure (\<lambda>(wr, s, d). length d)") auto

declare WriteAll.simps [simp del]

subsection \<open>The contract of a writer\<close>

locale byte_writer =
  fixes wr :: "'s \<Rightarrow> bytes \<Rightarrow> ('s \<times> nat \<times> go_error option) option"
    and ok :: "'s \<Rightarrow> bool"
    and accepted :: "'s \<Rightarrow> bytes"
  assumes wr_returns: "ok s \<Longrightarrow> \<exists>s' n e. wr s d = Some (s', n, e) \<and> n \<le> length d \<and> ok s' \<and> accepted s' = accepted s @ take n d"
begin

text \<open>Whatever the result, the writer has taken a prefix of the buffer; without an error it has taken all of it.\<close>

lemma WriteAll_prefix:
  "ok s \<Longrightarrow> \<exists>s' r k. WriteAll wr s d = Some (s', r) \<and> ok s' \<and> accepted s' = accepted s @ take k d \<and> (r = None \<longrightarrow> length d \<le> k)"
proof (induction d arbitrary: s rule: length_induct)
  case (1 d)
  note IH = 1(1) and s = 1(2)
  show ?case
  proof (cases "d = []")
    case True
    then show ?thesis using s by (simp add: WriteAll.simps [of wr s])
  next
    case False
    obtain s' n e where w: "wr s d = Some (s', n, e)" "n \<le> length d" "ok s'" "accepted s' = accepted s @ take n d"
      using wr_returns [OF s] by blast
    consider "e = None" "n \<noteq> 0" | "e = None" "n = 0" | err where "e = Some err" by fastforce
    then show ?thesis
    proof cases
      case 1
      then have "length (drop n d) < length d" using False by simp
      from IH [rule_format, OF this w(3)] obtain s'' r k where
        i: "WriteAll wr s' (drop n d) = Some (s'', r)" "ok s''" "accepted s'' = accepted s' @ take k (drop n d)" "r = None \<longrightarrow> length (drop n d) \<le> k"
        by blast
      have "WriteAll wr s d = Some (s'', r)" using False w(1,2) i(1) 1 by (simp add: WriteAll.simps [of wr s])
      then show ?thesis using i(2-4) w(2,4) by (intro exI [of _ s''] exI [of _ r] exI [of _ "n + k"]) (auto simp: take_add)
    next
      case 2
      have "WriteAll wr s d = Some (s', Some ErrShortWrite)" using False w(1) 2 by (simp add: WriteAll.simps [of wr s])
      then show ?thesis using w(3,4) by blast
    next
      case 3
      have "WriteAll wr s d = Some (s', Some err)" using False w(1) 3 by (simp add: WriteAll.simps [of wr s])
      then show ?thesis using w(3,4) by blast
    qed
  qed
qed

end

subsection \<open>The invariant of a pair\<close>

definition pair_inv :: "memoryPair \<Rightarrow> bool" where
  "pair_inv p \<longleftrightarrow> (\<forall>c \<in> set (pr_woken p). c < pr_made p) \<and> memoryReady \<in> set (pr_woken p) \<and>
     pr_changed p False \<noteq> pr_changed p True \<and>
     (\<forall>side. pr_changed p side < pr_made p \<and> pr_changed p side \<notin> set (pr_woken p) \<and>
        int (length (data_of p side)) \<le> pr_maximum p)"

lemma pair_inv_state:
  "pair_inv p \<Longrightarrow> (\<And>side. int (length (ms_data st side)) \<le> pr_maximum p) \<Longrightarrow> pair_inv (p\<lparr>pr_state := st\<rparr>)"
  by (simp add: pair_inv_def)

text \<open>A notification never panics, keeps the invariant and touches nothing but the channel of its side.\<close>

lemma notifyLocked_inv:
  assumes "pair_inv p"
  obtains p' where "notifyLocked side p = Some p'" and "pair_inv p'" and "pr_state p' = pr_state p" and "pr_maximum p' = pr_maximum p"
    and "pr_changed p' (\<not> side) = pr_changed p (\<not> side)" and "set (pr_woken p') = insert (pr_changed p side) (set (pr_woken p))"
proof -
  let ?p = "p\<lparr>pr_woken := pr_changed p side # pr_woken p, pr_changed := (pr_changed p)(side := pr_made p), pr_made := pr_made p + 1\<rparr>"
  have n: "notifyLocked side p = Some ?p" using assms by (simp add: notifyLocked_def pair_inv_def)
  have b: "pr_changed p s < pr_made p" "pr_changed p s \<notin> set (pr_woken p)" "int (length (data_of p s)) \<le> pr_maximum p" for s
    using assms by (simp_all add: pair_inv_def)
  have w: "c \<in> set (pr_woken p) \<Longrightarrow> c < pr_made p" for c using assms by (simp add: pair_inv_def)
  have ne: "pr_changed p s \<noteq> pr_changed p (\<not> s)" for s using assms by (cases s) (auto simp: pair_inv_def)
  have fresh: "pr_made p \<noteq> pr_changed p s" "pr_made p \<notin> set (pr_woken p)" for s using b(1) [of s] w by auto
  have "pr_changed ?p s < pr_made ?p \<and> pr_changed ?p s \<notin> set (pr_woken ?p)" for s
    using b(1) [of s] b(2) [of s] ne [of side] fresh by (cases "s = side") auto
  moreover have "pr_changed ?p False \<noteq> pr_changed ?p True" using fresh(1) fresh(1) [THEN not_sym] by (cases side) auto
  ultimately have "pair_inv ?p" using assms b w by (auto simp: pair_inv_def less_SucI)
  with n show thesis by (rule that) simp_all
qed

lemma notify_both_inv:
  assumes "pair_inv p"
  obtains p' where "notify_both p = Some p'" and "pair_inv p'" and "pr_state p' = pr_state p" and "pr_maximum p' = pr_maximum p"
    and "\<And>side. pr_changed p side \<in> set (pr_woken p')" and "set (pr_woken p) \<subseteq> set (pr_woken p')"
proof -
  obtain q where q: "notifyLocked False p = Some q" "pair_inv q" "pr_state q = pr_state p" "pr_maximum q = pr_maximum p"
      "pr_changed q True = pr_changed p True" "set (pr_woken q) = insert (pr_changed p False) (set (pr_woken p))"
    using notifyLocked_inv [OF assms, of False] by auto
  obtain r where r: "notifyLocked True q = Some r" "pair_inv r" "pr_state r = pr_state q" "pr_maximum r = pr_maximum q"
      "set (pr_woken r) = insert (pr_changed q True) (set (pr_woken q))"
    using notifyLocked_inv [OF q(2), of True] by auto
  have "pr_changed p side \<in> set (pr_woken r)" for side by (cases side) (simp_all add: r(5) q(5,6))
  then show thesis using that [of r] q r by (auto simp: notify_both_def)
qed

lemma set_data_simps [simp]:
  "data_of (set_data side d p) = (data_of p)(side := d)" "closed_of (set_data side d p) = closed_of p"
  "pr_maximum (set_data side d p) = pr_maximum p" "pr_changed (set_data side d p) = pr_changed p"
  "pr_woken (set_data side d p) = pr_woken p" "pr_made (set_data side d p) = pr_made p"
  by (simp_all add: set_data_def)

lemma set_data_inv: "pair_inv p \<Longrightarrow> int (length d) \<le> pr_maximum p \<Longrightarrow> pair_inv (set_data side d p)"
  by (auto simp: pair_inv_def)

subsection \<open>What the operations do\<close>

text \<open>
  The watchers of a pair: an operation keeps the closed channels closed, and where it leaves the channel of a side open
  it leaves that side's bytes and both closed flags as they are.
\<close>

definition watched :: "memoryPair \<Rightarrow> memoryPair \<Rightarrow> bool" where
  "watched p p' \<longleftrightarrow> set (pr_woken p) \<subseteq> set (pr_woken p') \<and> pr_maximum p' = pr_maximum p \<and>
     (\<forall>side. pr_changed p side \<in> set (pr_woken p') \<or>
        pr_changed p' side = pr_changed p side \<and> data_of p' side = data_of p side \<and> closed_of p' = closed_of p)"

lemma watched_refl: "watched p p"
  by (simp add: watched_def)

lemma watched_trans: "watched p q \<Longrightarrow> watched q r \<Longrightarrow> watched p r"
  unfolding watched_def by (metis subset_trans subsetD)

lemma watched_notify:
  assumes "pr_changed q = pr_changed p" and "pr_woken q = pr_woken p" and "pr_maximum q = pr_maximum p"
    and "data_of q (\<not> side) = data_of p (\<not> side)" and "closed_of q = closed_of p"
    and "pr_state p' = pr_state q" and "pr_maximum p' = pr_maximum q" and "pr_changed p' (\<not> side) = pr_changed q (\<not> side)"
    and "set (pr_woken p') = insert (pr_changed q side) (set (pr_woken q))"
  shows "watched p p'"
proof -
  have "pr_changed p s \<in> set (pr_woken p') \<or> pr_changed p' s = pr_changed p s \<and> data_of p' s = data_of p s \<and> closed_of p' = closed_of p" for s
    using assms by (cases "s = side") (auto simp: eq_commute [of s])
  then show ?thesis using assms by (auto simp: watched_def)
qed

lemma mem_Read_ok:
  assumes inv: "pair_inv p"
  obtains p' bs e where "mem_Read side len p = Some (p', bs, e)" and "pair_inv p'" and "watched p p'"
    and "data_of p side = bs @ data_of p' side" and "data_of p' (\<not> side) = data_of p (\<not> side)"
proof (cases "len = 0 \<or> closed_of p side \<or> data_of p side = []")
  case True
  have "mem_Read side len p = Some (p, [], if len = 0 then None else if closed_of p side then Some ErrClosedPipe
      else Some (if closed_of p (\<not> side) then EOF else ErrWouldBlock))"
    using True by (auto simp: mem_Read_def Let_def)
  then show thesis by (rule that) (simp_all add: inv watched_refl)
next
  case False
  let ?n = "min len (length (data_of p side))"
  let ?q = "set_data side (drop ?n (data_of p side)) p"
  have "int (length (data_of p side)) \<le> pr_maximum p" using inv by (simp add: pair_inv_def)
  then have "pair_inv ?q" by (intro set_data_inv inv) simp
  from notifyLocked_inv [OF this, of side] obtain p' where n: "notifyLocked side ?q = Some p'" "pair_inv p'"
    and k: "pr_state p' = pr_state ?q" "pr_maximum p' = pr_maximum ?q" "pr_changed p' (\<not> side) = pr_changed ?q (\<not> side)"
      "set (pr_woken p') = insert (pr_changed ?q side) (set (pr_woken ?q))" by blast
  have w: "watched p p'" by (rule watched_notify [OF _ _ _ _ _ k]) simp_all
  have "mem_Read side len p = Some (p', take ?n (data_of p side), None)" using False n(1) by (simp add: mem_Read_def Let_def)
  from that [OF this n(2) w] show thesis by (simp add: k(1))
qed

lemma mem_Write_ok:
  assumes inv: "pair_inv p"
  obtains p' n e where "mem_Write side p bs = Some (p', n, e)" and "pair_inv p'" and "watched p p'" and "n \<le> length bs"
    and "data_of p' (\<not> side) = data_of p (\<not> side) @ take n bs" and "data_of p' side = data_of p side"
proof (cases "closed_of p side \<or> closed_of p (\<not> side) \<or> int (length bs) > pr_maximum p - int (length (data_of p (\<not> side))) \<or> bs = []")
  case True
  have "set_data (\<not> side) (data_of p (\<not> side)) p = p" by (simp add: set_data_def)
  then have "mem_Write side p bs = Some (p, 0, if closed_of p side \<or> closed_of p (\<not> side) then Some ErrClosedPipe
      else if int (length bs) > pr_maximum p - int (length (data_of p (\<not> side))) then Some ErrWouldBlock else None)"
    using True by (auto simp: mem_Write_def Let_def)
  then show thesis by (rule that) (simp_all add: inv watched_refl)
next
  case False
  let ?q = "set_data (\<not> side) (data_of p (\<not> side) @ bs) p"
  have "pair_inv ?q" by (intro set_data_inv inv) (use False in simp)
  from notifyLocked_inv [OF this, of "\<not> side"] obtain p' where n: "notifyLocked (\<not> side) ?q = Some p'" "pair_inv p'"
    and k: "pr_state p' = pr_state ?q" "pr_maximum p' = pr_maximum ?q" "pr_changed p' (\<not> \<not> side) = pr_changed ?q (\<not> \<not> side)"
      "set (pr_woken p') = insert (pr_changed ?q (\<not> side)) (set (pr_woken ?q))" by blast
  have w: "watched p p'" by (rule watched_notify [OF _ _ _ _ _ k]) simp_all
  have "mem_Write side p bs = Some (p', length bs, None)" using False n(1) by (simp add: mem_Write_def Let_def)
  from that [OF this n(2) w] show thesis by (simp add: k(1))
qed

text \<open>Closing and restoring wake the watchers of both sides.\<close>

lemma notify_both_ok:
  assumes "pair_inv p" and "\<And>side. int (length (ms_data st side)) \<le> pr_maximum p"
  obtains p' where "notify_both (p\<lparr>pr_state := st\<rparr>) = Some p'" and "pair_inv p'" and "watched p p'" and "pr_state p' = st"
proof -
  from notify_both_inv [OF pair_inv_state [OF assms]] obtain p' where
    n: "notify_both (p\<lparr>pr_state := st\<rparr>) = Some p'" "pair_inv p'" "pr_state p' = st" "pr_maximum p' = pr_maximum p"
      "\<And>side. pr_changed p side \<in> set (pr_woken p')" "set (pr_woken p) \<subseteq> set (pr_woken p')" by auto
  then show thesis by (intro that) (simp_all add: watched_def)
qed

lemma mem_Close_ok:
  assumes "pair_inv p"
  obtains p' where "mem_Close side p = Some p'" and "pair_inv p'" and "watched p p'" and "data_of p' = data_of p"
proof (cases "closed_of p side")
  case True
  then show thesis using that [of p] assms by (simp add: mem_Close_def watched_refl)
next
  case False
  have "int (length (ms_data ((pr_state p)\<lparr>ms_closed := (closed_of p)(side := True)\<rparr>) s)) \<le> pr_maximum p" for s
    using assms by (simp add: pair_inv_def)
  from notify_both_ok [OF assms this] obtain p' where
    k: "notify_both (p\<lparr>pr_state := (pr_state p)\<lparr>ms_closed := (closed_of p)(side := True)\<rparr>\<rparr>) = Some p'" "pair_inv p'" "watched p p'"
      "pr_state p' = (pr_state p)\<lparr>ms_closed := (closed_of p)(side := True)\<rparr>" by blast
  have "mem_Close side p = Some p'" using False k(1) by (simp add: mem_Close_def)
  from that [OF this k(2,3)] show thesis by (simp add: k(4))
qed

text \<open>An endpoint is a writer: the bytes it accepts are those its peer has still to read.\<close>

interpretation endpoint: byte_writer "mem_Write side" pair_inv "\<lambda>p. data_of p (\<not> side)" for side
proof
  show "\<exists>p' n e. mem_Write side p d = Some (p', n, e) \<and> n \<le> length d \<and> pair_inv p' \<and>
      data_of p' (\<not> side) = data_of p (\<not> side) @ take n d" if "pair_inv p" for p d
    using that by (rule mem_Write_ok [of p side d]) blast
qed

subsection \<open>Runs\<close>

text \<open>
  A run of the two endpoints, in any order. Beside the pair it keeps the bytes that each side has been sent and has read
  so far; a checkpoint keeps them too, since restoring it takes the stream back to that moment.
\<close>

record chanRun =
  cr_pair :: memoryPair
  cr_sent :: "bool \<Rightarrow> bytes"
  cr_got :: "bool \<Rightarrow> bytes"
  cr_saved :: "(memoryState \<times> (bool \<Rightarrow> bytes) \<times> (bool \<Rightarrow> bytes)) list"

definition chan_start :: "memoryPair \<Rightarrow> chanRun" where
  "chan_start p = \<lparr>cr_pair = p, cr_sent = (\<lambda>_. []), cr_got = (\<lambda>_. []), cr_saved = []\<rparr>"

inductive chan_step :: "chanRun \<Rightarrow> chanRun \<Rightarrow> bool" where
  step_Read: "mem_Read side len (cr_pair r) = Some (p, bs, e) \<Longrightarrow>
    chan_step r (r\<lparr>cr_pair := p, cr_got := (cr_got r)(side := cr_got r side @ bs)\<rparr>)"
| step_Write: "mem_Write side (cr_pair r) bs = Some (p, n, e) \<Longrightarrow>
    chan_step r (r\<lparr>cr_pair := p, cr_sent := (cr_sent r)((\<not> side) := cr_sent r (\<not> side) @ take n bs)\<rparr>)"
| step_Close: "mem_Close side (cr_pair r) = Some p \<Longrightarrow> chan_step r (r\<lparr>cr_pair := p\<rparr>)"
| step_Capture: "chan_step r (r\<lparr>cr_saved := (CaptureCheckpoint (cr_pair r), cr_sent r, cr_got r) # cr_saved r\<rparr>)"
| step_Restore: "(st, sent, got) \<in> set (cr_saved r) \<Longrightarrow> restore_checkpoint st (cr_pair r) = Some p \<Longrightarrow>
    chan_step r (r\<lparr>cr_pair := p, cr_sent := sent, cr_got := got\<rparr>)"

definition stream_ok :: "int \<Rightarrow> memoryState \<Rightarrow> (bool \<Rightarrow> bytes) \<Rightarrow> (bool \<Rightarrow> bytes) \<Rightarrow> bool" where
  "stream_ok maximum st sent got \<longleftrightarrow>
     (\<forall>side. sent side = got side @ ms_data st side \<and> int (length (ms_data st side)) \<le> maximum)"

definition run_inv :: "int \<Rightarrow> chanRun \<Rightarrow> bool" where
  "run_inv maximum r \<longleftrightarrow> pair_inv (cr_pair r) \<and> pr_maximum (cr_pair r) = maximum \<and>
     stream_ok maximum (pr_state (cr_pair r)) (cr_sent r) (cr_got r) \<and>
     (\<forall>(st, sent, got) \<in> set (cr_saved r). stream_ok maximum st sent got)"

lemma stream_okI:
  assumes "pair_inv p" and "pr_maximum p = m" and "\<And>side. sent side = got side @ data_of p side"
  shows "stream_ok m (pr_state p) sent got"
  using assms by (auto simp: stream_ok_def pair_inv_def)

lemma chan_step_inv:
  assumes "chan_step r r'" and inv: "run_inv m r"
  shows "run_inv m r' \<and> watched (cr_pair r) (cr_pair r')"
proof -
  note i = inv [unfolded run_inv_def]
  have pi: "pair_inv (cr_pair r)" using i by blast
  have keep: "run_inv m r'" if "pair_inv (cr_pair r')" "watched (cr_pair r) (cr_pair r')" "cr_saved r' = cr_saved r"
      "\<And>side. cr_sent r' side = cr_got r' side @ data_of (cr_pair r') side"
  proof -
    have m: "pr_maximum (cr_pair r') = m" using i that(2) by (simp add: watched_def)
    show ?thesis using i that(1,3) stream_okI [OF that(1) m that(4)] m by (simp only: run_inv_def) simp
  qed
  have st: "cr_sent r s = cr_got r s @ data_of (cr_pair r) s" for s using i by (simp add: stream_ok_def)
  from assms(1) show ?thesis
  proof cases
    case (step_Read side len p bs e)
    from mem_Read_ok [OF pi, of side len] step_Read(2) have
      k: "pair_inv p" "watched (cr_pair r) p" "data_of (cr_pair r) side = bs @ data_of p side" "data_of p (\<not> side) = data_of (cr_pair r) (\<not> side)"
      by (metis option.inject prod.inject)+
    have "cr_sent r' s = cr_got r' s @ data_of (cr_pair r') s" for s
      using st [of s] k(3,4) by (cases "s = side") (auto simp: step_Read(1) eq_commute [of s])
    then show ?thesis using keep k by (simp add: step_Read(1))
  next
    case (step_Write side bs p n e)
    from mem_Write_ok [OF pi, of side bs] step_Write(2) have
      k: "pair_inv p" "watched (cr_pair r) p" "data_of p (\<not> side) = data_of (cr_pair r) (\<not> side) @ take n bs" "data_of p side = data_of (cr_pair r) side"
      by (metis option.inject prod.inject)+
    have "cr_sent r' s = cr_got r' s @ data_of (cr_pair r') s" for s
      using st [of s] k(3,4) by (cases "s = side") (auto simp: step_Write(1))
    then show ?thesis using keep k by (simp add: step_Write(1))
  next
    case (step_Close side p)
    from mem_Close_ok [OF pi, of side] step_Close(2) have
      k: "pair_inv p" "watched (cr_pair r) p" "data_of p = data_of (cr_pair r)" by (metis option.inject)+
    then show ?thesis using keep st by (simp add: step_Close(1))
  next
    case step_Capture
    then show ?thesis using i by (simp add: run_inv_def CaptureCheckpoint_def watched_refl)
  next
    case (step_Restore saved sent got p)
    have s: "stream_ok m saved sent got" using i step_Restore(2) by blast
    then have "int (length (ms_data saved s)) \<le> pr_maximum (cr_pair r)" for s using i by (simp add: stream_ok_def)
    from notify_both_ok [OF pi this] step_Restore(3) have
      k: "pair_inv p" "watched (cr_pair r) p" "pr_state p = saved" by (metis option.inject restore_checkpoint_def)+
    then show ?thesis using keep s by (simp add: step_Restore(1) stream_ok_def)
  qed
qed

lemma chan_start_inv: "NewMemoryPair m = Inr p \<Longrightarrow> run_inv m (chan_start p)"
  by (auto simp: NewMemoryPair_def chan_start_def run_inv_def pair_inv_def stream_ok_def memoryReady_def split: if_splits)

lemma chan_steps_inv: "chan_step\<^sup>*\<^sup>* r r' \<Longrightarrow> run_inv m r \<Longrightarrow> run_inv m r' \<and> watched (cr_pair r) (cr_pair r')"
  by (induction rule: rtranclp_induct) (auto simp: watched_refl dest: chan_step_inv intro: watched_trans)

subsection \<open>Properties\<close>

text \<open>
  C32. In every run of the two endpoints, in any order and with checkpoints restored at any moment, the bytes a side has
  read followed by those queued for it are exactly the bytes it has been sent, in order; the queue never exceeds the
  capacity. No operation panics by closing a channel twice, and \<open>WriteAll\<close> always returns, having queued a prefix of its
  buffer, all of it when it reports no error.
\<close>

theorem memory_channel_stream:
  assumes "NewMemoryPair m = Inr p" and "chan_step\<^sup>*\<^sup>* (chan_start p) r"
  shows "cr_sent r side = cr_got r side @ data_of (cr_pair r) side \<and> int (length (data_of (cr_pair r) side)) \<le> m
    \<and> mem_Read side len (cr_pair r) \<noteq> None \<and> mem_Write side (cr_pair r) d \<noteq> None \<and> mem_Close side (cr_pair r) \<noteq> None
    \<and> (\<forall>(st, sent, got) \<in> set (cr_saved r). restore_checkpoint st (cr_pair r) \<noteq> None)
    \<and> (\<exists>p' e k. WriteAll (mem_Write side) (cr_pair r) d = Some (p', e)
         \<and> data_of p' (\<not> side) = data_of (cr_pair r) (\<not> side) @ take k d \<and> (e = None \<longrightarrow> length d \<le> k))"
proof -
  have i: "run_inv m r" using chan_steps_inv [OF assms(2) chan_start_inv [OF assms(1)]] by blast
  then have pi: "pair_inv (cr_pair r)" by (simp add: run_inv_def)
  have "restore_checkpoint st (cr_pair r) \<noteq> None" if "(st, sent, got) \<in> set (cr_saved r)" for st sent got
  proof -
    have "int (length (ms_data st s)) \<le> pr_maximum (cr_pair r)" for s using i that by (auto simp: run_inv_def stream_ok_def)
    from notify_both_ok [OF pi this] show ?thesis by (auto simp: restore_checkpoint_def)
  qed
  moreover have "mem_Read side len (cr_pair r) \<noteq> None" by (rule mem_Read_ok [OF pi, of side len]) simp
  moreover have "mem_Write side (cr_pair r) d \<noteq> None" by (rule mem_Write_ok [OF pi, of side d]) simp
  moreover have "mem_Close side (cr_pair r) \<noteq> None" by (rule mem_Close_ok [OF pi, of side]) simp
  ultimately show ?thesis using i endpoint.WriteAll_prefix [OF pi, of side d] unfolding run_inv_def stream_ok_def by blast
qed

definition demo_pair :: memoryPair where
  "demo_pair = \<lparr>pr_maximum = 4, pr_state = \<lparr>ms_data = (\<lambda>_. []), ms_closed = (\<lambda>_. False)\<rparr>,
     pr_changed = (\<lambda>side. if side then 2 else 1), pr_woken = [0], pr_made = 3\<rparr>"

lemma demo_pair_new: "NewMemoryPair 4 = Inr demo_pair"
  by (simp add: NewMemoryPair_def demo_pair_def memoryReady_def)

text \<open>Side 1 sends three bytes, side 0 reads two of them.\<close>

lemma demo_pair_run:
  "\<exists>r. chan_step\<^sup>*\<^sup>* (chan_start demo_pair) r \<and> cr_sent r False = [1, 2, 3] \<and> cr_got r False = [1, 2] \<and> data_of (cr_pair r) False = [3]"
proof -
  let ?r0 = "chan_start demo_pair"
  obtain p1 where w: "mem_Write True demo_pair [1, 2, 3] = Some (p1, 3, None)" and d: "data_of p1 False = [1, 2, 3]" "closed_of p1 False = False"
      "pr_changed p1 False = 3" "pr_woken p1 = [1, 0]"
    by (simp add: mem_Write_def demo_pair_def notifyLocked_def set_data_def)
  let ?r1 = "?r0\<lparr>cr_pair := p1, cr_sent := (cr_sent ?r0)((\<not> True) := cr_sent ?r0 (\<not> True) @ take 3 [1, 2, 3])\<rparr>"
  have s1: "chan_step ?r0 ?r1" by (rule step_Write) (simp add: chan_start_def w)
  obtain p2 where r: "mem_Read False 2 p1 = Some (p2, [1, 2], None)" and d2: "data_of p2 False = [3]"
    by (simp add: mem_Read_def d notifyLocked_def)
  let ?r2 = "?r1\<lparr>cr_pair := p2, cr_got := (cr_got ?r1)(False := cr_got ?r1 False @ [1, 2])\<rparr>"
  have s2: "chan_step ?r1 ?r2" by (rule step_Read [where len = 2]) (simp add: r)
  show ?thesis using s1 s2 d2 by (intro exI [of _ ?r2]) (auto simp: chan_start_def)
qed

theorem memory_channel_stream_witness:
  "\<exists>r. chan_step\<^sup>*\<^sup>* (chan_start demo_pair) r \<and> cr_sent r False = [1, 2, 3] \<and> cr_got r False = [1, 2] \<and>
     int (length (data_of (cr_pair r) False)) \<le> 4"
proof -
  obtain r where r: "chan_step\<^sup>*\<^sup>* (chan_start demo_pair) r" "cr_sent r False = [1, 2, 3]" "cr_got r False = [1, 2]"
    using demo_pair_run by blast
  show ?thesis using r memory_channel_stream [OF demo_pair_new r(1), of False] by blast
qed

text \<open>
  C33. No wake-up is lost. A reader that holds the channel of \<open>ReadReady\<close> from an earlier moment still finds the stream
  blocked, or that channel is closed; a writer that holds the result of \<open>WriteCapacity\<close> still has exactly that capacity on
  the same open stream, or its channel is closed.
\<close>

theorem memory_channel_wakeup:
  assumes "NewMemoryPair m = Inr p" and "chan_step\<^sup>*\<^sup>* (chan_start p) r" and "chan_step\<^sup>*\<^sup>* r r'"
  shows "(ReadReady side (cr_pair r) \<in> set (pr_woken (cr_pair r')) \<or>
      (\<forall>len > 0. mem_Read side len (cr_pair r') = Some (cr_pair r', [], Some ErrWouldBlock)))
    \<and> (\<forall>n c. WriteCapacity side (cr_pair r) = Inr (n, c) \<longrightarrow>
         c \<in> set (pr_woken (cr_pair r')) \<or> WriteCapacity side (cr_pair r') = Inr (n, c))"
proof -
  have i: "run_inv m r" using chan_steps_inv [OF assms(2) chan_start_inv [OF assms(1)]] by blast
  have w: "watched (cr_pair r) (cr_pair r')" using chan_steps_inv [OF assms(3) i] by blast
  have "memoryReady \<in> set (pr_woken (cr_pair r'))" using i w by (auto simp: run_inv_def pair_inv_def watched_def)
  then have "ReadReady side (cr_pair r) \<in> set (pr_woken (cr_pair r')) \<or>
      (\<forall>len > 0. mem_Read side len (cr_pair r') = Some (cr_pair r', [], Some ErrWouldBlock))"
    using w unfolding watched_def ReadReady_def by (auto simp: mem_Read_def)
  moreover have "c \<in> set (pr_woken (cr_pair r')) \<or> WriteCapacity side (cr_pair r') = Inr (n, c)"
    if "WriteCapacity side (cr_pair r) = Inr (n, c)" for n c
    using w that unfolding watched_def WriteCapacity_def by (auto simp: Let_def split: if_splits)
  ultimately show ?thesis by blast
qed

theorem memory_channel_wakeup_witness:
  "\<exists>r. chan_step\<^sup>*\<^sup>* (chan_start demo_pair) r \<and> ReadReady False demo_pair = 1 \<and> 1 \<in> set (pr_woken (cr_pair r))"
proof -
  obtain r where r: "chan_step\<^sup>*\<^sup>* (chan_start demo_pair) r" "data_of (cr_pair r) False = [3]" using demo_pair_run by blast
  have a: "ReadReady False demo_pair = 1" by (simp add: ReadReady_def demo_pair_def)
  have "mem_Read False 1 (cr_pair r) \<noteq> Some (cr_pair r, [], Some ErrWouldBlock)"
    using r(2) by (auto simp: mem_Read_def split: option.splits)
  then show ?thesis
    using r(1) a memory_channel_wakeup [OF demo_pair_new rtranclp.rtrancl_refl r(1), of False] by (auto simp: chan_start_def)
qed

end
