(* ===== verification/Block_Cache.thy ===== *)
theory Block_Cache
  imports Block_Device
begin

text \<open>
  The read cache of \<open>src/block/star/cache.go\<close>: chunks of a read-only base device, kept up to a byte limit in the order of
  their last use. A cache entry is a pointer in the source, because a caller that finds an entry being loaded waits on it
  and reads it after it may have left the cache; here it is a position of \<open>cb_heap\<close>. The method \<open>chunk\<close> gives up its
  mutex while it waits or reads the base, so it is modelled by its critical sections, \<open>chunk_lookup\<close>, \<open>chunk_load\<close>,
  \<open>chunk_publish\<close> and \<open>chunk_hit\<close>: once as the steps of any number of concurrent callers and once in the order of a
  single caller. The base is a function of the range, so that the lock around its operations orders nothing visible.
  Sizes are those of memory and of a validated range and do not reach the limits of \<open>int64\<close>.
\<close>

subsection \<open>State\<close>

record blockCacheEntry =
  ce_index :: int
  ce_data :: bytes
  ce_err :: "go_error option"
  ce_ready :: bool
  ce_element :: bool

record cachedBlockDevice =
  cb_base :: device
  cb_maxBytes :: int
  cb_chunkSize :: int
  cb_geometry :: geometry
  cb_baseCapabilities :: capabilities
  cb_heap :: "blockCacheEntry list"
  cb_entries :: "int \<rightharpoonup> nat"
  cb_lru :: "nat list"
  cb_bytes :: int
  cb_hits :: u64
  cb_misses :: u64
  cb_waits :: u64
  cb_evicts :: u64

definition newCachedBlockDevice :: "device option \<Rightarrow> int \<Rightarrow> int \<Rightarrow> go_error + cachedBlockDevice" where
  "newCachedBlockDevice base maxBytes chunkSize =
     (case base of
        None \<Rightarrow> Inl (Errorf ''block.cache: nil base'')
      | Some b \<Rightarrow>
          let capabilities = dev_Capabilities b; geometry = dev_Geometry b in
          if cap_Writable capabilities
          then Inl (Errorf ''block.cache: base must be read-only; place the cache below a writable overlay'')
          else if maxBytes \<le> 0 \<or> chunkSize \<le> 0 then Inl (Errorf ''block.cache: max_bytes and chunk_size must be positive'')
          else if chunkSize > maxBytes then Inl (Errorf ''block.cache: chunk_size exceeds max_bytes'')
          else if geo_Size geometry < 0 \<or> geo_LogicalBlockSize geometry = 0 then Inl (Errorf ''block.cache: invalid base geometry'')
          else if chunkSize mod uint (geo_LogicalBlockSize geometry) \<noteq> 0
          then Inl (Errorf ''block.cache: chunk_size must be a multiple of the logical block size'')
          else Inr \<lparr>cb_base = b, cb_maxBytes = maxBytes, cb_chunkSize = chunkSize, cb_geometry = geometry,
            cb_baseCapabilities = capabilities, cb_heap = [], cb_entries = Map.empty, cb_lru = [], cb_bytes = 0,
            cb_hits = 0, cb_misses = 0, cb_waits = 0, cb_evicts = 0\<rparr>)"

definition cache_Capabilities :: "cachedBlockDevice \<Rightarrow> capabilities" where
  "cache_Capabilities d = (cb_baseCapabilities d)
     \<lparr>cap_Writable := False, cap_Flush := False, cap_Zero := False, cap_Trim := False, cap_Durable := False,
      cap_Concurrent := True, cap_Prefetch := True,
      cap_Extents := (cap_Extents (cb_baseCapabilities d) \<and> dev_Extents (cb_base d) \<noteq> None)\<rparr>"

definition cache_Extents :: "cachedBlockDevice \<Rightarrow> int \<Rightarrow> int \<Rightarrow> go_error + extent list" where
  "cache_Extents d off len =
     (case dev_Extents (cb_base d) of
        None \<Rightarrow> Inl ErrUnsupported
      | Some extents \<Rightarrow>
          if \<not> cap_Extents (cb_baseCapabilities d) then Inl ErrUnsupported
          else case ValidateRange (geo_Size (cb_geometry d)) off len of
            Some e \<Rightarrow> Inl e
          | None \<Rightarrow> extents off len)"

subsection \<open>The critical sections of a chunk request\<close>

datatype chunk_outcome = Ready bytes "go_error option" | Wait nat | Load nat

text \<open>\<open>list.MoveToFront\<close> leaves an element that has been removed from the list alone.\<close>

definition move_front :: "nat \<Rightarrow> nat list \<Rightarrow> nat list" where
  "move_front e es = (if e \<in> set es then e # remove1 e es else es)"

definition chunk_hit :: "nat \<Rightarrow> cachedBlockDevice \<Rightarrow> cachedBlockDevice \<times> bytes \<times> go_error option" where
  "chunk_hit e d =
     (let entry = cb_heap d ! e in
      (d\<lparr>cb_lru := (if ce_element entry then move_front e (cb_lru d) else cb_lru d), cb_hits := cb_hits d + 1\<rparr>,
       ce_data entry, ce_err entry))"

definition chunk_lookup :: "int \<Rightarrow> cachedBlockDevice \<Rightarrow> cachedBlockDevice \<times> chunk_outcome" where
  "chunk_lookup index d =
     (case cb_entries d index of
        Some e \<Rightarrow>
          if ce_ready (cb_heap d ! e) then (d\<lparr>cb_waits := cb_waits d + 1\<rparr>, Wait e)
          else (let (d', data, err) = chunk_hit e d in (d', Ready data err))
      | None \<Rightarrow>
          (let e = length (cb_heap d) in
           (d\<lparr>cb_heap := cb_heap d @ [\<lparr>ce_index = index, ce_data = [], ce_err = None, ce_ready = True, ce_element = False\<rparr>],
              cb_entries := (cb_entries d)(index \<mapsto> e), cb_misses := cb_misses d + 1\<rparr>, Load e)))"

text \<open>What the base gives for a chunk: the buffer as the read leaves it, and the error.\<close>

definition readBase :: "cachedBlockDevice \<Rightarrow> nat \<Rightarrow> int \<Rightarrow> read_result" where
  "readBase d len off =
     (case ReadFullAt (dev_ReadAt (cb_base d)) len off of
        (p, err) \<Rightarrow> (take len (p @ replicate len 0), err))"

definition chunk_value :: "cachedBlockDevice \<Rightarrow> int \<Rightarrow> read_result" where
  "chunk_value d index =
     (let off = index * cb_chunkSize d;
          remaining = geo_Size (cb_geometry d) - off;
          len = (if remaining < cb_chunkSize d then remaining else cb_chunkSize d)
      in if len \<le> 0 then ([], Some EOF) else readBase d (nat len) off)"

definition chunk_load :: "nat \<Rightarrow> cachedBlockDevice \<Rightarrow> cachedBlockDevice" where
  "chunk_load e d =
     (let entry = cb_heap d ! e; (data, err) = chunk_value d (ce_index entry)
      in d\<lparr>cb_heap := (cb_heap d)[e := entry\<lparr>ce_data := data, ce_err := err\<rparr>]\<rparr>)"

function evictLocked :: "cachedBlockDevice \<Rightarrow> cachedBlockDevice" where
  "evictLocked d =
     (if cb_bytes d > cb_maxBytes d \<and> cb_lru d \<noteq> []
      then let e = last (cb_lru d); entry = cb_heap d ! e
           in evictLocked (d\<lparr>cb_lru := butlast (cb_lru d), cb_entries := (cb_entries d)(ce_index entry := None),
                cb_bytes := cb_bytes d - int (length (ce_data entry)), cb_evicts := cb_evicts d + 1\<rparr>)
      else d)"
  by pat_completeness auto
termination
  by (relation "measure (\<lambda>d. length (cb_lru d))") auto

declare evictLocked.simps [simp del]

definition chunk_publish :: "nat \<Rightarrow> cachedBlockDevice \<Rightarrow> cachedBlockDevice \<times> bytes \<times> go_error option" where
  "chunk_publish e d =
     (let entry = cb_heap d ! e;
          d' = (if ce_err entry = None
                then evictLocked (d\<lparr>cb_heap := (cb_heap d)[e := entry\<lparr>ce_ready := False, ce_element := True\<rparr>],
                       cb_lru := e # cb_lru d, cb_bytes := cb_bytes d + int (length (ce_data entry))\<rparr>)
                else d\<lparr>cb_heap := (cb_heap d)[e := entry\<lparr>ce_ready := False\<rparr>],
                       cb_entries := (cb_entries d)(ce_index entry := None)\<rparr>)
      in (d', ce_data entry, ce_err entry))"

subsection \<open>A single caller\<close>

text \<open>A caller that is alone and finds an entry being loaded would wait for ever.\<close>

definition chunk :: "int \<Rightarrow> cachedBlockDevice \<Rightarrow> (cachedBlockDevice \<times> bytes \<times> go_error option) option" where
  "chunk index d =
     (case chunk_lookup index d of
        (d', Ready data err) \<Rightarrow> Some (d', data, err)
      | (d', Load e) \<Rightarrow> Some (chunk_publish e (chunk_load e d'))
      | (d', Wait e) \<Rightarrow> None)"

function cache_read_loop :: "nat \<Rightarrow> int \<Rightarrow> bytes \<Rightarrow> cachedBlockDevice \<Rightarrow> (cachedBlockDevice \<times> read_result) option" where
  "cache_read_loop n off p d =
     (if length p < n
      then let absolute = off + int (length p);
               index = absolute sdiv cb_chunkSize d;
               within = absolute smod cb_chunkSize d in
        case chunk index d of
          None \<Rightarrow> None
        | Some (d', data, Some err) \<Rightarrow> Some (d', p, Some err)
        | Some (d', data, None) \<Rightarrow>
            let available = int (length data) - within in
            if available \<le> 0 then Some (d', p, Some ErrUnexpectedEOF)
            else if within < 0 then Some (d', p, Some (Panic ''slice bounds out of range''))
            else let count = min (n - length p) (nat available)
                 in cache_read_loop n off (p @ segment (nat within) count data) d'
      else Some (d, p, None))"
  by pat_completeness auto
termination
  by (relation "measure (\<lambda>(n, off, p, d). n - length p)") (auto simp: min_def)

declare cache_read_loop.simps [simp del]

definition cache_ReadAt :: "nat \<Rightarrow> int \<Rightarrow> cachedBlockDevice \<Rightarrow> (cachedBlockDevice \<times> read_result) option" where
  "cache_ReadAt n off d =
     (case ValidateRange (geo_Size (cb_geometry d)) off (int n) of
        Some err \<Rightarrow> Some (d, [], Some err)
      | None \<Rightarrow> if n = 0 then Some (d, [], None) else cache_read_loop n off [] d)"

fun prefetch_loop :: "int list \<Rightarrow> cachedBlockDevice \<Rightarrow> (cachedBlockDevice \<times> go_error option) option" where
  "prefetch_loop [] d = Some (d, None)"
| "prefetch_loop (index # rest) d =
     (case chunk index d of
        None \<Rightarrow> None
      | Some (d', data, Some err) \<Rightarrow> Some (d', Some err)
      | Some (d', data, None) \<Rightarrow> prefetch_loop rest d')"

definition cache_Prefetch :: "int \<Rightarrow> int \<Rightarrow> cachedBlockDevice \<Rightarrow> (cachedBlockDevice \<times> go_error option) option" where
  "cache_Prefetch off len d =
     (case ValidateRange (geo_Size (cb_geometry d)) off len of
        Some err \<Rightarrow> Some (d, Some err)
      | None \<Rightarrow>
          if len = 0 then Some (d, None)
          else prefetch_loop [off sdiv cb_chunkSize d .. (off + len - 1) sdiv cb_chunkSize d] d)"

subsection \<open>Concurrent callers\<close>

text \<open>Where a caller stands in its request for a chunk, and the result it has once it is done.\<close>

datatype caller = Idle | Waiting int nat | Loading int nat | Loaded int nat | Done int bytes "go_error option"

record cacheRun =
  ca_dev :: cachedBlockDevice
  ca_pc :: "nat \<Rightarrow> caller"

inductive cache_step :: "cacheRun \<Rightarrow> cacheRun \<Rightarrow> bool" where
  call_ready: "ca_pc r t = Idle \<or> ca_pc r t = Done i b x \<Longrightarrow> chunk_lookup index (ca_dev r) = (d, Ready data err) \<Longrightarrow>
    cache_step r \<lparr>ca_dev = d, ca_pc = (ca_pc r)(t := Done index data err)\<rparr>"
| call_wait: "ca_pc r t = Idle \<or> ca_pc r t = Done i b x \<Longrightarrow> chunk_lookup index (ca_dev r) = (d, Wait e) \<Longrightarrow>
    cache_step r \<lparr>ca_dev = d, ca_pc = (ca_pc r)(t := Waiting index e)\<rparr>"
| call_load: "ca_pc r t = Idle \<or> ca_pc r t = Done i b x \<Longrightarrow> chunk_lookup index (ca_dev r) = (d, Load e) \<Longrightarrow>
    cache_step r \<lparr>ca_dev = d, ca_pc = (ca_pc r)(t := Loading index e)\<rparr>"
| woken: "ca_pc r t = Waiting index e \<Longrightarrow> \<not> ce_ready (cb_heap (ca_dev r) ! e) \<Longrightarrow> chunk_hit e (ca_dev r) = (d, data, err) \<Longrightarrow>
    cache_step r \<lparr>ca_dev = d, ca_pc = (ca_pc r)(t := Done index data err)\<rparr>"
| load: "ca_pc r t = Loading index e \<Longrightarrow>
    cache_step r \<lparr>ca_dev = chunk_load e (ca_dev r), ca_pc = (ca_pc r)(t := Loaded index e)\<rparr>"
| publish: "ca_pc r t = Loaded index e \<Longrightarrow> chunk_publish e (ca_dev r) = (d, data, err) \<Longrightarrow>
    cache_step r \<lparr>ca_dev = d, ca_pc = (ca_pc r)(t := Done index data err)\<rparr>"

subsection \<open>The invariant\<close>

definition lru_bytes :: "blockCacheEntry list \<Rightarrow> nat list \<Rightarrow> int" where
  "lru_bytes h es = (\<Sum>e \<leftarrow> es. int (length (ce_data (h ! e))))"

text \<open>An entry that is no longer being loaded holds what the base gives for its chunk.\<close>

definition heap_ok :: "cachedBlockDevice \<Rightarrow> bool" where
  "heap_ok d \<longleftrightarrow> (\<forall>e < length (cb_heap d). let x = cb_heap d ! e in
     \<not> ce_ready x \<longrightarrow> (ce_data x, ce_err x) = chunk_value d (ce_index x))"

definition lru_ok :: "cachedBlockDevice \<Rightarrow> bool" where
  "lru_ok d \<longleftrightarrow> distinct (cb_lru d) \<and> cb_bytes d = lru_bytes (cb_heap d) (cb_lru d) \<and>
     (\<forall>e \<in> set (cb_lru d). e < length (cb_heap d) \<and> \<not> ce_ready (cb_heap d ! e) \<and> ce_err (cb_heap d ! e) = None \<and>
        cb_entries d (ce_index (cb_heap d ! e)) = Some e) \<and>
     (\<forall>i e. cb_entries d i = Some e \<longrightarrow> e < length (cb_heap d) \<and> ce_index (cb_heap d ! e) = i \<and>
        (ce_ready (cb_heap d ! e) \<or> e \<in> set (cb_lru d)))"

definition limits_ok :: "cachedBlockDevice \<Rightarrow> bool" where
  "limits_ok d \<longleftrightarrow> 0 < cb_chunkSize d \<and> cb_chunkSize d \<le> cb_maxBytes d \<and> cb_bytes d \<le> cb_maxBytes d"

definition cache_inv :: "cachedBlockDevice \<Rightarrow> bool" where
  "cache_inv d \<longleftrightarrow> heap_ok d \<and> lru_ok d \<and> limits_ok d"

text \<open>What no operation changes.\<close>

definition same_cache :: "cachedBlockDevice \<Rightarrow> cachedBlockDevice \<Rightarrow> bool" where
  "same_cache d d' \<longleftrightarrow> cb_base d' = cb_base d \<and> cb_maxBytes d' = cb_maxBytes d \<and> cb_chunkSize d' = cb_chunkSize d \<and>
     cb_geometry d' = cb_geometry d \<and> cb_baseCapabilities d' = cb_baseCapabilities d"

lemma same_cache_refl [simp]: "same_cache d d"
  by (simp add: same_cache_def)

lemma same_cache_trans: "same_cache d d' \<Longrightarrow> same_cache d' d'' \<Longrightarrow> same_cache d d''"
  by (simp add: same_cache_def)

lemma chunk_value_same: "same_cache d d' \<Longrightarrow> chunk_value d' = chunk_value d"
  by (rule ext) (simp add: same_cache_def chunk_value_def readBase_def Let_def)

lemma lru_bytes_snoc [simp]: "lru_bytes h (es @ [e]) = lru_bytes h es + int (length (ce_data (h ! e)))"
  by (simp add: lru_bytes_def)

lemma lru_bytes_Cons [simp]: "lru_bytes h (e # es) = int (length (ce_data (h ! e))) + lru_bytes h es"
  by (simp add: lru_bytes_def)

lemma lru_bytes_cong: "(\<And>e. e \<in> set es \<Longrightarrow> ce_data (h ! e) = ce_data (h' ! e)) \<Longrightarrow> lru_bytes h es = lru_bytes h' es"
  unfolding lru_bytes_def by (rule arg_cong [of _ _ sum_list]) simp

lemma lru_bytes_remove1: "e \<in> set es \<Longrightarrow> int (length (ce_data (h ! e))) + lru_bytes h (remove1 e es) = lru_bytes h es"
  by (induction es) auto

lemma lru_okI:
  assumes "distinct (cb_lru d)" and "cb_bytes d = lru_bytes (cb_heap d) (cb_lru d)"
    and "\<And>e. e \<in> set (cb_lru d) \<Longrightarrow> e < length (cb_heap d) \<and> \<not> ce_ready (cb_heap d ! e) \<and> ce_err (cb_heap d ! e) = None \<and>
        cb_entries d (ce_index (cb_heap d ! e)) = Some e"
    and "\<And>i e. cb_entries d i = Some e \<Longrightarrow> e < length (cb_heap d) \<and> ce_index (cb_heap d ! e) = i \<and>
        (ce_ready (cb_heap d ! e) \<or> e \<in> set (cb_lru d))"
  shows "lru_ok d"
  unfolding lru_ok_def using assms by blast

lemma lru_okD:
  assumes "lru_ok d" and "e \<in> set (cb_lru d)"
  shows "e < length (cb_heap d)" and "\<not> ce_ready (cb_heap d ! e)" and "ce_err (cb_heap d ! e) = None"
    and "cb_entries d (ce_index (cb_heap d ! e)) = Some e"
  using assms by (simp_all add: lru_ok_def)

lemma lru_ok_entry:
  assumes "lru_ok d" and "cb_entries d i = Some e"
  shows "e < length (cb_heap d)" and "ce_index (cb_heap d ! e) = i" and "ce_ready (cb_heap d ! e) \<or> e \<in> set (cb_lru d)"
  using assms by (simp_all add: lru_ok_def)

subsection \<open>What the sections keep\<close>

definition evict_one :: "cachedBlockDevice \<Rightarrow> cachedBlockDevice" where
  "evict_one d = (let e = last (cb_lru d); entry = cb_heap d ! e in
     d\<lparr>cb_lru := butlast (cb_lru d), cb_entries := (cb_entries d)(ce_index entry := None),
       cb_bytes := cb_bytes d - int (length (ce_data entry)), cb_evicts := cb_evicts d + 1\<rparr>)"

lemma evict_one_ok:
  assumes ok: "lru_ok d" and ne: "cb_lru d \<noteq> []"
  shows "lru_ok (evict_one d)" and "same_cache d (evict_one d)" and "cb_heap (evict_one d) = cb_heap d"
    and "cb_entries d i = Some e \<Longrightarrow> ce_ready (cb_heap d ! e) \<Longrightarrow> cb_entries (evict_one d) i = Some e"
proof -
  obtain es l where lru: "cb_lru d = es @ [l]" using ne by (metis rev_exhaust)
  let ?x = "cb_heap d ! l"
  have l: "l \<notin> set es" "distinct es" "\<not> ce_ready ?x" "cb_entries d (ce_index ?x) = Some l" "cb_bytes d = lru_bytes (cb_heap d) (es @ [l])"
    using ok by (auto simp: lru_ok_def lru)
  have d': "evict_one d = d\<lparr>cb_lru := es, cb_entries := (cb_entries d)(ce_index ?x := None),
      cb_bytes := cb_bytes d - int (length (ce_data ?x)), cb_evicts := cb_evicts d + 1\<rparr>"
    by (simp add: evict_one_def lru Let_def)
  show "same_cache d (evict_one d)" "cb_heap (evict_one d) = cb_heap d" by (simp_all add: d' same_cache_def)
  show "lru_ok (evict_one d)"
  proof (rule lru_okI)
    show "distinct (cb_lru (evict_one d))" "cb_bytes (evict_one d) = lru_bytes (cb_heap (evict_one d)) (cb_lru (evict_one d))"
      using l(2,5) by (simp_all add: d')
  next
    fix f assume "f \<in> set (cb_lru (evict_one d))"
    then have f: "f \<in> set (cb_lru d)" "f \<noteq> l" using l(1) by (auto simp: d' lru)
    note k = lru_okD [OF ok f(1)]
    have "ce_index (cb_heap d ! f) \<noteq> ce_index ?x" using k(4) l(4) f(2) by auto
    then show "f < length (cb_heap (evict_one d)) \<and> \<not> ce_ready (cb_heap (evict_one d) ! f) \<and> ce_err (cb_heap (evict_one d) ! f) = None \<and>
        cb_entries (evict_one d) (ce_index (cb_heap (evict_one d) ! f)) = Some f" using k by (simp add: d')
  next
    fix i f assume "cb_entries (evict_one d) i = Some f"
    then have f: "cb_entries d i = Some f" "i \<noteq> ce_index ?x" by (auto simp: d' split: if_splits)
    note k = lru_ok_entry [OF ok f(1)]
    have "f \<noteq> l" using k(2) f(2) by blast
    then show "f < length (cb_heap (evict_one d)) \<and> ce_index (cb_heap (evict_one d) ! f) = i \<and>
        (ce_ready (cb_heap (evict_one d) ! f) \<or> f \<in> set (cb_lru (evict_one d)))" using k by (auto simp: d' lru)
  qed
  show "cb_entries (evict_one d) i = Some e" if "cb_entries d i = Some e" "ce_ready (cb_heap d ! e)"
    using that l(3,4) by (auto simp: d')
qed

lemma evictLocked_eq: "evictLocked d = (if cb_bytes d > cb_maxBytes d \<and> cb_lru d \<noteq> [] then evictLocked (evict_one d) else d)"
  by (subst evictLocked.simps) (simp add: evict_one_def Let_def)

lemma evictLocked_ok:
  assumes "lru_ok d" and "0 \<le> cb_maxBytes d"
  shows "lru_ok (evictLocked d) \<and> same_cache d (evictLocked d) \<and> cb_heap (evictLocked d) = cb_heap d \<and>
    cb_bytes (evictLocked d) \<le> cb_maxBytes d \<and>
    (\<forall>i e. cb_entries d i = Some e \<longrightarrow> ce_ready (cb_heap d ! e) \<longrightarrow> cb_entries (evictLocked d) i = Some e)"
  using assms
proof (induction "length (cb_lru d)" arbitrary: d rule: less_induct)
  case (less d)
  show ?case
  proof (cases "cb_bytes d > cb_maxBytes d \<and> cb_lru d \<noteq> []")
    case True
    then have ne: "cb_lru d \<noteq> []" and e: "evictLocked d = evictLocked (evict_one d)" by (simp_all add: evictLocked_eq [of d])
    note o = evict_one_ok [OF less.prems(1) ne]
    have mx: "0 \<le> cb_maxBytes (evict_one d)" "cb_maxBytes (evict_one d) = cb_maxBytes d"
      using o(2) less.prems(2) by (simp_all add: same_cache_def)
    have "length (cb_lru (evict_one d)) < length (cb_lru d)" using ne by (simp add: evict_one_def Let_def)
    note i = less.hyps [OF this o(1) mx(1)]
    show ?thesis unfolding e using i same_cache_trans [OF o(2)] o(4) by (simp add: o(3) mx(2))
  next
    case False
    have e: "evictLocked d = d" unfolding evictLocked_eq [of d] by (rule if_not_P [OF False])
    have "cb_bytes d \<le> cb_maxBytes d" using False less.prems by (auto simp: lru_ok_def lru_bytes_def)
    then show ?thesis using less.prems by (simp add: e)
  qed
qed

text \<open>The next lemmas follow one entry from its creation to its publication.\<close>

lemma chunk_hit_ok:
  assumes inv: "cache_inv d" and h: "chunk_hit e d = (d', data, err)"
  shows "cache_inv d'" and "same_cache d d'" and "cb_heap d' = cb_heap d" and "cb_entries d' = cb_entries d"
    and "data = ce_data (cb_heap d ! e)" and "err = ce_err (cb_heap d ! e)"
proof -
  let ?l = "if ce_element (cb_heap d ! e) then move_front e (cb_lru d) else cb_lru d"
  have d': "d' = d\<lparr>cb_lru := ?l, cb_hits := cb_hits d + 1\<rparr>" using h by (simp add: chunk_hit_def Let_def)
  have dl: "distinct (cb_lru d)" using inv by (simp add: cache_inv_def lru_ok_def)
  have l: "set ?l = set (cb_lru d)" "distinct ?l" "lru_bytes (cb_heap d) ?l = lru_bytes (cb_heap d) (cb_lru d)"
    using dl lru_bytes_remove1 [of e "cb_lru d" "cb_heap d"] by (auto simp: move_front_def)
  show s: "same_cache d d'" "cb_heap d' = cb_heap d" "cb_entries d' = cb_entries d" by (simp_all add: d' same_cache_def)
  show "data = ce_data (cb_heap d ! e)" "err = ce_err (cb_heap d ! e)" using h by (simp_all add: chunk_hit_def Let_def)
  have "heap_ok d'" using inv by (simp add: cache_inv_def heap_ok_def s(2) chunk_value_same [OF s(1)])
  moreover have "lru_ok d'" using inv l by (simp add: cache_inv_def lru_ok_def d')
  moreover have "limits_ok d'" using inv by (simp add: cache_inv_def limits_ok_def d')
  ultimately show "cache_inv d'" by (simp add: cache_inv_def)
qed

lemma lookup_new_ok:
  assumes inv: "cache_inv d" and n: "cb_entries d index = None" and l: "chunk_lookup index d = (d', out)"
  defines "e \<equiv> length (cb_heap d)"
  shows "out = Load e" and "cache_inv d'" and "same_cache d d'" and "cb_entries d' = (cb_entries d)(index \<mapsto> e)"
    and "cb_heap d' = cb_heap d @ [\<lparr>ce_index = index, ce_data = [], ce_err = None, ce_ready = True, ce_element = False\<rparr>]"
proof -
  let ?x = "\<lparr>ce_index = index, ce_data = [], ce_err = None, ce_ready = True, ce_element = False\<rparr>"
  have d': "d' = d\<lparr>cb_heap := cb_heap d @ [?x], cb_entries := (cb_entries d)(index \<mapsto> e), cb_misses := cb_misses d + 1\<rparr>"
    and "out = Load e" using l n by (simp_all add: chunk_lookup_def e_def Let_def)
  then show "out = Load e" by simp
  show s: "same_cache d d'" "cb_entries d' = (cb_entries d)(index \<mapsto> e)" "cb_heap d' = cb_heap d @ [?x]" by (simp_all add: d' same_cache_def)
  have lo: "lru_ok d" using inv by (simp add: cache_inv_def)
  have h: "heap_ok d'" using inv by (auto simp: cache_inv_def heap_ok_def s(3) chunk_value_same [OF s(1)] nth_append Let_def)
  have "lru_ok d'"
  proof (rule lru_okI)
    have "lru_bytes (cb_heap d @ [?x]) (cb_lru d) = lru_bytes (cb_heap d) (cb_lru d)"
      by (rule lru_bytes_cong) (simp add: nth_append lru_okD(1) [OF lo])
    then show "distinct (cb_lru d')" "cb_bytes d' = lru_bytes (cb_heap d') (cb_lru d')" using lo by (simp_all add: d' lru_ok_def)
  next
    fix f assume "f \<in> set (cb_lru d')"
    then have k: "f \<in> set (cb_lru d)" by (simp add: d')
    have "ce_index (cb_heap d ! f) \<noteq> index" using lru_okD(4) [OF lo k] n by auto
    then show "f < length (cb_heap d') \<and> \<not> ce_ready (cb_heap d' ! f) \<and> ce_err (cb_heap d' ! f) = None \<and>
        cb_entries d' (ce_index (cb_heap d' ! f)) = Some f" using lru_okD [OF lo k] by (simp add: d' nth_append)
  next
    fix i f assume f: "cb_entries d' i = Some f"
    show "f < length (cb_heap d') \<and> ce_index (cb_heap d' ! f) = i \<and> (ce_ready (cb_heap d' ! f) \<or> f \<in> set (cb_lru d'))"
    proof (cases "i = index")
      case True
      then show ?thesis using f by (auto simp: d' e_def nth_append)
    next
      case False
      then have "cb_entries d i = Some f" using f by (simp add: d')
      from lru_ok_entry [OF lo this] show ?thesis by (auto simp: d' nth_append)
    qed
  qed
  moreover have "limits_ok d'" using inv by (simp add: cache_inv_def limits_ok_def d')
  ultimately show "cache_inv d'" using h by (simp add: cache_inv_def)
qed

lemma chunk_load_ok:
  assumes inv: "cache_inv d" and e: "e < length (cb_heap d)" "ce_ready (cb_heap d ! e)"
  defines "x \<equiv> cb_heap d ! e" and "d' \<equiv> chunk_load e d"
  shows "cache_inv d'" and "same_cache d d'" and "cb_entries d' = cb_entries d"
    and "cb_heap d' = (cb_heap d)[e := x\<lparr>ce_data := fst (chunk_value d (ce_index x)), ce_err := snd (chunk_value d (ce_index x))\<rparr>]"
proof -
  let ?y = "x\<lparr>ce_data := fst (chunk_value d (ce_index x)), ce_err := snd (chunk_value d (ce_index x))\<rparr>"
  have d': "d' = d\<lparr>cb_heap := (cb_heap d)[e := ?y]\<rparr>" by (simp add: d'_def chunk_load_def x_def Let_def case_prod_beta)
  show s: "same_cache d d'" "cb_entries d' = cb_entries d" "cb_heap d' = (cb_heap d)[e := ?y]" by (simp_all add: d' same_cache_def)
  have lo: "lru_ok d" using inv by (simp add: cache_inv_def)
  have ne: "e \<notin> set (cb_lru d)" using lru_okD(2) [OF lo] e(2) by blast
  have "heap_ok d'"
    using inv e by (auto simp: cache_inv_def heap_ok_def s(3) chunk_value_same [OF s(1)] nth_list_update Let_def x_def)
  moreover have "lru_bytes (cb_heap d') (cb_lru d) = lru_bytes (cb_heap d) (cb_lru d)"
    by (rule lru_bytes_cong, subst s(3), subst nth_list_update_neq) (use ne in auto)
  moreover have "lru_ok d'"
  proof (rule lru_okI)
    show "distinct (cb_lru d')" "cb_bytes d' = lru_bytes (cb_heap d') (cb_lru d')"
      using lo calculation(2) by (simp_all add: d' lru_ok_def)
    show "f < length (cb_heap d') \<and> \<not> ce_ready (cb_heap d' ! f) \<and> ce_err (cb_heap d' ! f) = None \<and>
        cb_entries d' (ce_index (cb_heap d' ! f)) = Some f" if "f \<in> set (cb_lru d')" for f
      using lru_okD [OF lo, of f] ne that by (cases "f = e") (simp_all add: d')
    show "f < length (cb_heap d') \<and> ce_index (cb_heap d' ! f) = i \<and> (ce_ready (cb_heap d' ! f) \<or> f \<in> set (cb_lru d'))"
      if "cb_entries d' i = Some f" for i f
      using lru_ok_entry [OF lo, of i f] e that by (cases "f = e") (simp_all add: d' x_def)
  qed
  moreover have "limits_ok d'" using inv by (simp add: cache_inv_def limits_ok_def d')
  ultimately show "cache_inv d'" by (simp add: cache_inv_def)
qed

lemma length_readBase: "length (fst (readBase d n off)) = n"
  by (auto simp: readBase_def min_def split: prod.split)

lemma length_chunk_value: "0 < cb_chunkSize d \<Longrightarrow> int (length (fst (chunk_value d i))) \<le> cb_chunkSize d"
  by (simp add: chunk_value_def Let_def length_readBase)

text \<open>Publishing an entry ends its loading and leaves every other entry, and the index of those still loading, alone.\<close>

definition published :: "nat \<Rightarrow> cachedBlockDevice \<Rightarrow> cachedBlockDevice \<Rightarrow> bool" where
  "published e d d' \<longleftrightarrow> cache_inv d' \<and> same_cache d d' \<and> length (cb_heap d') = length (cb_heap d) \<and>
     (\<forall>f. f \<noteq> e \<longrightarrow> cb_heap d' ! f = cb_heap d ! f) \<and>
     \<not> ce_ready (cb_heap d' ! e) \<and> ce_index (cb_heap d' ! e) = ce_index (cb_heap d ! e) \<and>
     (\<forall>i f. cb_entries d i = Some f \<longrightarrow> ce_ready (cb_heap d ! f) \<longrightarrow> f \<noteq> e \<longrightarrow> cb_entries d' i = Some f)"

definition loaded :: "nat \<Rightarrow> cachedBlockDevice \<Rightarrow> bool" where
  "loaded e d \<longleftrightarrow> (let x = cb_heap d ! e in e < length (cb_heap d) \<and> ce_ready x \<and> cb_entries d (ce_index x) = Some e \<and>
     (ce_data x, ce_err x) = chunk_value d (ce_index x))"

lemma publish_success:
  assumes inv: "cache_inv d" and ld: "loaded e d" and None: "ce_err (cb_heap d ! e) = None"
  shows "published e d (fst (chunk_publish e d))"
proof -
  let ?x = "cb_heap d ! e"
  have e: "e < length (cb_heap d)" "ce_ready ?x" "cb_entries d (ce_index ?x) = Some e" and v: "(ce_data ?x, ce_err ?x) = chunk_value d (ce_index ?x)"
    using ld by (simp_all add: loaded_def Let_def)
  have lo: "lru_ok d" and ho: "heap_ok d" and mo: "limits_ok d" using inv by (simp_all add: cache_inv_def)
  have ne: "e \<notin> set (cb_lru d)" using lru_okD(2) [OF lo] e(2) by blast
  let ?y = "?x\<lparr>ce_ready := False, ce_element := True\<rparr>"
  define q where "q = d\<lparr>cb_heap := (cb_heap d)[e := ?y], cb_lru := e # cb_lru d, cb_bytes := cb_bytes d + int (length (ce_data ?x))\<rparr>"
  define d' where "d' = evictLocked q"
  have b: "lru_bytes (cb_heap q) (cb_lru d) = lru_bytes (cb_heap d) (cb_lru d)"
    by (rule lru_bytes_cong) (use ne in \<open>auto simp: q_def intro: arg_cong [OF nth_list_update_neq]\<close>)
  have lq: "lru_ok q"
  proof (rule lru_okI)
    show "distinct (cb_lru q)" "cb_bytes q = lru_bytes (cb_heap q) (cb_lru q)"
      using lo ne b e(1) by (simp_all add: q_def lru_ok_def)
    show "f < length (cb_heap q) \<and> \<not> ce_ready (cb_heap q ! f) \<and> ce_err (cb_heap q ! f) = None \<and>
        cb_entries q (ce_index (cb_heap q ! f)) = Some f" if "f \<in> set (cb_lru q)" for f
      using lru_okD [OF lo, of f] ne e that None by (cases "f = e") (simp_all add: q_def)
    show "f < length (cb_heap q) \<and> ce_index (cb_heap q ! f) = i \<and> (ce_ready (cb_heap q ! f) \<or> f \<in> set (cb_lru q))"
      if "cb_entries q i = Some f" for i f
      using lru_ok_entry [OF lo, of i f] e that by (cases "f = e") (simp_all add: q_def)
  qed
  have "0 \<le> cb_maxBytes q" using mo by (simp add: limits_ok_def q_def)
  note k = evictLocked_ok [OF lq this, folded d'_def]
  have hq: "cb_heap d' = (cb_heap d)[e := ?y]" using k by (simp add: q_def)
  have sq: "same_cache d q" by (simp add: q_def same_cache_def)
  then have sd: "same_cache d d'" using k same_cache_trans by blast
  have "heap_ok d'" using ho e v by (auto simp: heap_ok_def hq chunk_value_same [OF sd] nth_list_update Let_def)
  moreover have "limits_ok d'" using k mo sd sq by (simp add: limits_ok_def same_cache_def)
  moreover have "cb_entries d' i = Some f" if "cb_entries d i = Some f" "ce_ready (cb_heap d ! f)" "f \<noteq> e" for i f
    using k that by (simp add: q_def)
  moreover have "lru_ok d'" using k by blast
  ultimately have "published e d d'" using sd e(1) by (simp add: published_def cache_inv_def hq)
  then show ?thesis by (simp add: chunk_publish_def Let_def None d'_def q_def)
qed

lemma publish_failure:
  assumes inv: "cache_inv d" and ld: "loaded e d" and Some: "ce_err (cb_heap d ! e) = Some er"
  shows "published e d (fst (chunk_publish e d))"
proof -
  let ?x = "cb_heap d ! e"
  have e: "e < length (cb_heap d)" "ce_ready ?x" "cb_entries d (ce_index ?x) = Some e" and v: "(ce_data ?x, ce_err ?x) = chunk_value d (ce_index ?x)"
    using ld by (simp_all add: loaded_def Let_def)
  have lo: "lru_ok d" and ho: "heap_ok d" and mo: "limits_ok d" using inv by (simp_all add: cache_inv_def)
  have ne: "e \<notin> set (cb_lru d)" using lru_okD(2) [OF lo] e(2) by blast
  let ?y = "?x\<lparr>ce_ready := False\<rparr>"
  define d' where "d' = d\<lparr>cb_heap := (cb_heap d)[e := ?y], cb_entries := (cb_entries d)(ce_index ?x := None)\<rparr>"
  have sd: "same_cache d d'" by (simp add: d'_def same_cache_def)
  have h: "cb_heap d' = (cb_heap d)[e := ?y]" by (simp add: d'_def)
  have "heap_ok d'" using ho e v by (auto simp: heap_ok_def h chunk_value_same [OF sd] nth_list_update Let_def)
  moreover have "lru_ok d'"
  proof (rule lru_okI)
    have "lru_bytes (cb_heap d') (cb_lru d) = lru_bytes (cb_heap d) (cb_lru d)"
      by (rule lru_bytes_cong) (use ne in \<open>auto simp: h intro: arg_cong [OF nth_list_update_neq]\<close>)
    then show "distinct (cb_lru d')" "cb_bytes d' = lru_bytes (cb_heap d') (cb_lru d')" using lo by (simp_all add: d'_def lru_ok_def)
    show "f < length (cb_heap d') \<and> \<not> ce_ready (cb_heap d' ! f) \<and> ce_err (cb_heap d' ! f) = None \<and>
        cb_entries d' (ce_index (cb_heap d' ! f)) = Some f" if "f \<in> set (cb_lru d')" for f
      using lru_okD [OF lo, of f] ne e that by (cases "f = e") (auto simp: d'_def)
    show "f < length (cb_heap d') \<and> ce_index (cb_heap d' ! f) = i \<and> (ce_ready (cb_heap d' ! f) \<or> f \<in> set (cb_lru d'))"
      if "cb_entries d' i = Some f" for i f
      using lru_ok_entry [OF lo, of i f] e that by (cases "f = e") (auto simp: d'_def split: if_splits)
  qed
  moreover have "limits_ok d'" using mo by (simp add: limits_ok_def d'_def)
  moreover have "cb_entries d' i = Some f" if "cb_entries d i = Some f" "f \<noteq> e" for i f
    using that e(3) by (auto simp: d'_def)
  ultimately have "published e d d'" using sd e(1) by (simp add: published_def cache_inv_def h)
  then show ?thesis by (simp add: chunk_publish_def Let_def Some d'_def)
qed

lemma chunk_publish_ok:
  assumes "cache_inv d" and "loaded e d" and "chunk_publish e d = (d', data, err)"
  shows "published e d d'" and "(data, err) = chunk_value d (ce_index (cb_heap d ! e))"
proof -
  show "published e d d'"
    using publish_success [OF assms(1,2)] publish_failure [OF assms(1,2)] assms(3) by (cases "ce_err (cb_heap d ! e)") simp_all
  show "(data, err) = chunk_value d (ce_index (cb_heap d ! e))"
    using assms(2,3) by (simp add: loaded_def chunk_publish_def Let_def)
qed

subsection \<open>The invariant of concurrent callers\<close>

fun owns :: "caller \<Rightarrow> nat \<Rightarrow> bool" where
  "owns (Loading i e) f \<longleftrightarrow> f = e"
| "owns (Loaded i e) f \<longleftrightarrow> f = e"
| "owns _ f \<longleftrightarrow> False"

fun caller_ok :: "cachedBlockDevice \<Rightarrow> caller \<Rightarrow> bool" where
  "caller_ok d Idle \<longleftrightarrow> True"
| "caller_ok d (Waiting i e) \<longleftrightarrow> e < length (cb_heap d) \<and> ce_index (cb_heap d ! e) = i"
| "caller_ok d (Loading i e) \<longleftrightarrow> e < length (cb_heap d) \<and> ce_index (cb_heap d ! e) = i \<and> ce_ready (cb_heap d ! e) \<and> cb_entries d i = Some e"
| "caller_ok d (Loaded i e) \<longleftrightarrow> loaded e d \<and> ce_index (cb_heap d ! e) = i"
| "caller_ok d (Done i data err) \<longleftrightarrow> (data, err) = chunk_value d i"

definition run_ok :: "cacheRun \<Rightarrow> bool" where
  "run_ok r \<longleftrightarrow> cache_inv (ca_dev r) \<and> (\<forall>t. caller_ok (ca_dev r) (ca_pc r t)) \<and>
     (\<forall>s t f. owns (ca_pc r s) f \<longrightarrow> owns (ca_pc r t) f \<longrightarrow> s = t) \<and>
     (\<forall>f < length (cb_heap (ca_dev r)). ce_ready (cb_heap (ca_dev r) ! f) \<longrightarrow> (\<exists>t. owns (ca_pc r t) f))"

text \<open>A section of one caller touches at most one entry, which nobody else owns.\<close>

definition section_touches :: "nat set \<Rightarrow> cachedBlockDevice \<Rightarrow> cachedBlockDevice \<Rightarrow> bool" where
  "section_touches E d d' \<longleftrightarrow> same_cache d d' \<and> length (cb_heap d) \<le> length (cb_heap d') \<and>
     (\<forall>f < length (cb_heap d). ce_index (cb_heap d' ! f) = ce_index (cb_heap d ! f) \<and>
        (f \<notin> E \<longrightarrow> cb_heap d' ! f = cb_heap d ! f \<and>
           (ce_ready (cb_heap d ! f) \<and> cb_entries d (ce_index (cb_heap d ! f)) = Some f \<longrightarrow>
            cb_entries d' (ce_index (cb_heap d ! f)) = Some f)))"

lemma caller_ok_section:
  assumes t: "section_touches E d d'" and ok: "caller_ok d pc" and o: "\<And>f. owns pc f \<Longrightarrow> f \<notin> E"
  shows "caller_ok d' pc"
proof -
  have s: "same_cache d d'" and l: "length (cb_heap d) \<le> length (cb_heap d')" using t by (simp_all add: section_touches_def)
  have ix: "ce_index (cb_heap d' ! f) = ce_index (cb_heap d ! f)" if "f < length (cb_heap d)" for f
    using t that by (simp add: section_touches_def)
  have keep: "cb_heap d' ! f = cb_heap d ! f"
      "ce_ready (cb_heap d ! f) \<Longrightarrow> cb_entries d (ce_index (cb_heap d ! f)) = Some f \<Longrightarrow> cb_entries d' (ce_index (cb_heap d ! f)) = Some f"
    if "f < length (cb_heap d)" "f \<notin> E" for f using t that by (simp_all add: section_touches_def)
  show ?thesis
  proof (cases pc)
    case (Loading i e)
    then show ?thesis using ok o [of e] keep [of e] l by auto
  next
    case (Loaded i e)
    then show ?thesis using ok o [of e] keep [of e] l by (auto simp: loaded_def chunk_value_same [OF s] Let_def)
  qed (use ok ix l chunk_value_same [OF s] in \<open>auto intro: less_le_trans\<close>)
qed

lemma run_uniq: "run_ok r \<Longrightarrow> owns (ca_pc r s) f \<Longrightarrow> owns (ca_pc r t) f \<Longrightarrow> s = t"
  by (simp add: run_ok_def)

lemma run_other:
  "run_ok r \<Longrightarrow> f < length (cb_heap (ca_dev r)) \<Longrightarrow> ce_ready (cb_heap (ca_dev r) ! f) \<Longrightarrow> \<not> owns (ca_pc r t) f \<Longrightarrow>
   \<exists>s. s \<noteq> t \<and> owns (ca_pc r s) f"
  unfolding run_ok_def by metis

lemma run_update:
  assumes run: "run_ok r" and inv: "cache_inv d'" and t: "section_touches E (ca_dev r) d'" and pc: "caller_ok d' pc'"
    and alone: "\<And>s f. s \<noteq> t \<Longrightarrow> f \<in> E \<or> owns pc' f \<Longrightarrow> \<not> owns (ca_pc r s) f"
    and cov: "\<And>f. f < length (cb_heap d') \<Longrightarrow> ce_ready (cb_heap d' ! f) \<Longrightarrow> owns pc' f \<or> (\<exists>s. s \<noteq> t \<and> owns (ca_pc r s) f)"
  shows "run_ok \<lparr>ca_dev = d', ca_pc = (ca_pc r)(t := pc')\<rparr>"
proof -
  have old: "caller_ok (ca_dev r) (ca_pc r s)" for s using run by (simp add: run_ok_def)
  have uniq: "owns (ca_pc r u) f \<Longrightarrow> owns (ca_pc r v) f \<Longrightarrow> u = v" for u v f using run by (simp add: run_ok_def)
  have "caller_ok d' (((ca_pc r)(t := pc')) s)" for s
  proof (cases "s = t")
    case False
    have "f \<notin> E" if "owns (ca_pc r s) f" for f using alone [OF False, of f] that by blast
    from caller_ok_section [OF t old this] show ?thesis using False by simp
  qed (use pc in simp)
  moreover have "u = v" if o: "owns (((ca_pc r)(t := pc')) u) f" "owns (((ca_pc r)(t := pc')) v) f" for u v f
  proof (cases "u = t \<or> v = t")
    case True
    then show ?thesis using o alone [of u f] alone [of v f] by (cases "u = t"; cases "v = t") simp_all
  next
    case False
    then show ?thesis using o by (intro uniq [of u f]) simp_all
  qed
  moreover have "\<exists>s. owns (((ca_pc r)(t := pc')) s) f" if "f < length (cb_heap d')" "ce_ready (cb_heap d' ! f)" for f
  proof -
    from cov [OF that] consider "owns pc' f" | s where "s \<noteq> t" "owns (ca_pc r s) f" by blast
    then show ?thesis
    proof cases
      case 1
      then show ?thesis by (intro exI [of _ t]) simp
    next
      case 2
      then show ?thesis by (intro exI [of _ s]) simp
    qed
  qed
  ultimately show ?thesis using inv unfolding run_ok_def cacheRun.select_convs by blast
qed

text \<open>The sections, in these terms.\<close>

lemma section_entry:
  assumes "same_cache d d'" and "cb_heap d' = (cb_heap d)[e := x]" and "ce_index x = ce_index (cb_heap d ! e)" and "cb_entries d' = cb_entries d"
  shows "section_touches {e} d d'"
proof -
  have "cb_heap d' ! f = (if f = e then x else cb_heap d ! f)" if "f < length (cb_heap d)" for f
    using that by (simp add: assms(2) nth_list_update)
  moreover have "length (cb_heap d') = length (cb_heap d)" by (simp add: assms(2))
  ultimately show ?thesis using assms(1,3,4) by (simp add: section_touches_def)
qed

lemma section_none:
  "same_cache d d' \<Longrightarrow> cb_heap d' = cb_heap d @ xs \<Longrightarrow> (\<And>i e. cb_entries d i = Some e \<Longrightarrow> cb_entries d' i = Some e) \<Longrightarrow> section_touches {} d d'"
  by (simp add: section_touches_def nth_append)

lemma section_publish: "published e d d' \<Longrightarrow> section_touches {e} d d'"
  by (auto simp: published_def section_touches_def)

lemma lookup_present:
  assumes inv: "cache_inv d" and e: "cb_entries d index = Some e" and l: "chunk_lookup index d = (d', out)"
  shows "if ce_ready (cb_heap d ! e) then out = Wait e \<and> d' = d\<lparr>cb_waits := cb_waits d + 1\<rparr>
    else \<exists>data err. out = Ready data err \<and> chunk_hit e d = (d', data, err) \<and> (data, err) = chunk_value d index"
proof (cases "ce_ready (cb_heap d ! e)")
  case True
  then show ?thesis using e l by (simp add: chunk_lookup_def)
next
  case False
  obtain a data err where h: "chunk_hit e d = (a, data, err)" by (metis prod_cases3)
  have "(ce_data (cb_heap d ! e), ce_err (cb_heap d ! e)) = chunk_value d index"
    using inv False lru_ok_entry(1,2) [OF _ e] by (auto simp: cache_inv_def heap_ok_def Let_def)
  then have v: "(data, err) = chunk_value d index" using chunk_hit_ok(5,6) [OF inv h] by simp
  have "out = Ready data err" "d' = a" using False e l h by (simp_all add: chunk_lookup_def)
  then show ?thesis unfolding if_not_P [OF False] using h v by blast
qed

lemma waits_inv: "cache_inv (d\<lparr>cb_waits := w\<rparr>) \<longleftrightarrow> cache_inv d"
  by (simp add: cache_inv_def heap_ok_def lru_ok_def limits_ok_def chunk_value_same [of d "d\<lparr>cb_waits := w\<rparr>"] same_cache_def)

lemma run_hit:
  assumes run: "run_ok r" and pc: "\<And>f. \<not> owns (ca_pc r t) f" and h: "chunk_hit e (ca_dev r) = (d, data, err)"
    and v: "(data, err) = chunk_value (ca_dev r) index"
  shows "run_ok \<lparr>ca_dev = d, ca_pc = (ca_pc r)(t := Done index data err)\<rparr>"
proof -
  have inv: "cache_inv (ca_dev r)" using run by (simp add: run_ok_def)
  note k = chunk_hit_ok [OF inv h]
  have to: "section_touches {} (ca_dev r) d" by (rule section_none [where xs = "[]"]) (simp_all add: k)
  show ?thesis
  proof (rule run_update [OF run k(1) to])
    show "caller_ok d (Done index data err)" using v by (simp add: chunk_value_same [OF k(2)])
    fix f assume f: "f < length (cb_heap d)" "ce_ready (cb_heap d ! f)"
    then obtain s where "owns (ca_pc r s) f" using run by (auto simp: run_ok_def k(3))
    then show "owns (Done index data err) f \<or> (\<exists>s. s \<noteq> t \<and> owns (ca_pc r s) f)" using pc by metis
  qed simp
qed

lemma run_call:
  assumes run: "run_ok r" and pc: "\<And>f. \<not> owns (ca_pc r t) f" and l: "chunk_lookup index (ca_dev r) = (d, out)"
    and out: "pc' = (case out of Ready data err \<Rightarrow> Done index data err | Wait e \<Rightarrow> Waiting index e | Load e \<Rightarrow> Loading index e)"
  shows "run_ok \<lparr>ca_dev = d, ca_pc = (ca_pc r)(t := pc')\<rparr>"
proof -
  let ?d = "ca_dev r"
  have inv: "cache_inv ?d" and lo: "lru_ok ?d" using run by (simp_all add: run_ok_def cache_inv_def)
  have cov: "\<exists>s. s \<noteq> t \<and> owns (ca_pc r s) f" if "f < length (cb_heap ?d)" "ce_ready (cb_heap ?d ! f)" for f
    using run pc that unfolding run_ok_def by metis
  show ?thesis
  proof (cases "cb_entries ?d index")
    case None
    note k = lookup_new_ok [OF inv None l]
    have own: "f < length (cb_heap ?d)" if "owns (ca_pc r s) f" for s f
    proof -
      have "caller_ok ?d (ca_pc r s)" using run by (simp add: run_ok_def)
      then show ?thesis using that by (cases "ca_pc r s") (auto simp: loaded_def Let_def)
    qed
    have to: "section_touches {} ?d d" by (rule section_none [OF k(3,5)]) (use None in \<open>auto simp: k(4)\<close>)
    have pc': "pc' = Loading index (length (cb_heap ?d))" using out k(1) by simp
    show ?thesis
    proof (rule run_update [OF run k(2) to])
      show "caller_ok d pc'" by (simp add: pc' k(4,5))
      show "\<not> owns (ca_pc r s) f" if "f \<in> {} \<or> owns pc' f" for s f using that own [of s f] by (auto simp: pc')
      show "owns pc' f \<or> (\<exists>s. s \<noteq> t \<and> owns (ca_pc r s) f)" if "f < length (cb_heap d)" "ce_ready (cb_heap d ! f)" for f
        using that cov [of f] by (cases "f < length (cb_heap ?d)") (auto simp: pc' k(5) nth_append)
    qed
  next
    case (Some e)
    note k = lookup_present [OF inv Some l]
    show ?thesis
    proof (cases "ce_ready (cb_heap ?d ! e)")
      case True
      then have d: "d = ?d\<lparr>cb_waits := cb_waits ?d + 1\<rparr>" and pc': "pc' = Waiting index e" using k out by simp_all
      have to: "section_touches {} ?d d" by (rule section_none [where xs = "[]"]) (simp_all add: d same_cache_def)
      show ?thesis
        by (rule run_update [OF run _ to]) (use inv cov lru_ok_entry(1,2) [OF lo Some] in \<open>auto simp: d pc' waits_inv\<close>)
    next
      case False
      then obtain data err where h: "chunk_hit e ?d = (d, data, err)" "(data, err) = chunk_value ?d index" and "out = Ready data err"
        using k by auto
      then have pc': "pc' = Done index data err" using out by simp
      show ?thesis unfolding pc' by (rule run_hit [OF run pc h])
    qed
  qed
qed

lemma run_load:
  assumes run: "run_ok r" and pc: "ca_pc r t = Loading index e"
  shows "run_ok \<lparr>ca_dev = chunk_load e (ca_dev r), ca_pc = (ca_pc r)(t := Loaded index e)\<rparr> \<and> same_cache (ca_dev r) (chunk_load e (ca_dev r))"
proof -
  let ?d = "ca_dev r"
  have inv: "cache_inv ?d" and c: "caller_ok ?d (ca_pc r t)" using run by (simp_all add: run_ok_def)
  have e: "e < length (cb_heap ?d)" "ce_ready (cb_heap ?d ! e)" and x: "ce_index (cb_heap ?d ! e) = index" "cb_entries ?d index = Some e"
    using c by (simp_all add: pc)
  note k = chunk_load_ok [OF inv e]
  have to: "section_touches {e} ?d (chunk_load e ?d)" by (rule section_entry [OF k(2,4) _ k(3)]) simp
  have "run_ok \<lparr>ca_dev = chunk_load e ?d, ca_pc = (ca_pc r)(t := Loaded index e)\<rparr>"
  proof (rule run_update [OF run k(1) to])
    show "caller_ok (chunk_load e ?d) (Loaded index e)" using e x by (simp add: loaded_def k(3,4) chunk_value_same [OF k(2)])
    show "\<not> owns (ca_pc r s) f" if "s \<noteq> t" "f \<in> {e} \<or> owns (Loaded index e) f" for s f
      using that run_uniq [OF run, of s f t] by (auto simp: pc)
    show "owns (Loaded index e) f \<or> (\<exists>s. s \<noteq> t \<and> owns (ca_pc r s) f)"
      if "f < length (cb_heap (chunk_load e ?d))" "ce_ready (cb_heap (chunk_load e ?d) ! f)" for f
      using that run_other [OF run, of f t] pc by (cases "f = e") (simp_all add: k(4))
  qed
  then show ?thesis using k(2) by simp
qed

lemma run_publish:
  assumes run: "run_ok r" and pc: "ca_pc r t = Loaded index e" and p: "chunk_publish e (ca_dev r) = (d, data, err)"
  shows "run_ok \<lparr>ca_dev = d, ca_pc = (ca_pc r)(t := Done index data err)\<rparr> \<and> same_cache (ca_dev r) d"
proof -
  let ?d = "ca_dev r"
  have inv: "cache_inv ?d" and c: "caller_ok ?d (ca_pc r t)" using run by (simp_all add: run_ok_def)
  have ld: "loaded e ?d" and x: "ce_index (cb_heap ?d ! e) = index" using c by (simp_all add: pc)
  note k = chunk_publish_ok [OF inv ld p]
  have q: "cache_inv d" "same_cache ?d d" "length (cb_heap d) = length (cb_heap ?d)" "\<And>f. f \<noteq> e \<Longrightarrow> cb_heap d ! f = cb_heap ?d ! f"
    "\<not> ce_ready (cb_heap d ! e)" using k(1) by (simp_all add: published_def)
  have "run_ok \<lparr>ca_dev = d, ca_pc = (ca_pc r)(t := Done index data err)\<rparr>"
  proof (rule run_update [OF run q(1) section_publish [OF k(1)]])
    show "caller_ok d (Done index data err)" using k(2) by (simp add: x chunk_value_same [OF q(2)])
    show "\<not> owns (ca_pc r s) f" if "s \<noteq> t" "f \<in> {e} \<or> owns (Done index data err) f" for s f
      using that run_uniq [OF run, of s f t] by (auto simp: pc)
    show "owns (Done index data err) f \<or> (\<exists>s. s \<noteq> t \<and> owns (ca_pc r s) f)"
      if "f < length (cb_heap d)" "ce_ready (cb_heap d ! f)" for f
      using that run_other [OF run, of f t] q(3-5) pc by (cases "f = e") simp_all
  qed
  then show ?thesis using q(2) by simp
qed

lemma cache_step_ok:
  assumes "cache_step r r'" and run: "run_ok r"
  shows "run_ok r' \<and> same_cache (ca_dev r) (ca_dev r')"
proof -
  let ?d = "ca_dev r"
  have inv: "cache_inv ?d" and caller: "\<And>t. caller_ok ?d (ca_pc r t)" using run by (simp_all add: run_ok_def)
  have lookup: "same_cache ?d d" if "chunk_lookup i ?d = (d, out)" for i d out
    using lookup_new_ok(3) [OF inv _ that] lookup_present [OF inv _ that] chunk_hit_ok(2) [OF inv]
    by (cases "cb_entries ?d i") (fastforce split: if_splits simp: same_cache_def)+
  from assms(1) show ?thesis
  proof cases
    case (call_ready t i b x index d data err)
    then have "\<not> owns (ca_pc r t) f" for f by auto
    from run_call [OF run this call_ready(3)] show ?thesis using lookup [OF call_ready(3)] by (simp add: call_ready(1))
  next
    case (call_wait t i b x index d e)
    then have "\<not> owns (ca_pc r t) f" for f by auto
    from run_call [OF run this call_wait(3)] show ?thesis using lookup [OF call_wait(3)] by (simp add: call_wait(1))
  next
    case (call_load t i b x index d e)
    then have "\<not> owns (ca_pc r t) f" for f by auto
    from run_call [OF run this call_load(3)] show ?thesis using lookup [OF call_load(3)] by (simp add: call_load(1))
  next
    case (woken t index e d data err)
    have e: "e < length (cb_heap ?d)" "ce_index (cb_heap ?d ! e) = index" using caller [of t] by (simp_all add: woken(2))
    note k = chunk_hit_ok [OF inv woken(4)]
    have "(data, err) = chunk_value ?d index"
      using inv e woken(3) by (auto simp: cache_inv_def heap_ok_def Let_def k(5,6))
    from run_hit [OF run _ woken(4) this, of t] show ?thesis using k(2) by (simp add: woken(1,2))
  next
    case (load t index e)
    then show ?thesis using run_load [OF run load(2)] by simp
  next
    case (publish t index e d data err)
    then show ?thesis using run_publish [OF run publish(2,3)] by simp
  qed
qed

lemma cache_steps_ok: "cache_step\<^sup>*\<^sup>* r r' \<Longrightarrow> run_ok r \<Longrightarrow> run_ok r' \<and> same_cache (ca_dev r) (ca_dev r')"
  by (induction rule: rtranclp_induct) (auto dest: cache_step_ok intro: same_cache_trans)

lemma new_cache:
  assumes "newCachedBlockDevice (Some base) maxBytes chunkSize = Inr d"
  shows "cache_inv d" and "cb_heap d = []" and "cb_base d = base" and "cb_geometry d = dev_Geometry base"
    and "cb_maxBytes d = maxBytes" and "cb_chunkSize d = chunkSize"
  using assms by (auto simp: newCachedBlockDevice_def Let_def cache_inv_def heap_ok_def lru_ok_def limits_ok_def lru_bytes_def split: if_splits)

subsection \<open>A single caller reads the base\<close>

text \<open>Between the calls of a single caller no entry is being loaded.\<close>

definition quiet :: "cachedBlockDevice \<Rightarrow> bool" where
  "quiet d \<longleftrightarrow> (\<forall>e < length (cb_heap d). \<not> ce_ready (cb_heap d ! e))"

lemma chunk_ok:
  assumes inv: "cache_inv d" and q: "quiet d"
  obtains d' where "chunk index d = Some (d', chunk_value d index)" and "cache_inv d'" and "quiet d'" and "same_cache d d'"
proof (cases "cb_entries d index")
  case None
  obtain d1 out where l: "chunk_lookup index d = (d1, out)" by fastforce
  note n = lookup_new_ok [OF inv None l]
  let ?e = "length (cb_heap d)" and ?d2 = "chunk_load (length (cb_heap d)) d1"
  have e: "?e < length (cb_heap d1)" "ce_ready (cb_heap d1 ! ?e)" by (simp_all add: n(5))
  note k = chunk_load_ok [OF n(2) e]
  have x: "cb_heap ?d2 = cb_heap d @ [\<lparr>ce_index = index, ce_data = fst (chunk_value d index), ce_err = snd (chunk_value d index),
      ce_ready = True, ce_element = False\<rparr>]"
    by (simp add: k(4) n(5) chunk_value_same [OF n(3)])
  have s: "same_cache d ?d2" using n(3) k(2) same_cache_trans by blast
  have ld: "loaded ?e ?d2" by (simp add: loaded_def x k(3) n(4) chunk_value_same [OF s])
  obtain d' data err where p: "chunk_publish ?e ?d2 = (d', data, err)" by (metis prod_cases3)
  note pk = chunk_publish_ok [OF k(1) ld p]
  have v: "(data, err) = chunk_value d index" using pk(2) by (simp add: x chunk_value_same [OF s])
  have c: "chunk index d = Some (d', chunk_value d index)" using l n(1) p v by (simp add: chunk_def)
  have "\<not> ce_ready (cb_heap d' ! f)" if "f < length (cb_heap d')" for f
    using pk(1) that q by (cases "f = ?e") (simp_all add: published_def x nth_append quiet_def)
  then have "quiet d'" by (simp add: quiet_def)
  from that [OF c _ this] pk(1) s show thesis using same_cache_trans by (auto simp: published_def)
next
  case (Some e)
  obtain d1 out where l: "chunk_lookup index d = (d1, out)" by fastforce
  have "\<not> ce_ready (cb_heap d ! e)" using q inv lru_ok_entry(1) [OF _ Some] by (simp add: quiet_def cache_inv_def)
  then obtain data err where h: "out = Ready data err" "chunk_hit e d = (d1, data, err)" "(data, err) = chunk_value d index"
    using lookup_present [OF inv Some l] by auto
  note k = chunk_hit_ok [OF inv h(2)]
  have c: "chunk index d = Some (d1, chunk_value d index)" using l h(1,3) by (simp add: chunk_def)
  show thesis by (rule that [OF c k(1) _ k(2)]) (use q in \<open>simp add: quiet_def k(3)\<close>)
qed

definition faithful_cache :: "cachedBlockDevice \<Rightarrow> bool" where
  "faithful_cache d \<longleftrightarrow> cache_inv d \<and> quiet d \<and> device_faithful (cb_base d) \<and> cb_geometry d = dev_Geometry (cb_base d)"

abbreviation cache_contents :: "cachedBlockDevice \<Rightarrow> bytes" where
  "cache_contents d \<equiv> base_bytes (cb_base d)"

lemma faithful_size:
  "faithful_cache d \<Longrightarrow> geo_Size (cb_geometry d) = int (length (cache_contents d)) \<and> 0 < cb_chunkSize d"
  by (simp add: faithful_cache_def device_faithful_def cache_inv_def limits_ok_def)

lemma chunk_value_faithful:
  assumes f: "faithful_cache d" and k: "cs = nat (cb_chunkSize d)" "k * cs < length (cache_contents d)"
  shows "chunk_value d (int k) = (segment (k * cs) (min cs (length (cache_contents d) - k * cs)) (cache_contents d), None)"
proof -
  let ?c = "cache_contents d"
  note z = faithful_size [OF f]
  define K where "K = k * cs"
  have cs: "cb_chunkSize d = int cs" "0 < cs" and K: "K < length ?c" using k z by (simp_all add: K_def)
  have off: "int k * cb_chunkSize d = int K" by (simp add: cs(1) K_def)
  define n where "n = min cs (length ?c - K)"
  have len: "(if geo_Size (cb_geometry d) - int K < cb_chunkSize d then geo_Size (cb_geometry d) - int K else cb_chunkSize d) = int n"
    using z K by (auto simp: n_def cs(1))
  have n: "0 < n" "K + n \<le> length ?c" using K cs(2) by (auto simp: n_def)
  have "ReadFullAt (dev_ReadAt (cb_base d)) n (int K) = (segment K n ?c, None)"
    using f n(2) by (intro device_faithful_read) (simp_all add: faithful_cache_def device_faithful_def)
  then have "readBase d n (int K) = (segment K n ?c, None)" using n(2) by (simp add: readBase_def)
  then show ?thesis using n(1) unfolding chunk_value_def off Let_def len K_def [symmetric] n_def [symmetric] by simp
qed

lemma chunk_faithful:
  assumes "faithful_cache d"
  obtains d' where "chunk index d = Some (d', chunk_value d index)" and "faithful_cache d'" and "same_cache d d'"
proof -
  have "cache_inv d" "quiet d" using assms by (simp_all add: faithful_cache_def)
  then obtain d' where "chunk index d = Some (d', chunk_value d index)" "cache_inv d'" "quiet d'" "same_cache d d'"
    by (rule chunk_ok)
  then show thesis using that [of d'] assms by (simp add: faithful_cache_def same_cache_def)
qed

lemma cache_read_loop_ok:
  assumes "faithful_cache d" and off: "0 \<le> off" "nat off + n \<le> length (cache_contents d)" and "m \<le> n"
  shows "\<exists>d'. cache_read_loop n off (segment (nat off) m (cache_contents d)) d = Some (d', segment (nat off) n (cache_contents d), None) \<and>
    faithful_cache d' \<and> same_cache d d'"
  using assms
proof (induction "n - m" arbitrary: m d rule: less_induct)
  case less
  let ?c = "cache_contents d" and ?a = "nat off + m"
  define cs where "cs = nat (cb_chunkSize d)"
  define p where "p = segment (nat off) m ?c"
  have z: "0 < cs" "cb_chunkSize d = int cs" using faithful_size [OF less.prems(1)] by (simp_all add: cs_def)
  have lp: "length p = m" using less.prems by (simp add: p_def)
  show ?case
  proof (cases "m < n")
    case False
    then have "m = n" using less.prems(4) by simp
    then have "cache_read_loop n off p d = Some (d, p, None)" using lp by (simp add: cache_read_loop.simps [of n off p])
    then show ?thesis using less.prems(1) \<open>m = n\<close> by (simp add: p_def)
  next
    case True
    let ?k = "?a div cs" and ?w = "?a mod cs"
    have a: "off + int m = int ?a" "?a < length ?c" using less.prems True by simp_all
    have ix: "(off + int m) sdiv cb_chunkSize d = int ?k" "(off + int m) smod cb_chunkSize d = int ?w"
      unfolding a(1) z(2) using z(1) by (simp_all add: sdiv_nonneg smod_nonneg zdiv_int zmod_int)
    have kw: "?k * cs + ?w = ?a" by (rule div_mult_mod_eq)
    then have kc: "?k * cs < length ?c" using a(2) by linarith
    define l where "l = min cs (length ?c - ?k * cs)"
    define data where "data = segment (?k * cs) l ?c"
    have ld: "length data = l" by (simp add: data_def l_def)
    have "?w < length ?c - ?k * cs" using kw a(2) by linarith
    then have wl: "?w < l" using mod_less_divisor [OF z(1), of ?a] by (simp add: l_def)
    obtain d' where c: "chunk (int ?k) d = Some (d', data, None)" and f: "faithful_cache d'" "same_cache d d'"
      using chunk_faithful [OF less.prems(1), of "int ?k"] chunk_value_faithful [OF less.prems(1) cs_def kc]
      by (auto simp: data_def l_def)
    define count where "count = min (n - m) (l - ?w)"
    have "?w + count \<le> l" using wl by (simp add: count_def)
    then have sg: "p @ segment ?w count data = segment (nat off) (m + count) ?c"
      by (simp add: data_def p_def kw segment_add)
    have cc: "cache_contents d' = ?c" using f(2) by (simp add: same_cache_def)
    have "cache_read_loop n off p d = cache_read_loop n off (segment (nat off) (m + count) ?c) d'"
      using True wl by (simp add: cache_read_loop.simps [of n off p] lp ix c ld sg [unfolded count_def] count_def nat_diff_distrib)
    moreover have "n - (m + count) < n - m" "m + count \<le> n" using True wl by (simp_all add: count_def)
    moreover from this obtain d'' where "cache_read_loop n off (segment (nat off) (m + count) ?c) d' =
        Some (d'', segment (nat off) n ?c, None)" "faithful_cache d''" "same_cache d' d''"
      using less.hyps [of "m + count" d'] f(1) less.prems(2,3) unfolding cc by blast
    ultimately show ?thesis using same_cache_trans [OF f(2)] by (simp flip: p_def)
  qed
qed

lemma cache_ReadAt_ok:
  assumes f: "faithful_cache d" and off: "0 \<le> off" "nat off + n \<le> length (cache_contents d)"
  shows "\<exists>d'. cache_ReadAt n off d = Some (d', segment (nat off) n (cache_contents d), None) \<and> faithful_cache d' \<and> same_cache d d'"
proof -
  have v: "ValidateRange (geo_Size (cb_geometry d)) off (int n) = None"
    using faithful_size [OF f] off by (auto simp: ValidateRange_def)
  show ?thesis
  proof (cases "n = 0")
    case True
    then show ?thesis using f v by (simp add: cache_ReadAt_def)
  next
    case False
    then show ?thesis using cache_read_loop_ok [OF f off, of 0] by (simp add: cache_ReadAt_def v)
  qed
qed

lemma prefetch_loop_ok:
  assumes "faithful_cache d" and "\<And>i. i \<in> set ixs \<Longrightarrow> 0 \<le> i \<and> i * cb_chunkSize d < int (length (cache_contents d))"
  shows "\<exists>d'. prefetch_loop ixs d = Some (d', None) \<and> faithful_cache d' \<and> same_cache d d'"
  using assms
proof (induction ixs arbitrary: d)
  case (Cons i xs)
  define k cs where "k = nat i" and "cs = nat (cb_chunkSize d)"
  have i: "i = int k" and z: "cb_chunkSize d = int cs" using Cons.prems(2) [of i] faithful_size [OF Cons.prems(1)] by (simp_all add: k_def cs_def)
  have "int (k * cs) < int (length (cache_contents d))" using Cons.prems(2) [of i] by (simp add: i z)
  then have "k * cs < length (cache_contents d)" by (simp only: of_nat_less_iff)
  note v = chunk_value_faithful [OF Cons.prems(1) cs_def this]
  obtain d' where c: "chunk i d = Some (d', chunk_value d i)" "faithful_cache d'" "same_cache d d'"
    using chunk_faithful [OF Cons.prems(1)] by blast
  have "\<exists>d''. prefetch_loop xs d' = Some (d'', None) \<and> faithful_cache d'' \<and> same_cache d' d''"
    by (rule Cons.IH [OF c(2)]) (use Cons.prems(2) c(3) in \<open>simp add: same_cache_def\<close>)
  then show ?case using c(1) v same_cache_trans [OF c(3)] by (auto simp: i)
qed simp

lemma cache_Prefetch_ok:
  assumes f: "faithful_cache d" and r: "0 \<le> off" "0 \<le> len" "off + len \<le> int (length (cache_contents d))"
  shows "\<exists>d'. cache_Prefetch off len d = Some (d', None) \<and> faithful_cache d' \<and> same_cache d d'"
proof (cases "len = 0")
  case True
  then show ?thesis using faithful_size [OF f] r f by (simp add: cache_Prefetch_def ValidateRange_def)
next
  case False
  note z = faithful_size [OF f]
  have v: "ValidateRange (geo_Size (cb_geometry d)) off len = None" using z r by (simp add: ValidateRange_def)
  have "0 \<le> i \<and> i * cb_chunkSize d < int (length (cache_contents d))"
    if "i \<in> set [off sdiv cb_chunkSize d .. (off + len - 1) sdiv cb_chunkSize d]" for i
  proof -
    have i: "off div cb_chunkSize d \<le> i" "i \<le> (off + len - 1) div cb_chunkSize d" using that z r False by (simp_all add: sdiv_nonneg)
    have "i * cb_chunkSize d \<le> (off + len - 1) div cb_chunkSize d * cb_chunkSize d" using i(2) z by (intro mult_right_mono) simp_all
    also have "\<dots> \<le> off + len - 1" using z pos_mod_sign [of "cb_chunkSize d" "off + len - 1"] unfolding minus_mod_eq_div_mult [symmetric] by linarith
    moreover have "0 \<le> off div cb_chunkSize d" using r z by (simp add: pos_imp_zdiv_nonneg_iff)
    ultimately show ?thesis using i(1) r by simp
  qed
  from prefetch_loop_ok [OF f this, of "[off sdiv cb_chunkSize d .. (off + len - 1) sdiv cb_chunkSize d]"]
  show ?thesis using False by (simp add: cache_Prefetch_def v)
qed

text \<open>A cache with a single caller is a store with the bytes of its base.\<close>

definition cache_read_at :: "cachedBlockDevice \<Rightarrow> nat \<Rightarrow> int \<Rightarrow> read_result" where
  "cache_read_at d n off = (case cache_ReadAt n off d of Some (d', r) \<Rightarrow> r | None \<Rightarrow> ([], None))"

interpretation block_cache: read_store faithful_cache cache_contents cache_read_at
  by unfold_locales (use cache_ReadAt_ok in \<open>fastforce simp: cache_read_at_def\<close>)

subsection \<open>Properties\<close>

text \<open>
  C34. However any number of concurrent callers interleave their requests, a request that returns gives exactly what
  reading the base for that chunk gives, error included; the bytes held are those of the chunks in the order list and
  never exceed the limit; and a caller that waits for an entry waits only while some caller is loading that entry, so
  that its wake-up is due.
\<close>

theorem cache_concurrent_requests:
  assumes "newCachedBlockDevice (Some base) maxBytes chunkSize = Inr d" and "cache_step\<^sup>*\<^sup>* \<lparr>ca_dev = d, ca_pc = (\<lambda>_. Idle)\<rparr> r"
  shows "(ca_pc r t = Done index data err \<longrightarrow> (data, err) = chunk_value d index)
    \<and> cb_bytes (ca_dev r) = lru_bytes (cb_heap (ca_dev r)) (cb_lru (ca_dev r)) \<and> cb_bytes (ca_dev r) \<le> maxBytes
    \<and> (ca_pc r t = Waiting index e \<longrightarrow> ce_ready (cb_heap (ca_dev r) ! e) \<longrightarrow>
        (\<exists>s i. s \<noteq> t \<and> (ca_pc r s = Loading i e \<or> ca_pc r s = Loaded i e)))"
proof -
  note n = new_cache [OF assms(1)]
  have "run_ok \<lparr>ca_dev = d, ca_pc = (\<lambda>_. Idle)\<rparr>" by (simp add: run_ok_def n(1,2))
  from cache_steps_ok [OF assms(2) this] have r: "run_ok r" and s: "same_cache d (ca_dev r)" by simp_all
  have c: "caller_ok (ca_dev r) (ca_pc r t)" and inv: "cache_inv (ca_dev r)" using r by (simp_all add: run_ok_def)
  have "\<exists>s i. s \<noteq> t \<and> (ca_pc r s = Loading i e \<or> ca_pc r s = Loaded i e)"
    if w: "ca_pc r t = Waiting index e" "ce_ready (cb_heap (ca_dev r) ! e)"
  proof -
    obtain s where "s \<noteq> t" "owns (ca_pc r s) e" using run_other [OF r _ w(2), of t] c by (auto simp: w(1))
    then show ?thesis by (cases "ca_pc r s") auto
  qed
  moreover have "ca_pc r t = Done index data err \<longrightarrow> (data, err) = chunk_value d index"
    using c by (auto simp: chunk_value_same [OF s])
  moreover have "cb_maxBytes (ca_dev r) = maxBytes" using s n(5) by (simp add: same_cache_def)
  ultimately show ?thesis using inv by (simp add: cache_inv_def lru_ok_def limits_ok_def)
qed

definition demo_cache :: cachedBlockDevice where
  "demo_cache = \<lparr>cb_base = bytes_device [1, 2, 3], cb_maxBytes = 2, cb_chunkSize = 2, cb_geometry = dev_Geometry (bytes_device [1, 2, 3]),
     cb_baseCapabilities = no_capabilities, cb_heap = [], cb_entries = Map.empty, cb_lru = [], cb_bytes = 0,
     cb_hits = 0, cb_misses = 0, cb_waits = 0, cb_evicts = 0\<rparr>"

lemma demo_cache_new: "newCachedBlockDevice (Some (bytes_device [1, 2, 3])) 2 2 = Inr demo_cache"
  by (simp add: newCachedBlockDevice_def demo_cache_def bytes_device_def Let_def)

text \<open>One caller starts to load chunk 1 and a second caller waits for it.\<close>

theorem cache_concurrent_requests_witness:
  "\<exists>r. cache_step\<^sup>*\<^sup>* \<lparr>ca_dev = demo_cache, ca_pc = (\<lambda>_. Idle)\<rparr> r \<and> ca_pc r 2 = Waiting 1 0 \<and>
     (\<exists>s i. s \<noteq> 2 \<and> (ca_pc r s = Loading i 0 \<or> ca_pc r s = Loaded i 0))"
proof -
  let ?r0 = "\<lparr>ca_dev = demo_cache, ca_pc = (\<lambda>_. Idle)\<rparr>"
  obtain d1 where l1: "chunk_lookup 1 demo_cache = (d1, Load 0)" and e1: "cb_entries d1 1 = Some 0" "ce_ready (cb_heap d1 ! 0)"
    by (simp add: chunk_lookup_def demo_cache_def)
  let ?r1 = "\<lparr>ca_dev = d1, ca_pc = (ca_pc ?r0)(1 := Loading 1 0)\<rparr>"
  have s1: "cache_step ?r0 ?r1" by (rule call_load) (simp_all add: l1)
  obtain d2 where l2: "chunk_lookup 1 d1 = (d2, Wait 0)" and e2: "cb_heap d2 = cb_heap d1" using e1 by (simp add: chunk_lookup_def)
  let ?r2 = "\<lparr>ca_dev = d2, ca_pc = (ca_pc ?r1)(2 := Waiting 1 0)\<rparr>"
  have s2: "cache_step ?r1 ?r2" by (rule call_wait) (simp_all add: l2)
  have s: "cache_step\<^sup>*\<^sup>* ?r0 ?r2" using s1 s2 by auto
  show ?thesis
    using s cache_concurrent_requests [OF demo_cache_new s, of 2 1 "[]" None 0] e1(2) e2 by (intro exI [of _ ?r2]) auto
qed

text \<open>
  C35. For a single caller, with no load of another caller in flight, the cache is transparent. Whatever has been read
  or prefetched before, a read in range returns the bytes of the base and no error, a prefetch in range succeeds, and
  both leave a cache for which the same holds. Every other read or prefetch, with a negative offset, an offset behind
  the end or a length past it, is refused as out of range and changes nothing.
\<close>

theorem cache_reads_base:
  assumes "faithful_cache d"
  shows "(if 0 \<le> off \<and> off + int n \<le> int (length (cache_contents d))
      then \<exists>d'. cache_ReadAt n off d = Some (d', segment (nat off) n (cache_contents d), None) \<and>
        faithful_cache d' \<and> cache_contents d' = cache_contents d
      else cache_ReadAt n off d = Some (d, [], Some ErrOutOfRange))
    \<and> (if 0 \<le> off \<and> 0 \<le> len \<and> off + len \<le> int (length (cache_contents d))
      then \<exists>d'. cache_Prefetch off len d = Some (d', None) \<and> faithful_cache d' \<and> cache_contents d' = cache_contents d
      else cache_Prefetch off len d = Some (d, Some ErrOutOfRange))"
proof (rule conjI)
  note sz = faithful_size [OF assms]
  show "if 0 \<le> off \<and> off + int n \<le> int (length (cache_contents d))
      then \<exists>d'. cache_ReadAt n off d = Some (d', segment (nat off) n (cache_contents d), None) \<and>
        faithful_cache d' \<and> cache_contents d' = cache_contents d
      else cache_ReadAt n off d = Some (d, [], Some ErrOutOfRange)"
  proof (cases "0 \<le> off \<and> off + int n \<le> int (length (cache_contents d))")
    case True
    then have "nat off + n \<le> length (cache_contents d)" by linarith
    with True cache_ReadAt_ok [OF assms, of off n] show ?thesis by (auto simp: same_cache_def)
  next
    case False
    then have "ValidateRange (geo_Size (cb_geometry d)) off (int n) = Some ErrOutOfRange"
      using sz by (auto simp: ValidateRange_def)
    with False show ?thesis by (auto simp: cache_ReadAt_def)
  qed
  show "if 0 \<le> off \<and> 0 \<le> len \<and> off + len \<le> int (length (cache_contents d))
      then \<exists>d'. cache_Prefetch off len d = Some (d', None) \<and> faithful_cache d' \<and> cache_contents d' = cache_contents d
      else cache_Prefetch off len d = Some (d, Some ErrOutOfRange)"
  proof (cases "0 \<le> off \<and> 0 \<le> len \<and> off + len \<le> int (length (cache_contents d))")
    case True
    with cache_Prefetch_ok [OF assms, of off len] show ?thesis by (auto simp: same_cache_def)
  next
    case False
    then have "ValidateRange (geo_Size (cb_geometry d)) off len = Some ErrOutOfRange"
      using sz by (auto simp: ValidateRange_def)
    with False show ?thesis by (auto simp: cache_Prefetch_def)
  qed
qed

theorem cache_reads_base_witness:
  "(\<exists>d'. cache_ReadAt 2 1 demo_cache = Some (d', [2, 3], None) \<and> faithful_cache d') \<and>
   cache_ReadAt 2 (- 1) demo_cache = Some (demo_cache, [], Some ErrOutOfRange)"
proof
  have "faithful_cache demo_cache"
    using new_cache [OF demo_cache_new] by (simp add: faithful_cache_def quiet_def)
  from cache_reads_base [OF this, of 1 2] cache_reads_base [OF this, of "- 1" 2]
  show "\<exists>d'. cache_ReadAt 2 1 demo_cache = Some (d', [2, 3], None) \<and> faithful_cache d'"
    and "cache_ReadAt 2 (- 1) demo_cache = Some (demo_cache, [], Some ErrOutOfRange)"
    by (auto simp: demo_cache_def segment_def)
qed

end
