(* ===== verification/Lznt1.thy ===== *)
theory Lznt1
  imports Format_Support
begin

text \<open>
  The LZNT1 decoder of \<open>src/compression/lznt1/lznt1.go\<close>. The part of the input that a loop has still to read is a list of
  its own, the input from the offset on. The reference is the format: a stream is a list of chunks, a chunk is a list of
  literals and phrases, and \<open>lz_encode\<close> writes them; the decoder is shown to invert it.
\<close>

subsection \<open>The decoder\<close>

definition lz_chunkSize :: nat where
  "lz_chunkSize = 4096"

function split_loop :: "int \<Rightarrow> u16 \<Rightarrow> nat \<Rightarrow> u16 \<times> nat" where
  "split_loop position lengthMask displacementShift =
     (if position \<ge> 0x10 then split_loop (position div 2) (drop_bit 1 lengthMask) (displacementShift - 1)
      else (lengthMask, displacementShift))"
  by pat_completeness auto
termination
  by (relation "measure (\<lambda>(position, m, s). nat position)") auto

declare split_loop.simps [simp del]

primrec copy_phrase :: "nat \<Rightarrow> nat \<Rightarrow> bytes \<Rightarrow> bytes" where
  "copy_phrase 0 displacement out = out"
| "copy_phrase (Suc count) displacement out = copy_phrase count displacement (out @ [out ! (length out - displacement)])"

text \<open>Length and displacement of the phrase token at the head of the input, after a number of bytes of output.\<close>

definition phrase_at :: "nat \<Rightarrow> bytes \<Rightarrow> nat \<times> nat" where
  "phrase_at produced rest =
     (let token = (word_of_nat (le_value (take 2 rest)) :: u16);
          (lengthMask, displacementShift) = split_loop (int produced - 1) 0x0fff 12
      in (unat (token AND lengthMask) + 3, unat (drop_bit displacementShift token) + 1))"

text \<open>The items of one flag byte, from bit \<open>b\<close> on.\<close>

function chunk_bits :: "nat \<Rightarrow> byte \<Rightarrow> nat \<Rightarrow> bytes \<Rightarrow> bytes \<Rightarrow> go_error + bytes \<times> bytes" where
  "chunk_bits maximum flags b rest out =
     (if b \<ge> 8 \<or> rest = [] then Inr (rest, out)
      else if flags AND push_bit b 1 = 0
      then if length out = maximum then Inl (Errorf ''lznt1: chunk output exceeds %d bytes'')
           else chunk_bits maximum flags (b + 1) (tl rest) (out @ [hd rest])
      else if length rest < 2 then Inl (Errorf ''lznt1: truncated phrase token'')
      else case phrase_at (length out) rest of (len, displacement) \<Rightarrow>
        if displacement > length out then Inl (Errorf ''lznt1: phrase displacement %d exceeds chunk output %d'')
        else if int len > int maximum - int (length out) then Inl (Errorf ''lznt1: phrase output exceeds %d bytes'')
        else chunk_bits maximum flags (b + 1) (drop 2 rest) (copy_phrase len displacement out))"
  by pat_completeness auto
termination
  by (relation "measure (\<lambda>(maximum, flags, b, rest, out). 8 - b)") auto

declare chunk_bits.simps [simp del]

lemma length_copy_phrase [simp]: "length (copy_phrase n d out) = length out + n"
  by (induction n arbitrary: out) simp_all

text \<open>A flag byte consumes input and adds output, up to the limit.\<close>

lemma chunk_bits_bounds:
  assumes "chunk_bits maximum flags b rest out = Inr (rest', out')"
  shows "length rest' \<le> length rest \<and> (length out \<le> maximum \<longrightarrow> length out' \<le> maximum)"
  using assms
proof (induction "8 - b" arbitrary: b rest out)
  case 0
  then show ?case by (simp add: chunk_bits.simps [of _ _ b])
next
  case (Suc k)
  have k: "k = 8 - (b + 1)" using Suc.hyps(2) by simp
  obtain len disp where p: "phrase_at (length out) rest = (len, disp)" by fastforce
  show ?case
    using Suc.prems Suc.hyps(1) [OF k, of "tl rest" "out @ [hd rest]"] Suc.hyps(1) [OF k, of "drop 2 rest" "copy_phrase len disp out"]
    by (auto simp: chunk_bits.simps [of _ _ b] p split: if_splits)
qed

function decode_groups :: "nat \<Rightarrow> bytes \<Rightarrow> bytes \<Rightarrow> go_error + bytes" where
  "decode_groups maximum rest out =
     (case rest of
        [] \<Rightarrow> Inr out
      | flags # items \<Rightarrow>
          (case chunk_bits maximum flags 0 items out of
             Inl err \<Rightarrow> Inl err
           | Inr (rest', out') \<Rightarrow> decode_groups maximum rest' out'))"
  by pat_completeness auto
termination
  by (relation "measure (\<lambda>(maximum, rest, out). length rest)") (auto dest!: chunk_bits_bounds)

declare decode_groups.simps [simp del]

definition decodeChunk :: "bytes \<Rightarrow> nat \<Rightarrow> go_error + bytes" where
  "decodeChunk inp maximum = decode_groups maximum inp []"

function decode_chunks :: "nat \<Rightarrow> bytes \<Rightarrow> bytes \<Rightarrow> go_error + bytes" where
  "decode_chunks expected rest out =
     (if length out < expected
      then if length rest < 2 then Inl (Errorf ''lznt1: truncated chunk header at %#x'')
      else let header = (word_of_nat (le_value (take 2 rest)) :: u16); rest = drop 2 rest in
        if header = 0 then Inl (Errorf ''lznt1: zero padding before expected output (%d of %d bytes)'')
        else if header AND 0x7000 \<noteq> 0x3000 then Inl (Errorf ''lznt1: invalid chunk signature %#x'')
        else let encodedSize = unat (header AND 0x0fff) + 1 in
        if encodedSize > length rest then Inl (Errorf ''lznt1: truncated chunk payload at %#x'')
        else let encoded = take encodedSize rest; rest = drop encodedSize rest; remaining = expected - length out in
        if header AND 0x8000 = 0 then decode_chunks expected rest (out @ take remaining encoded)
        else case decodeChunk encoded lz_chunkSize of
          Inl err \<Rightarrow> Inl err
        | Inr chunk \<Rightarrow>
            if chunk = [] then Inl (Errorf ''lznt1: compressed chunk produced no output'')
            else decode_chunks expected rest (out @ take remaining chunk)
      else Inr out)"
  by pat_completeness auto
termination
  by (relation "measure (\<lambda>(expected, rest, out). length rest)") auto

declare decode_chunks.simps [simp del]

definition lz_Decode :: "bytes \<Rightarrow> int \<Rightarrow> go_error + bytes" where
  "lz_Decode inp expected =
     (if expected < 0 then Inl (Errorf ''lznt1: negative output size'') else decode_chunks (nat expected) inp [])"

subsection \<open>The format\<close>

datatype lz_item = Literal byte | Phrase nat nat

datatype lz_chunk = Raw bytes | Packed "lz_item list"

text \<open>A phrase repeats the last \<open>d\<close> bytes, over and over where it is longer than that.\<close>

definition repeat_last :: "nat \<Rightarrow> nat \<Rightarrow> bytes \<Rightarrow> bytes" where
  "repeat_last d n out = map (\<lambda>k. out ! (length out - d + k mod d)) [0..<n]"

fun lz_expand :: "bytes \<Rightarrow> lz_item list \<Rightarrow> bytes" where
  "lz_expand out [] = out"
| "lz_expand out (Literal b # items) = lz_expand (out @ [b]) items"
| "lz_expand out (Phrase d n # items) = lz_expand (out @ repeat_last d n out) items"

text \<open>How often the position of the next byte can be halved before it is at most 16: the bits a length gives up to a displacement.\<close>

fun halvings :: "nat \<Rightarrow> nat" where
  "halvings pos = (if pos \<le> 16 then 0 else Suc (halvings ((pos + 1) div 2)))"

declare halvings.simps [simp del]

definition lz_shift :: "nat \<Rightarrow> nat" where
  "lz_shift pos = 12 - halvings pos"

fun item_bytes :: "nat \<Rightarrow> lz_item \<Rightarrow> bytes" where
  "item_bytes pos (Literal b) = [b]"
| "item_bytes pos (Phrase d n) = le_bytes 2 ((d - 1) * 2 ^ lz_shift pos + (n - 3))"

fun item_size :: "lz_item \<Rightarrow> nat" where
  "item_size (Literal b) = 1"
| "item_size (Phrase d n) = n"

fun item_ok :: "nat \<Rightarrow> lz_item \<Rightarrow> bool" where
  "item_ok pos (Literal b) \<longleftrightarrow> pos < lz_chunkSize"
| "item_ok pos (Phrase d n) \<longleftrightarrow> 1 \<le> d \<and> d \<le> pos \<and> 3 \<le> n \<and> n - 3 < 2 ^ lz_shift pos \<and> pos + n \<le> lz_chunkSize"

fun is_phrase :: "lz_item \<Rightarrow> bool" where
  "is_phrase (Literal b) \<longleftrightarrow> False"
| "is_phrase (Phrase d n) \<longleftrightarrow> True"

fun items_ok :: "nat \<Rightarrow> lz_item list \<Rightarrow> bool" where
  "items_ok pos [] \<longleftrightarrow> True"
| "items_ok pos (x # xs) \<longleftrightarrow> item_ok pos x \<and> items_ok (pos + item_size x) xs"

fun items_bytes :: "nat \<Rightarrow> lz_item list \<Rightarrow> bytes" where
  "items_bytes pos [] = []"
| "items_bytes pos (x # xs) = item_bytes pos x @ items_bytes (pos + item_size x) xs"

definition flag_byte :: "lz_item list \<Rightarrow> byte" where
  "flag_byte xs = horner_sum of_bool 2 (map is_phrase xs)"

function groups_bytes :: "nat \<Rightarrow> lz_item list \<Rightarrow> bytes" where
  "groups_bytes pos xs =
     (if xs = [] then []
      else flag_byte (take 8 xs) # items_bytes pos (take 8 xs) @ groups_bytes (pos + sum_list (map item_size (take 8 xs))) (drop 8 xs))"
  by pat_completeness auto
termination
  by (relation "measure (\<lambda>(pos, xs). length xs)") auto

declare groups_bytes.simps [simp del]

fun lz_chunk_ok :: "lz_chunk \<Rightarrow> bool" where
  "lz_chunk_ok (Raw bs) \<longleftrightarrow> bs \<noteq> [] \<and> length bs \<le> 4096"
| "lz_chunk_ok (Packed xs) \<longleftrightarrow> xs \<noteq> [] \<and> items_ok 0 xs \<and> length (groups_bytes 0 xs) \<le> 4096"

fun lz_contents :: "lz_chunk \<Rightarrow> bytes" where
  "lz_contents (Raw bs) = bs"
| "lz_contents (Packed xs) = lz_expand [] xs"

fun lz_encode :: "lz_chunk \<Rightarrow> bytes" where
  "lz_encode (Raw bs) = le_bytes 2 (0x3000 + (length bs - 1)) @ bs"
| "lz_encode (Packed xs) = le_bytes 2 (0xb000 + (length (groups_bytes 0 xs) - 1)) @ groups_bytes 0 xs"

subsection \<open>Phrases\<close>

lemma length_repeat_last [simp]: "length (repeat_last d n out) = n"
  by (simp add: repeat_last_def)

lemma copy_phrase_repeat:
  assumes "0 < d" and "d \<le> length out"
  shows "copy_phrase n d out = out @ repeat_last d n out"
proof -
  have "copy_phrase n d (out @ repeat_last d m out) = out @ repeat_last d (m + n) out" for m
  proof (induction n arbitrary: m)
    case (Suc n)
    let ?o = "out @ repeat_last d m out"
    have l: "length ?o = length out + m" by (simp add: repeat_last_def)
    have "?o ! (length ?o - d) = out ! (length out - d + m mod d)"
    proof (cases "m < d")
      case True
      have "length out + m - d < length out" "length out + m - d = length out - d + m" using True assms by linarith+
      then show ?thesis using True l by (simp add: nth_append)
    next
      case False
      have "length ?o - d = length out + (m - d)" using False l by simp
      then have "?o ! (length ?o - d) = repeat_last d m out ! (m - d)" by (simp only: nth_append_length_plus)
      also have "\<dots> = out ! (length out - d + (m - d) mod d)" using False assms by (simp add: repeat_last_def)
      finally show ?thesis using False by (simp add: le_mod_geq)
    qed
    then have "?o @ [?o ! (length ?o - d)] = out @ repeat_last d (Suc m) out" by (simp add: repeat_last_def)
    then show ?case using Suc.IH [of "Suc m"] by (simp del: append_assoc)
  qed simp
  from this [of 0] show ?thesis by (simp add: repeat_last_def)
qed

lemma halvings_bound: "pos \<le> 16 * 2 ^ halvings pos"
proof (induction pos rule: halvings.induct)
  case (1 pos)
  show ?case
  proof (cases "pos \<le> 16")
    case False
    then have "(pos + 1) div 2 \<le> 16 * 2 ^ halvings ((pos + 1) div 2)" using 1 by simp
    then show ?thesis using False by (simp add: halvings.simps [of pos])
  qed (simp add: halvings.simps [of pos])
qed

lemma halvings_limit: "pos \<le> 16 * 2 ^ k \<Longrightarrow> halvings pos \<le> k"
proof (induction k arbitrary: pos)
  case (Suc k)
  then have "(pos + 1) div 2 \<le> 16 * 2 ^ k" by simp
  then show ?case using Suc.IH by (simp add: halvings.simps [of pos])
qed (simp add: halvings.simps)

lemma drop_bit_mask_u16: "s \<le> 16 \<Longrightarrow> drop_bit 1 (mask s :: u16) = mask (s - 1)"
  by (rule bit_word_eqI) (auto simp: bit_drop_bit_eq bit_mask_iff)

lemma split_loop_eq: "s \<le> 16 \<Longrightarrow> split_loop (int pos - 1) (mask s) s = (mask (s - halvings pos), s - halvings pos)"
proof (induction pos arbitrary: s rule: halvings.induct)
  case (1 pos)
  show ?case
  proof (cases "pos \<le> 16")
    case True
    then show ?thesis by (simp add: split_loop.simps [of "int pos - 1"] halvings.simps [of pos])
  next
    case False
    have "(int pos - 1) div 2 = int ((pos + 1) div 2) - 1" using False by (simp add: zdiv_int)
    moreover have "drop_bit 1 (mask s :: u16) = mask (s - 1)" using "1.prems" by (rule drop_bit_mask_u16)
    ultimately show ?thesis
      using False "1.IH" [OF False, of "s - 1"] "1.prems" by (simp add: split_loop.simps [of "int pos - 1"] halvings.simps [of pos])
  qed
qed

lemma phrase_at_eq:
  assumes ok: "item_ok pos (Phrase d n)"
  shows "phrase_at pos (item_bytes pos (Phrase d n) @ rest) = (n, d)"
proof -
  define sh where "sh = lz_shift pos"
  define t where "t = (d - 1) * 2 ^ sh + (n - 3)"
  have pos: "1 \<le> d" "d \<le> pos" "3 \<le> n" "n - 3 < 2 ^ sh" "pos \<le> 16 * 2 ^ 8" using ok by (simp_all add: sh_def lz_chunkSize_def)
  have h: "halvings pos \<le> 8" by (rule halvings_limit [OF pos(5)])
  have sh: "sh = 12 - halvings pos" "16 = halvings pos + 4 + sh" using h by (simp_all add: sh_def lz_shift_def)
  have "d - 1 < 2 ^ (halvings pos + 4)" using halvings_bound [of pos] pos(1,2) by (simp add: power_add)
  then have "(d - 1) * 2 ^ sh + 2 ^ sh \<le> 2 ^ (halvings pos + 4) * 2 ^ sh" using mult_le_mono1 [of d "2 ^ (halvings pos + 4)" "2 ^ sh"] pos(1)
    by (simp add: diff_mult_distrib)
  also have "2 ^ (halvings pos + 4) * 2 ^ sh = (65536 :: nat)" unfolding power_add [symmetric] sh(2) [symmetric] by simp
  finally have t: "t < 65536" using pos(4) by (simp add: t_def)
  define tok where "tok = (word_of_nat t :: u16)"
  have u: "unat tok = t" using t by (simp add: tok_def unat_of_nat)
  have m: "(0x0fff :: u16) = mask 12" by (simp add: mask_eq_exp_minus_1)
  have "unat (tok AND mask sh) = take_bit sh (unat tok)" by (simp add: unsigned_take_bit_eq flip: take_bit_eq_mask)
  then have a: "unat (tok AND mask sh) = n - 3" using pos(4) by (simp add: u t_def take_bit_eq_mod)
  have "unat (drop_bit sh tok) = drop_bit sh (unat tok)"
    using t by (simp add: unsigned_drop_bit_eq u take_bit_nat_eq_self)
  then have b: "unat (drop_bit sh tok) = d - 1" using pos(4) by (simp add: u t_def drop_bit_eq_div)
  have le: "le_value (take 2 (le_bytes 2 t @ rest)) = t" using t by (simp add: le_value_le_bytes)
  have ib: "item_bytes pos (Phrase d n) = le_bytes 2 t" by (simp only: item_bytes.simps t_def sh_def)
  have sp: "split_loop (int pos - 1) (mask 12) 12 = (mask sh, sh)" using split_loop_eq [of 12 pos] sh(1) by simp
  show ?thesis unfolding ib phrase_at_def le m sp Let_def prod.case tok_def [symmetric] a b using pos(1,3) by simp
qed

lemma items_bytes_eq_Nil: "items_bytes pos xs = [] \<longleftrightarrow> xs = []"
proof (cases xs)
  case (Cons x ys)
  have "item_bytes pos x \<noteq> []" by (cases x) (simp_all flip: length_greater_0_conv)
  then show ?thesis by (simp add: Cons)
qed simp

lemma chunk_bits_items:
  assumes "items_ok (length out) xs" and "b + length xs \<le> 8" and "b + length xs = 8 \<or> rest = []"
    and "\<And>k. k < length xs \<Longrightarrow> bit flags (b + k) = is_phrase (xs ! k)"
  shows "chunk_bits lz_chunkSize flags b (items_bytes (length out) xs @ rest) out = Inr (rest, lz_expand out xs)"
  using assms
proof (induction xs arbitrary: b out)
  case Nil
  then show ?case by (auto simp: chunk_bits.simps [of _ _ b])
next
  case (Cons x xs)
  have b: "b < 8" using Cons.prems(2) by simp
  have flag: "flags AND push_bit b 1 = 0 \<longleftrightarrow> \<not> is_phrase x" 
    using Cons.prems(4) [of 0] unfolding bit_iff_and_push_bit_not_eq_0 by auto
  have later: "bit flags (b + 1 + k) = is_phrase (xs ! k)" if "k < length xs" for k using Cons.prems(4) [of "Suc k"] that by simp
  have prems: "items_ok (length out + item_size x) xs" "b + 1 + length xs \<le> 8" "b + 1 + length xs = 8 \<or> rest = []"
    using Cons.prems(1-3) by simp_all
  show ?case
  proof (cases x)
    case (Literal v)
    have "length out < lz_chunkSize" using Cons.prems(1) by (simp add: Literal)
    then show ?thesis
      using b flag Cons.IH [of "out @ [v]" "b + 1"] prems later by (simp add: chunk_bits.simps [of _ _ b] Literal)
  next
    case (Phrase d n)
    have ok: "item_ok (length out) (Phrase d n)" using Cons.prems(1) by (simp add: Phrase)
    let ?r = "items_bytes (length out + n) xs @ rest"
    let ?out = "out @ repeat_last d n out"
    have c: "copy_phrase n d out = ?out" using ok by (intro copy_phrase_repeat) simp_all
    have le2: "length (item_bytes (length out) (Phrase d n)) = 2" by simp
    then have ne: "item_bytes (length out) (Phrase d n) \<noteq> []" by (simp only: flip: length_0_conv)
    have "chunk_bits lz_chunkSize flags b (item_bytes (length out) (Phrase d n) @ ?r) out = chunk_bits lz_chunkSize flags (b + 1) ?r ?out"
      using b flag ok phrase_at_eq [OF ok, of ?r] le2
      by (simp add: chunk_bits.simps [of _ _ b] Phrase c ne del: item_bytes.simps)
    moreover have "chunk_bits lz_chunkSize flags (b + 1) (items_bytes (length ?out) xs @ rest) ?out = Inr (rest, lz_expand ?out xs)"
      by (rule Cons.IH) (use prems later in \<open>simp_all add: Phrase\<close>)
    ultimately show ?thesis by (simp add: Phrase)
  qed
qed

lemma length_lz_expand: "length (lz_expand out xs) = length out + sum_list (map item_size xs)"
  by (induction out xs rule: lz_expand.induct) (simp_all add: repeat_last_def)

lemma lz_expand_append: "lz_expand out (xs @ ys) = lz_expand (lz_expand out xs) ys"
  by (induction out xs rule: lz_expand.induct) simp_all

lemma items_ok_append: "items_ok pos (xs @ ys) \<longleftrightarrow> items_ok pos xs \<and> items_ok (pos + sum_list (map item_size xs)) ys"
  by (induction xs arbitrary: pos) (simp_all add: add.assoc)

lemma decode_groups_bytes: "items_ok (length out) xs \<Longrightarrow> decode_groups lz_chunkSize (groups_bytes (length out) xs) out = Inr (lz_expand out xs)"
proof (induction "length xs" arbitrary: xs out rule: less_induct)
  case less
  show ?case
  proof (cases "xs = []")
    case True
    then show ?thesis by (simp add: groups_bytes.simps decode_groups.simps)
  next
    case False
    let ?g = "take 8 xs" and ?h = "drop 8 xs"
    let ?out = "lz_expand out ?g"
    have ok: "items_ok (length out) ?g" "items_ok (length ?out) ?h"
      using less.prems items_ok_append [of "length out" ?g ?h] by (simp_all add: length_lz_expand)
    have rest: "groups_bytes (length out) xs = flag_byte ?g # items_bytes (length out) ?g @ groups_bytes (length ?out) ?h"
      using False by (simp add: groups_bytes.simps [of _ xs] length_lz_expand)
    have "chunk_bits lz_chunkSize (flag_byte ?g) 0 (items_bytes (length out) ?g @ groups_bytes (length ?out) ?h) out =
        Inr (groups_bytes (length ?out) ?h, ?out)"
    proof (rule chunk_bits_items [OF ok(1)])
      show "bit (flag_byte ?g) (0 + k) = is_phrase (?g ! k)" if "k < length ?g" for k
        using that by (simp add: flag_byte_def bit_horner_sum_bit_word_iff)
      show "0 + length ?g = 8 \<or> groups_bytes (length ?out) ?h = []"
        by (cases "8 \<le> length xs") (simp_all add: groups_bytes.simps)
    qed simp
    then have "decode_groups lz_chunkSize (groups_bytes (length out) xs) out = decode_groups lz_chunkSize (groups_bytes (length ?out) ?h) ?out"
      by (simp add: rest decode_groups.simps [of _ "_ # _"])
    also have "\<dots> = Inr (lz_expand ?out ?h)" by (rule less.hyps [OF _ ok(2)]) (use False in simp)
    finally show ?thesis by (simp flip: lz_expand_append)
  qed
qed

subsection \<open>Streams\<close>

lemma high_bits: "(h :: u16) AND push_bit 12 m = push_bit 12 (drop_bit 12 h AND m)"
  by (rule bit_word_eqI) (auto simp: bit_and_iff bit_push_bit_iff bit_drop_bit_eq)

lemma chunk_header:
  assumes "k < 4096" and "c < 16" and h: "h = (word_of_nat (c * 4096 + k) :: u16)"
  shows "unat (h AND 0x0fff) = k" and "h AND 0x7000 = push_bit 12 (word_of_nat c AND 7)" and "h AND 0x8000 = push_bit 12 (word_of_nat c AND 8)"
proof -
  have u: "unat h = c * 4096 + k" unfolding h unat_of_nat using assms(1,2) by simp
  have "unat (h AND mask 12) = take_bit 12 (unat h)" by (simp add: unsigned_take_bit_eq flip: take_bit_eq_mask)
  moreover have "(0x0fff :: u16) = mask 12" by (simp add: mask_eq_exp_minus_1)
  ultimately show "unat (h AND 0x0fff) = k" using assms(1) by (simp add: u take_bit_eq_mod)
  have "unat (drop_bit 12 h) = drop_bit 12 (c * 4096 + k)"
    using assms(1,2) by (simp add: unsigned_drop_bit_eq u take_bit_nat_eq_self)
  also have "\<dots> = unat (word_of_nat c :: u16)" using assms(1,2) by (simp add: drop_bit_eq_div unat_of_nat)
  finally have "unat (drop_bit 12 h) = unat (word_of_nat c :: u16)" .
  then have d: "drop_bit 12 h = word_of_nat c" by (rule unsigned_word_eqI)
  have "(0x7000 :: u16) = push_bit 12 7" "(0x8000 :: u16) = push_bit 12 8" by (simp_all add: push_bit_eq_mult)
  then show "h AND 0x7000 = push_bit 12 (word_of_nat c AND 7)" "h AND 0x8000 = push_bit 12 (word_of_nat c AND 8)"
    by (simp_all only: high_bits d)
qed

lemma raw_header:
  assumes "k < 4096" and "h = (word_of_nat (0x3000 + k) :: u16)"
  shows "h \<noteq> 0" and "h AND 0x7000 = 0x3000" and "unat (h AND 0x0fff) = k" and "h AND 0x8000 = 0"
  using chunk_header [of k 3 h] assms by (auto simp: push_bit_eq_mult)

lemma packed_header:
  assumes "k < 4096" and "h = (word_of_nat (0xb000 + k) :: u16)"
  shows "h \<noteq> 0" and "h AND 0x7000 = 0x3000" and "unat (h AND 0x0fff) = k" and "h AND 0x8000 \<noteq> 0"
  using chunk_header [of k 11 h] assms by (auto simp: push_bit_eq_mult)

text \<open>One chunk whose header announces the bytes that follow it.\<close>

lemma decode_chunks_step:
  assumes "length out < expected" and "x < 65536" and h: "h = (word_of_nat x :: u16)"
    and "h \<noteq> 0" and "h AND 0x7000 = 0x3000" and "unat (h AND 0x0fff) + 1 = length g"
  shows "decode_chunks expected (le_bytes 2 x @ g @ rest) out =
    (if h AND 0x8000 = 0 then decode_chunks expected rest (out @ take (expected - length out) g)
     else case decodeChunk g lz_chunkSize of
       Inl err \<Rightarrow> Inl err
     | Inr c \<Rightarrow> if c = [] then Inl (Errorf ''lznt1: compressed chunk produced no output'')
                else decode_chunks expected rest (out @ take (expected - length out) c))"
proof -
  define b where "b = le_bytes 2 x"
  have b: "length b = 2" "le_value b = x" using assms(2) by (simp_all add: b_def le_value_le_bytes)
  have b2: "take 2 (b @ g @ rest) = b" "drop 2 (b @ g @ rest) = g @ rest" "(length (b @ g @ rest) < 2) = False" using b(1) by simp_all
  have t: "take (length g) (g @ rest) = g" "drop (length g) (g @ rest) = rest" "(length (g @ rest) < length g) = False" by simp_all
  have i: "(length out < expected) = True" "(h = 0) = False" "(h AND 0x7000 \<noteq> 0x3000) = False" using assms(1,4,5) by simp_all
  show ?thesis unfolding b_def [symmetric] decode_chunks.simps [of expected "b @ g @ rest" out] Let_def b2 b(2) h [symmetric] assms(6) t i if_True if_False
    by (rule refl)
qed

lemma decode_chunks_raw:
  assumes "length out < expected" and "bs \<noteq> []" and "length bs \<le> 4096"
  shows "decode_chunks expected (lz_encode (Raw bs) @ rest) out = decode_chunks expected rest (out @ take (expected - length out) bs)"
proof -
  define k h where "k = length bs - 1" and "h = (word_of_nat (0x3000 + k) :: u16)"
  have l: "length bs = k + 1" using assms(2) by (simp add: k_def)
  then have kb: "k < 4096" using assms(3) by simp
  note r = raw_header [OF kb h_def]
  have e: "lz_encode (Raw bs) = le_bytes 2 (0x3000 + k) @ bs" by (simp only: lz_encode.simps k_def)
  show ?thesis unfolding e append_assoc
    by (subst decode_chunks_step [OF assms(1) _ h_def r(1,2)]) (use kb l r(3,4) in simp_all)
qed

lemma decode_chunks_packed:
  assumes "length out < expected" and "xs \<noteq> []" and "items_ok 0 xs" and "length (groups_bytes 0 xs) \<le> 4096"
  shows "decode_chunks expected (lz_encode (Packed xs) @ rest) out = decode_chunks expected rest (out @ take (expected - length out) (lz_expand [] xs))"
proof -
  define g where "g = groups_bytes 0 xs"
  have g: "g \<noteq> []" "length g \<le> 4096" using assms(2,4) by (simp_all add: g_def groups_bytes.simps [of _ xs])
  define k h where "k = length g - 1" and "h = (word_of_nat (0xb000 + k) :: u16)"
  have l: "length g = k + 1" using g(1) by (simp add: k_def)
  then have kb: "k < 4096" using g(2) by simp
  note r = packed_header [OF kb h_def]
  have e: "lz_encode (Packed xs) = le_bytes 2 (0xb000 + k) @ g" by (simp only: lz_encode.simps k_def g_def)
  have c: "decodeChunk g lz_chunkSize = Inr (lz_expand [] xs)" using decode_groups_bytes [of "[]" xs] assms(3) by (simp add: decodeChunk_def g_def)
  have "item_size (hd xs) \<noteq> 0" using assms(2,3) by (cases xs; cases "hd xs") auto
  then have "lz_expand [] xs \<noteq> []" using assms(2) length_lz_expand [of "[]" xs] by (cases xs) auto
  then show ?thesis unfolding e append_assoc
    by (subst decode_chunks_step [OF assms(1) _ h_def r(1,2)]) (use kb l r(3,4) c in simp_all)
qed

lemma decode_chunks_stream:
  assumes "\<And>c. c \<in> set cs \<Longrightarrow> lz_chunk_ok c" and "expected \<le> length (out @ concat (map lz_contents cs))" and "length out \<le> expected"
  shows "decode_chunks expected (concat (map lz_encode cs) @ padding) out = Inr (take expected (out @ concat (map lz_contents cs)))"
  using assms
proof (induction cs arbitrary: out)
  case Nil
  then show ?case by (simp add: decode_chunks.simps)
next
  case (Cons c cs)
  show ?case
  proof (cases "length out < expected")
    case False
    then show ?thesis using Cons.prems(3) by (simp add: decode_chunks.simps [of expected _ out])
  next
    case True
    let ?out = "out @ take (expected - length out) (lz_contents c)"
    have ok: "lz_chunk_ok c" using Cons.prems(1) by simp
    have "decode_chunks expected (lz_encode c @ (concat (map lz_encode cs) @ padding)) out = decode_chunks expected (concat (map lz_encode cs) @ padding) ?out"
      using True ok by (cases c) (simp_all add: decode_chunks_raw decode_chunks_packed del: lz_encode.simps)
    also have "\<dots> = Inr (take expected (?out @ concat (map lz_contents cs)))"
      using Cons.prems True by (intro Cons.IH) auto
    also have "take expected (?out @ concat (map lz_contents cs)) = take expected (out @ concat (map lz_contents (c # cs)))"
      using True by (cases "length (lz_contents c) \<le> expected - length out") auto
    finally show ?thesis by simp
  qed
qed

lemma decode_chunks_length:
  "decode_chunks expected rest out = Inr r \<Longrightarrow> length out \<le> expected \<Longrightarrow> length r = expected"
proof (induction "length rest" arbitrary: rest out rule: less_induct)
  case less
  show ?case
  proof (cases "length out < expected")
    case True
    then show ?thesis using less.prems
      by (subst (asm) decode_chunks.simps) (auto simp: Let_def split: if_splits sum.splits intro: less.hyps [rotated])
  qed (use less.prems in \<open>simp add: decode_chunks.simps [of expected rest out]\<close>)
qed

subsection \<open>Properties\<close>

text \<open>
  C36. Decoding inverts the format: for every list of well-formed chunks, raw or packed, and every size up to that of
  their contents, the decoder returns that many bytes of the contents, whatever follows the chunks. On any input at all
  a result has exactly the size asked for.
\<close>

theorem lznt1_roundtrip:
  assumes "\<forall>c \<in> set cs. lz_chunk_ok c" and "n \<le> length (concat (map lz_contents cs))"
  shows "lz_Decode (concat (map lz_encode cs) @ padding) (int n) = Inr (take n (concat (map lz_contents cs)))
    \<and> (\<forall>inp sz r. lz_Decode inp sz = Inr r \<longrightarrow> int (length r) = sz)"
proof -
  have "length r = nat sz \<and> 0 \<le> sz" if "lz_Decode inp sz = Inr r" for inp sz r
    using that decode_chunks_length [of "nat sz" inp "[]" r] by (simp add: lz_Decode_def split: if_splits)
  then have "\<forall>inp sz r. lz_Decode inp sz = Inr r \<longrightarrow> int (length r) = sz" by fastforce
  moreover have "decode_chunks n (concat (map lz_encode cs) @ padding) [] = Inr (take n ([] @ concat (map lz_contents cs)))"
    using assms by (intro decode_chunks_stream) simp_all
  ultimately show ?thesis by (simp add: lz_Decode_def)
qed

lemma le_bytes_2: "le_bytes 2 v = [word_of_nat (v mod 256), word_of_nat (v div 256 mod 256)]"
  by (simp add: numeral_2_eq_2)

lemma take_8_short: "length xs \<le> 8 \<Longrightarrow> xs \<noteq> [] \<Longrightarrow> groups_bytes pos xs = flag_byte xs # items_bytes pos xs"
  by (simp add: groups_bytes.simps [of pos xs] groups_bytes.simps [of _ "[]"])

text \<open>Three literals and a phrase that overlaps itself, then a raw chunk.\<close>

theorem lznt1_roundtrip_witness:
  "lz_Decode [0x05, 0xb0, 0x08, 65, 66, 67, 0x03, 0x20, 0x01, 0x30, 7, 8, 9] 10 = Inr [65, 66, 67, 65, 66, 67, 65, 66, 67, 7]"
proof -
  let ?p = "Packed [Literal 65, Literal 66, Literal 67, Phrase 3 6]"
  have h: "halvings (Suc (Suc (Suc 0))) = 0" by (simp add: halvings.simps)
  have g: "groups_bytes 0 [Literal 65, Literal 66, Literal 67, Phrase 3 6] = [0x08, 65, 66, 67, 0x03, 0x20]"
    by (simp add: take_8_short flag_byte_def lz_shift_def h le_bytes_2)
  have ok: "\<forall>c \<in> set [?p, Raw [7, 8]]. lz_chunk_ok c" by (simp add: g lz_chunkSize_def lz_shift_def h)
  have c: "lz_contents ?p = [65, 66, 67, 65, 66, 67, 65, 66, 67]" by (simp add: repeat_last_def upt_rec)
  show ?thesis
    using lznt1_roundtrip [OF ok, of 10 "[9]"] c by (simp add: g le_bytes_2)
qed

end
