(* ===== verification/Spec2Isabelle.thy ===== *)
theory Spec2Isabelle
  imports Overlay_Sessions Overlay_Extents Memory_Sessions Sparse_Store Readers Guest_Memory_Maps Arm64_Run Gpt Mbr Arm64_Tlb Memory_Channel Block_Cache Lznt1
begin

text \<open>
  Verification of the storage core of trex, a toolkit that reads, writes and boots disk images.

  \<^bold>\<open>Parts.\<close> A disk image is a \<open>storage.Reader\<close>. The package \<open>block\<close> turns it into a device with a
  geometry (\<open>src/block/device.go\<close>), and \<open>block/star\<close> layers a copy-on-write overlay over such a device.

  \<^bold>\<open>Theories.\<close>
  \<^item> \<open>Prelude\<close>: bytes, errors, \<open>int64\<close> wrap-around, segments and overwriting of byte lists.
  \<^item> \<open>Store_Spec\<close>: the contracts between the layers as locales.
  \<^item> \<open>Block_Device\<close>: \<open>src/block/device.go\<close>.
  \<^item> \<open>Overlay\<close>, \<open>Overlay_Sessions\<close>, \<open>Overlay_Extents\<close>: \<open>src/block/star/overlay.go\<close>.
  \<^item> \<open>Extent_Spec\<close>: what an allocation map promises.
\<close>

end
